(* ===== verification/Prelude.thy ===== *)
theory Prelude
  imports Main "HOL-Library.Word" "HOL-Library.Multiset" "HOL-Library.Sublist"
begin

text \<open>
  Shared vocabulary of the development: the machine integer types of the C++ code, errors as
  values (a thrown \<open>std::runtime_error\<close> is the \<open>Inl\<close> of its message), the insertion of an
  element into a list that is kept ordered by a strict comparator (what the ordered containers of
  the standard library offer), positional number notations in any base, and the lemmas on lists
  that several components use.
\<close>

type_synonym u8 = "8 word"
type_synonym u16 = "16 word"
type_synonym u32 = "32 word"
type_synonym u64 = "64 word"

text \<open>The result of code that may throw: \<open>Inl what\<close> is an exception, \<open>Inr x\<close> a value.\<close>

type_synonym 'a result = "string + 'a"

definition bind_result :: "'a result \<Rightarrow> ('a \<Rightarrow> 'b result) \<Rightarrow> 'b result" where
  "bind_result r f = (case r of Inl e \<Rightarrow> Inl e | Inr x \<Rightarrow> f x)"

named_theorems word_conv \<open>conversions between words and numbers\<close>

lemma bind_result_simps [simp]:
  "bind_result (Inl e) f = Inl e"
  "bind_result (Inr x) f = f x"
  by (simp_all add: bind_result_def)

lemma bind_result_Inr:
  "bind_result r f = Inr y \<longleftrightarrow> (\<exists>x. r = Inr x \<and> f x = Inr y)"
  by (cases r) auto

lemma bind_result_Inl:
  "bind_result r f = Inl e \<longleftrightarrow> r = Inl e \<or> (\<exists>x. r = Inr x \<and> f x = Inl e)"
  by (cases r) auto

section \<open>Lists kept in the order of a strict comparator\<close>

text \<open>
  \<open>insert_by lt x xs\<close> puts \<open>x\<close> in front of the first element that it precedes in the order
  \<open>lt\<close>, hence behind its equivalents.
\<close>

fun insert_by :: "('a \<Rightarrow> 'a \<Rightarrow> bool) \<Rightarrow> 'a \<Rightarrow> 'a list \<Rightarrow> 'a list" where
  "insert_by lt x [] = [x]"
| "insert_by lt x (y # ys) = (if lt x y then x # y # ys else y # insert_by lt x ys)"

lemma mset_insert_by [simp]: "mset (insert_by lt x xs) = add_mset x (mset xs)"
  by (induction xs) auto

lemma set_insert_by [simp]: "set (insert_by lt x xs) = insert x (set xs)"
  by (induction xs) auto

lemma length_insert_by [simp]: "length (insert_by lt x xs) = Suc (length xs)"
  by (induction xs) auto

lemma insert_by_not_Nil [simp]: "insert_by lt x xs \<noteq> []"
  by (cases xs) auto

text \<open>A list is ordered when no element strictly precedes one that stands before it.\<close>

abbreviation ordered_by :: "('a \<Rightarrow> 'a \<Rightarrow> bool) \<Rightarrow> 'a list \<Rightarrow> bool" where
  "ordered_by lt \<equiv> sorted_wrt (\<lambda>x y. \<not> lt y x)"

lemma ordered_insert_by:
  assumes trans: "\<And>x y z. \<not> lt y x \<Longrightarrow> \<not> lt z y \<Longrightarrow> \<not> lt z x"
    and asym: "\<And>x y. lt x y \<Longrightarrow> \<not> lt y x"
    and ord: "ordered_by lt xs"
  shows "ordered_by lt (insert_by lt x xs)"
  using ord
proof (induction xs)
  case Nil
  then show ?case by simp
next
  case (Cons y ys)
  show ?case
  proof (cases "lt x y")
    case True
    then have "\<not> lt y x" by (rule asym)
    moreover have "\<not> lt z x" if "z \<in> set ys" for z
      using that Cons.prems \<open>\<not> lt y x\<close> trans by auto
    ultimately show ?thesis using Cons.prems True by auto
  next
    case False
    then show ?thesis using Cons by auto
  qed
qed

text \<open>Two ordered lists of the same elements agree when distinct elements are comparable.\<close>

lemma ordered_unique:
  assumes "ordered_by lt xs" and "ordered_by lt ys" and "mset xs = mset ys"
    and total: "\<And>x y. x \<in> set xs \<Longrightarrow> y \<in> set xs \<Longrightarrow> x \<noteq> y \<Longrightarrow> lt x y \<or> lt y x"
  shows "xs = ys"
  using assms
proof (induction xs arbitrary: ys)
  case Nil
  then show ?case by simp
next
  case (Cons x xs)
  then obtain y ys' where ys: "ys = y # ys'" by (cases ys) auto
  have "x = y"
  proof (rule ccontr)
    assume "x \<noteq> y"
    have sets: "set (x # xs) = set (y # ys')"
      using Cons.prems(3) ys by (metis mset_eq_setD)
    then have "y \<in> set xs" and "x \<in> set ys'" using \<open>x \<noteq> y\<close> by auto
    then have "\<not> lt y x" and "\<not> lt x y" using Cons.prems(1,2) ys by auto
    moreover have "lt x y \<or> lt y x"
      by (rule Cons.prems(4)) (use sets \<open>x \<noteq> y\<close> in auto)
    ultimately show False by blast
  qed
  then show ?case using Cons.IH [of ys'] Cons.prems ys by auto
qed

section \<open>Positional notation\<close>

text \<open>The number a list of digits denotes, least significant digit first.\<close>

fun digits_value :: "nat \<Rightarrow> nat list \<Rightarrow> nat" where
  "digits_value b [] = 0"
| "digits_value b (d # ds) = d + b * digits_value b ds"

lemma digits_value_append [simp]:
  "digits_value b (xs @ ys) = digits_value b xs + b ^ length xs * digits_value b ys"
  by (induction xs) (auto simp: algebra_simps)

lemma digits_value_replicate_0 [simp]: "digits_value b (replicate n 0) = 0"
  by (induction n) auto

lemma digits_value_less:
  "0 < b \<Longrightarrow> \<forall>d \<in> set ds. d < b \<Longrightarrow> digits_value b ds < b ^ length ds"
proof (induction ds)
  case Nil
  then show ?case by simp
next
  case (Cons d ds)
  then have IH: "digits_value b ds + 1 \<le> b ^ length ds" and d: "d < b" by auto
  have "d + b * digits_value b ds < b * (digits_value b ds + 1)" using d by simp
  also have "\<dots> \<le> b * b ^ length ds" using IH by (rule mult_le_mono2)
  finally show ?case by simp
qed

lemma digits_value_inject:
  "0 < b \<Longrightarrow> length xs = length ys \<Longrightarrow> \<forall>d \<in> set xs. d < b \<Longrightarrow> \<forall>d \<in> set ys. d < b
   \<Longrightarrow> digits_value b xs = digits_value b ys \<Longrightarrow> xs = ys"
proof (induction xs ys rule: list_induct2')
  case (4 x xs y ys)
  have "x = (x + b * digits_value b xs) mod b" using "4.prems"(3) by simp
  also have "\<dots> = (y + b * digits_value b ys) mod b" using "4.prems"(5) by (simp only: digits_value.simps)
  also have "\<dots> = y" using "4.prems"(4) by simp
  finally have "x = y" .
  with 4 show ?case by auto
qed auto

lemma digits_value_dropWhile_0:
  "digits_value b (rev (dropWhile (\<lambda>d. d = 0) (rev ds))) = digits_value b ds"
proof (induction ds rule: rev_induct)
  case Nil
  then show ?case by simp
next
  case (snoc d ds)
  then show ?case by (cases "d = 0") auto
qed

section \<open>Words as numbers\<close>

lemma unat_map_less [simp]: "\<forall>d \<in> set (map unat (bs :: u8 list)). d < 256"
  using unsigned_less [where 'a = nat and 'b = 8] by auto

lemma unat_plus_1: "i < (l :: 'a::len word) \<Longrightarrow> unat (i + 1) = Suc (unat i)"
proof -
  assume "i < l"
  then have "unat i + 1 < 2 ^ LENGTH('a)"
    using unsigned_less [of l, where 'a = nat] unfolding word_less_nat_alt by linarith
  then show ?thesis by (simp add: unat_word_ariths)
qed

declare unat_word_ariths [word_conv] word_less_nat_alt [word_conv] word_le_nat_alt [word_conv]
  unat_div [word_conv]

lemma unat_dec: "w \<noteq> (0 :: 'a::len word) \<Longrightarrow> unat (w - 1) = unat w - 1"
proof -
  assume "w \<noteq> 0"
  then have "0 < unat w" by (simp add: unat_gt_0)
  then have "unat (1 :: 'a word) \<le> unat w" by (cases "LENGTH('a) = 1") simp_all
  then show ?thesis by (simp add: unat_sub word_le_nat_alt)
qed

text \<open>Changing one value of a function changes its sum by the difference.\<close>

lemma sum_fun_upd:
  fixes f :: "'b \<Rightarrow> 'a::comm_monoid_add" and n :: nat
  assumes "t < n"
  shows "(\<Sum>u<n. f ((w(t := x)) u)) + f (w t) = (\<Sum>u<n. f (w u)) + f x"
proof -
  have t: "t \<in> {..<n}" using assms by simp
  have rest: "(\<Sum>u \<in> {..<n} - {t}. f ((w(t := x)) u)) = (\<Sum>u \<in> {..<n} - {t}. f (w u))"
    by (intro sum.cong) auto
  have "(\<Sum>u<n. f ((w(t := x)) u)) = f x + (\<Sum>u \<in> {..<n} - {t}. f (w u))"
    unfolding sum.remove [OF finite_lessThan t, of "\<lambda>u. f ((w(t := x)) u)"] rest by simp
  moreover have "(\<Sum>u<n. f (w u)) = f (w t) + (\<Sum>u \<in> {..<n} - {t}. f (w u))"
    by (rule sum.remove [OF finite_lessThan t])
  ultimately show ?thesis by (simp only: ac_simps)
qed

end
