(* ===== verification/Bigint.thy ===== *)
theory Bigint
  imports Prelude
begin

text \<open>
  \<open>src/workserver/util.hpp\<close>: the fixed-size big integers \<open>bigint<T, SIZE_BYTES>\<close> (a big-endian
  byte array with conversions from and to Boost's multiprecision integers and hexadecimal text),
  and the two conversions between a difficulty and its multiplier.

  The type \<open>T\<close> is a word of \<open>8 * SIZE_BYTES\<close> bits and an object is its array \<open>bytes\<close>. Boost's
  functions on \<open>T\<close> (export and import of bits, stream insertion and extraction) and on the 100
  digit binary float \<open>bigfloat\<close> are the records \<open>mp_ops\<close> and \<open>bigfloat_ops\<close>: parameters of every
  definition that calls them. The locales \<open>multiprecision\<close> and \<open>bigfloat\<close> state what Boost
  documents of them, and both are interpreted on executable reference functions.
\<close>

section \<open>Hexadecimal digits\<close>

definition is_hex :: "char \<Rightarrow> bool" where
  "is_hex c = (let n = of_char c :: nat in
     (48 \<le> n \<and> n \<le> 57) \<or> (65 \<le> n \<and> n \<le> 70) \<or> (97 \<le> n \<and> n \<le> 102))"

definition hex_digit :: "char \<Rightarrow> nat" where
  "hex_digit c = (let n = of_char c :: nat in
     if n \<le> 57 then n - 48 else if n \<le> 70 then n - 55 else n - 87)"

definition hex_char :: "nat \<Rightarrow> char" where
  "hex_char d = (if d < 10 then char_of (48 + d) else char_of (55 + d))"

definition hex_value :: "string \<Rightarrow> nat" where
  "hex_value s = digits_value 16 (map hex_digit (rev s))"

fun hex_string :: "nat \<Rightarrow> string" where
  "hex_string n = (if n < 16 then [hex_char n] else hex_string (n div 16) @ [hex_char (n mod 16)])"

declare hex_string.simps [simp del]

lemma hex_digit_less: "is_hex c \<Longrightarrow> hex_digit c < 16"
  by (auto simp: is_hex_def hex_digit_def Let_def)

lemma of_char_char_of: "n < 256 \<Longrightarrow> of_char (char_of n) = (n :: nat)"
  by simp

lemma hex_char_digit [simp]: "d < 16 \<Longrightarrow> hex_digit (hex_char d) = d"
  by (auto simp: hex_digit_def hex_char_def Let_def)

lemma hex_char_0 [simp]: "hex_char 0 = CHR ''0''"
  unfolding hex_char_def by code_simp

lemma is_hex_hex_char [simp]: "d < 16 \<Longrightarrow> is_hex (hex_char d)"
  by (auto simp: is_hex_def hex_char_def Let_def)

lemma is_hex_0 [simp]: "is_hex CHR ''0''"
  by (simp add: is_hex_def)

lemma hex_string_hex: "c \<in> set (hex_string n) \<Longrightarrow> is_hex c"
proof (induction n rule: hex_string.induct)
  case (1 n)
  then show ?case by (subst (asm) (2) hex_string.simps) (auto split: if_splits)
qed

lemma hex_string_not_Nil [simp]: "hex_string n \<noteq> []"
  by (subst hex_string.simps) auto

lemma hex_value_hex_string [simp]: "hex_value (hex_string n) = n"
proof (induction n rule: hex_string.induct)
  case (1 n)
  then show ?case
    by (subst hex_string.simps) (auto simp: hex_value_def)
qed

lemma length_hex_string: "n < 16 ^ k \<Longrightarrow> 0 < k \<Longrightarrow> length (hex_string n) \<le> k"
proof (induction n arbitrary: k rule: hex_string.induct)
  case (1 n)
  show ?case
  proof (cases "n < 16")
    case True
    then show ?thesis using "1.prems" by (subst hex_string.simps) auto
  next
    case False
    obtain j where k: "k = Suc j" using "1.prems" by (cases k) auto
    have "0 < j" using "1.prems" False k by (cases j) auto
    have "n div 16 < 16 ^ j" using "1.prems"(1) k by (simp add: less_mult_imp_div_less mult.commute)
    then have "length (hex_string (n div 16)) \<le> j" using "1.IH" False \<open>0 < j\<close> by blast
    then show ?thesis using False k by (subst hex_string.simps) auto
  qed
qed

lemma hex_value_replicate_0 [simp]: "hex_value (replicate k CHR ''0'' @ s) = hex_value s"
proof -
  have "hex_digit CHR ''0'' = 0" by (simp add: hex_digit_def)
  then show ?thesis by (simp add: hex_value_def)
qed

lemma hex_value_less: "\<forall>c \<in> set s. is_hex c \<Longrightarrow> hex_value s < 16 ^ length s"
  using digits_value_less [of 16 "map hex_digit (rev s)"] by (auto simp: hex_value_def hex_digit_less)

section \<open>Boost's multiprecision integers, as parameters\<close>

text \<open>
  \<open>mp_export_bits v chunk msv_first\<close> is the sequence of chunks that \<open>export_bits\<close> writes to its
  output iterator; \<open>mp_import_bits\<close> is \<open>import_bits\<close> with its default arguments;
  \<open>mp_insert hex uppercase width fill v\<close> is the text that \<open>stream << v\<close> appends under these
  flags (without \<open>showbase\<close>); \<open>mp_extract_hex s\<close> is what \<open>stream >> number\<close> does on a stream
  with contents \<open>s\<close> and \<open>std::hex\<close> set: it throws, or yields the value that \<open>number\<close> has
  afterwards and whether the stream is then at end of file.
\<close>

record (overloaded) ('w::len) mp_ops =
  mp_export_bits :: "'w word \<Rightarrow> nat \<Rightarrow> bool \<Rightarrow> u8 list"
  mp_import_bits :: "u8 list \<Rightarrow> 'w word"
  mp_insert :: "bool \<Rightarrow> bool \<Rightarrow> nat \<Rightarrow> char \<Rightarrow> 'w word \<Rightarrow> string"
  mp_extract_hex :: "string \<Rightarrow> ('w word \<times> bool) result"

section \<open>The class bigint\<close>

text \<open>Writing through \<open>bytes.rbegin ()\<close>: the first value goes to the last element.\<close>

definition write_rbegin :: "u8 list \<Rightarrow> u8 list \<Rightarrow> u8 list" where
  "write_rbegin bs cs = rev (take (length bs) cs @ drop (length cs) (rev bs))"

definition bi_set :: "('w::len) mp_ops \<Rightarrow> 'w word \<Rightarrow> u8 list" where
  "bi_set M number_a =
     (let bytes = replicate (LENGTH('w) div 8) 0
      in write_rbegin bytes (mp_export_bits M number_a 8 False))"

definition bi_number :: "('w::len) mp_ops \<Rightarrow> u8 list \<Rightarrow> 'w word" where
  "bi_number M bytes = mp_import_bits M bytes"

definition bi_to_dec :: "('w::len) mp_ops \<Rightarrow> u8 list \<Rightarrow> string" where
  "bi_to_dec M bytes = mp_insert M False False 0 CHR '' '' (bi_number M bytes)"

definition bi_to_hex :: "('w::len) mp_ops \<Rightarrow> u8 list \<Rightarrow> string" where
  "bi_to_hex M bytes =
     mp_insert M True True (LENGTH('w) div 8 * 2) CHR ''0'' (bi_number M bytes)"

text \<open>
  \<open>from_hex\<close> assigns to the object: the result is the object's bytes afterwards and the
  exception, if one is thrown. The bytes are written before the end of file is tested.
\<close>

definition bi_from_hex :: "('w::len) mp_ops \<Rightarrow> u8 list \<Rightarrow> string \<Rightarrow> u8 list \<times> string option" where
  "bi_from_hex M bytes text =
     (if text \<noteq> [] \<and> length text \<le> LENGTH('w) div 8 * 2 then
        (case mp_extract_hex M text of
           Inl what \<Rightarrow> (bytes, Some what)
         | Inr (number, eof) \<Rightarrow>
             (bi_set M number,
              if \<not> eof then Some ''from_hex failed: invalid input format'' else None))
      else (bytes, Some ''from_hex failed: invalid input size''))"

text \<open>
  The constructor from a string runs \<open>from_hex\<close> on an object with indeterminate bytes; when it
  throws there is no object.
\<close>

definition bi_of_string :: "('w::len) mp_ops \<Rightarrow> string \<Rightarrow> u8 list result" where
  "bi_of_string M val =
     (case bi_from_hex M (replicate (LENGTH('w) div 8) 0) val of
        (b, None) \<Rightarrow> Inr b
      | (b, Some what) \<Rightarrow> Inl what)"

text \<open>The number that an array of bytes denotes, most significant byte first.\<close>

definition be_value :: "u8 list \<Rightarrow> nat" where
  "be_value bs = digits_value 256 (map unat (rev bs))"

lemma be_value_less: "be_value bs < 256 ^ length bs"
  using digits_value_less [of 256 "map unat (rev bs)"] unat_map_less [of "rev bs"]
  by (simp add: be_value_def del: unat_map_less)

lemma be_value_inject: "length xs = length ys \<Longrightarrow> be_value xs = be_value ys \<Longrightarrow> xs = ys"
proof -
  assume len: "length xs = length ys" and val: "be_value xs = be_value ys"
  have "map unat (rev xs) = map unat (rev ys)"
    by (rule digits_value_inject [of 256])
      (use len val unat_map_less [of "rev xs"] unat_map_less [of "rev ys"] in
        \<open>simp_all add: be_value_def del: unat_map_less\<close>)
  moreover have "inj (unat :: u8 \<Rightarrow> nat)"
    by (rule injI) (rule unsigned_word_eqI)
  ultimately show ?thesis by (simp add: inj_map_eq_map)
qed

section \<open>The contract of the multiprecision library\<close>

text \<open>
  What Boost documents, for a type of whole bytes: \<open>export_bits\<close> with 8 bit chunks and
  \<open>msv_first = false\<close> writes the base 256 digits, least significant first, and no more of them than
  the type has bytes; \<open>import_bits\<close> reads them most significant first; insertion under
  \<open>hex\<close>, \<open>uppercase\<close>, a width and the fill character \<open>0\<close> prints the padded hexadecimal number;
  extraction under \<open>hex\<close> reads a hexadecimal number with or without the prefix \<open>0x\<close>, reaches the end
  of a stream that holds nothing else, and stops before a character that cannot continue it.
\<close>

locale multiprecision =
  fixes M :: "('w::len) mp_ops"
  assumes whole_bytes: "8 dvd LENGTH('w)"
    and export_length: "length (mp_export_bits M v 8 False) \<le> LENGTH('w) div 8"
    and export_value: "digits_value 256 (map unat (mp_export_bits M v 8 False)) = unat v"
    and import_value: "length bs = LENGTH('w) div 8 \<Longrightarrow> mp_import_bits M bs = of_nat (be_value bs)"
    and insert_hex: "mp_insert M True True width CHR ''0'' v =
      replicate (width - length (hex_string (unat v))) CHR ''0'' @ hex_string (unat v)"
    and extract_hex: "s \<noteq> [] \<Longrightarrow> \<forall>c \<in> set s. is_hex c \<Longrightarrow> length s \<le> LENGTH('w) div 8 * 2 \<Longrightarrow>
      mp_extract_hex M s = Inr (of_nat (hex_value s), True)"
    and extract_prefixed: "s \<noteq> [] \<Longrightarrow> \<forall>c \<in> set s. is_hex c \<Longrightarrow> length s \<le> LENGTH('w) div 8 * 2 \<Longrightarrow>
      mp_extract_hex M (''0x'' @ s) = Inr (of_nat (hex_value s), True)"
    and extract_stops: "s \<noteq> [] \<Longrightarrow> \<forall>c \<in> set s. is_hex c \<Longrightarrow> length s \<le> LENGTH('w) div 8 * 2 \<Longrightarrow>
      \<not> is_hex c \<Longrightarrow> c \<notin> set ''xX+-'' \<Longrightarrow>
      mp_extract_hex M (s @ c # t) = Inr (of_nat (hex_value s), False)"
begin

lemma length_set [simp]: "length (bi_set M v) = LENGTH('w) div 8"
  using export_length [of v] by (simp add: bi_set_def write_rbegin_def Let_def)

lemma be_value_set: "be_value (bi_set M v) = unat v"
  using export_length [of v] export_value [of v]
  by (simp add: be_value_def bi_set_def write_rbegin_def Let_def)

lemma number_set [simp]: "bi_number M (bi_set M v) = v"
  by (simp add: bi_number_def import_value be_value_set)

lemma be_value_bound: "length bs = LENGTH('w) div 8 \<Longrightarrow> be_value bs < 2 ^ LENGTH('w)"
proof -
  assume len: "length bs = LENGTH('w) div 8"
  have "(256 :: nat) ^ (LENGTH('w) div 8) = 2 ^ (8 * (LENGTH('w) div 8))"
    by (simp add: power_mult)
  then show ?thesis using be_value_less [of bs] len whole_bytes by simp
qed

lemma unat_number: "length bs = LENGTH('w) div 8 \<Longrightarrow> unat (bi_number M bs) = be_value bs"
  by (simp add: bi_number_def import_value unat_of_nat be_value_bound)

lemma set_number [simp]: "length bs = LENGTH('w) div 8 \<Longrightarrow> bi_set M (bi_number M bs) = bs"
  by (rule be_value_inject) (simp_all add: be_value_set unat_number)

lemma number_inject:
  "length xs = LENGTH('w) div 8 \<Longrightarrow> length ys = LENGTH('w) div 8 \<Longrightarrow>
   bi_number M xs = bi_number M ys \<longleftrightarrow> xs = ys"
  using set_number by metis

lemma size_pos: "0 < LENGTH('w) div 8"
  by (metis whole_bytes dvd_div_eq_0_iff len_not_eq_0 gr0I)

lemma hex_string_bound: "length (hex_string (unat (v :: 'w word))) \<le> LENGTH('w) div 8 * 2"
proof (rule length_hex_string)
  have "(16 :: nat) ^ (LENGTH('w) div 8 * 2) = (16 ^ 2) ^ (LENGTH('w) div 8)"
    by (simp only: power_mult [symmetric] mult.commute)
  also have "\<dots> = 2 ^ (8 * (LENGTH('w) div 8))" by (simp add: power_mult)
  also have "\<dots> = 2 ^ LENGTH('w)" using whole_bytes by simp
  finally show "unat v < 16 ^ (LENGTH('w) div 8 * 2)" by simp
  show "0 < LENGTH('w) div 8 * 2" using size_pos by simp
qed

lemma to_hex_eq: "bi_to_hex M bs =
   replicate (LENGTH('w) div 8 * 2 - length (hex_string (unat (bi_number M bs)))) CHR ''0''
     @ hex_string (unat (bi_number M bs))"
  by (simp add: bi_to_hex_def insert_hex)

lemma length_to_hex [simp]: "length (bi_to_hex M bs) = LENGTH('w) div 8 * 2"
  using hex_string_bound [of "bi_number M bs"] by (simp add: to_hex_eq)

lemma to_hex_is_hex: "c \<in> set (bi_to_hex M bs) \<Longrightarrow> is_hex c"
  by (auto simp: to_hex_eq dest: hex_string_hex split: if_splits)

lemma hex_value_to_hex [simp]: "hex_value (bi_to_hex M bs) = unat (bi_number M bs)"
  by (simp add: to_hex_eq)

lemma from_hex_digits:
  assumes "s \<noteq> []" and "\<forall>c \<in> set s. is_hex c" and "length s \<le> LENGTH('w) div 8 * 2"
  shows "bi_from_hex M b s = (bi_set M (of_nat (hex_value s)), None)"
  using assms by (simp add: bi_from_hex_def extract_hex)

lemma to_hex_not_Nil: "bi_to_hex M bs \<noteq> []"
  using length_to_hex [of bs] size_pos by (metis list.size(3) mult_eq_0_iff less_not_refl zero_neq_numeral)

lemma from_hex_to_hex:
  "length bs = LENGTH('w) div 8 \<Longrightarrow> bi_from_hex M b (bi_to_hex M bs) = (bs, None)"
  using from_hex_digits [of "bi_to_hex M bs" b] to_hex_is_hex to_hex_not_Nil by simp

lemma of_string_length: "bi_of_string M s = Inr b \<Longrightarrow> length b = LENGTH('w) div 8"
  by (auto simp: bi_of_string_def bi_from_hex_def split: prod.splits option.splits sum.splits if_splits)

end

section \<open>Reference functions that meet the contract\<close>

fun le_digits :: "nat \<Rightarrow> nat \<Rightarrow> nat list" where
  "le_digits b n = (if b < 2 \<or> n = 0 then [] else n mod b # le_digits b (n div b))"

declare le_digits.simps [simp del]

lemma le_digits_value: "2 \<le> b \<Longrightarrow> digits_value b (le_digits b n) = n"
  by (induction b n rule: le_digits.induct) (subst le_digits.simps, auto)

lemma le_digits_less: "2 \<le> b \<Longrightarrow> d \<in> set (le_digits b n) \<Longrightarrow> d < b"
proof (induction b n rule: le_digits.induct)
  case (1 b n)
  then show ?case by (auto simp: le_digits.simps [of b n] split: if_splits)
qed

lemma length_le_digits: "2 \<le> b \<Longrightarrow> n < b ^ k \<Longrightarrow> length (le_digits b n) \<le> k"
proof (induction b n arbitrary: k rule: le_digits.induct)
  case (1 b n)
  show ?case
  proof (cases "n = 0")
    case True
    then show ?thesis by (subst le_digits.simps) simp
  next
    case False
    then obtain j where k: "k = Suc j" using "1.prems" by (cases k) auto
    have "n div b < b ^ j" using "1.prems" k by (simp add: less_mult_imp_div_less mult.commute)
    then have "length (le_digits b (n div b)) \<le> j" using "1.IH" "1.prems" False by auto
    then show ?thesis using False k by (subst le_digits.simps) auto
  qed
qed

definition ref_export :: "('w::len) word \<Rightarrow> nat \<Rightarrow> bool \<Rightarrow> u8 list" where
  "ref_export v chunk msv_first =
     (let ds = map of_nat (le_digits (2 ^ chunk) (unat v)) in if msv_first then rev ds else ds)"

definition ref_import :: "u8 list \<Rightarrow> ('w::len) word" where
  "ref_import bs = of_nat (be_value bs)"

definition dec_string :: "nat \<Rightarrow> string" where
  "dec_string n = (if n = 0 then ''0'' else map hex_char (rev (le_digits 10 n)))"

definition lower_hex :: "char \<Rightarrow> char" where
  "lower_hex c = (if hex_digit c < 10 then c else char_of (87 + hex_digit c))"

definition ref_insert :: "bool \<Rightarrow> bool \<Rightarrow> nat \<Rightarrow> char \<Rightarrow> ('w::len) word \<Rightarrow> string" where
  "ref_insert hex upper width fill v =
     (let s = (if \<not> hex then dec_string (unat v)
               else if upper then hex_string (unat v) else map lower_hex (hex_string (unat v)))
      in replicate (width - length s) fill @ s)"

definition ref_extract :: "string \<Rightarrow> (('w::len) word \<times> bool) result" where
  "ref_extract s =
     (let permitted = (\<lambda>c. is_hex c \<or> c \<in> set ''xX+-'');
          xs = takeWhile permitted s;
          eof = (dropWhile permitted s = []);
          ys = (if take 2 xs \<in> {''0x'', ''0X''} then drop 2 xs else xs)
      in if xs = [] then Inr (0, eof)
         else if ys \<noteq> [] \<and> list_all is_hex ys then Inr (of_nat (hex_value ys), eof)
         else Inl ''Unexpected content found while parsing character string.'')"

definition ref_mp :: "('w::len) mp_ops" where
  "ref_mp = \<lparr>mp_export_bits = ref_export, mp_import_bits = ref_import,
             mp_insert = ref_insert, mp_extract_hex = ref_extract\<rparr>"

lemma ref_export_value:
  "digits_value 256 (map unat (ref_export (v :: 'w::len word) 8 False)) = unat v"
proof -
  have "map unat (map of_nat (le_digits 256 (unat v)) :: u8 list) = le_digits 256 (unat v)"
    using le_digits_less [of 256 _ "unat v"]
    by (auto simp: unat_of_nat intro!: map_idI)
  then show ?thesis by (simp add: ref_export_def le_digits_value del: map_map)
qed

lemma ref_export_length:
  assumes "8 dvd LENGTH('w::len)"
  shows "length (ref_export (v :: 'w word) 8 False) \<le> LENGTH('w) div 8"
proof -
  have "(256 :: nat) ^ (LENGTH('w) div 8) = 2 ^ (8 * (LENGTH('w) div 8))"
    by (simp add: power_mult)
  then have "unat v < 256 ^ (LENGTH('w) div 8)" using assms by simp
  then show ?thesis by (simp add: ref_export_def length_le_digits)
qed

lemma not_is_hex_x: "\<not> is_hex CHR ''x''" "\<not> is_hex CHR ''X''"
  by (simp_all add: is_hex_def)

lemma hex_no_prefix:
  assumes "\<forall>c \<in> set s. is_hex c" shows "take 2 s \<notin> {''0x'', ''0X''}"
proof
  assume "take 2 s \<in> {''0x'', ''0X''}"
  then have "CHR ''x'' \<in> set (take 2 s) \<or> CHR ''X'' \<in> set (take 2 s)" by auto
  then show False using assms not_is_hex_x by (metis in_set_takeD)
qed

lemma takeWhile_hex_stop:
  assumes "\<forall>c \<in> set s. P c" and "\<not> P c"
  shows "takeWhile P (s @ c # t) = s" and "dropWhile P (s @ c # t) = c # t"
  using assms by (induction s) auto

lemma ref_extract_hex:
  assumes "s \<noteq> []" and "\<forall>c \<in> set s. is_hex c"
  shows "ref_extract s = Inr (of_nat (hex_value s), True)"
    and "ref_extract (''0x'' @ s) = Inr (of_nat (hex_value s), True)"
    and "\<not> is_hex c \<Longrightarrow> c \<notin> set ''xX+-'' \<Longrightarrow>
      ref_extract (s @ c # t) = Inr (of_nat (hex_value s), False)"
  using assms hex_no_prefix [OF assms(2)]
  by (auto simp: ref_extract_def Let_def takeWhile_hex_stop takeWhile_eq_all_conv [THEN iffD2]
      dropWhile_eq_Nil_conv list_all_iff)

lemma ref_multiprecision:
  assumes "8 dvd LENGTH('w::len)" shows "multiprecision (ref_mp :: 'w mp_ops)"
  by unfold_locales
    (use assms in \<open>simp_all add: ref_mp_def ref_export_value ref_export_length ref_import_def
       ref_insert_def Let_def ref_extract_hex del: append_Cons append.append_Cons\<close>)

abbreviation ref128 :: "128 mp_ops" where
  "ref128 \<equiv> ref_mp"

abbreviation ref256 :: "256 mp_ops" where
  "ref256 \<equiv> ref_mp"

interpretation u128: multiprecision ref128
  by (rule ref_multiprecision) simp

interpretation u256: multiprecision ref256
  by (rule ref_multiprecision) simp

section \<open>Properties\<close>

text \<open>Upper case of a hexadecimal digit.\<close>

definition upper_hex :: "char \<Rightarrow> char" where
  "upper_hex c = hex_char (hex_digit c)"

lemma hex_digit_inject:
  "is_hex c \<Longrightarrow> is_hex d \<Longrightarrow> hex_digit c = hex_digit d \<Longrightarrow> upper_hex c = upper_hex d"
  by (simp add: upper_hex_def)

lemma hex_string_upper: "map upper_hex (hex_string n) = hex_string n"
proof (induction n rule: hex_string.induct)
  case (1 n)
  then show ?case
    by (cases "n < 16") (simp_all add: hex_string.simps [of n] upper_hex_def)
qed

lemma hex_value_unique:
  assumes "length s = length t" and "\<forall>c \<in> set s. is_hex c" and "\<forall>c \<in> set t. is_hex c"
    and "hex_value s = hex_value t"
  shows "map upper_hex s = map upper_hex t"
proof -
  have "map hex_digit (rev s) = map hex_digit (rev t)"
    by (rule digits_value_inject [of 16]) (use assms in \<open>auto simp: hex_value_def hex_digit_less\<close>)
  then have "map hex_digit s = map hex_digit t" by (simp add: rev_map [symmetric])
  then have "map hex_char (map hex_digit s) = map hex_char (map hex_digit t)" by simp
  then show ?thesis by (simp add: upper_hex_def [abs_def] comp_def)
qed

lemma upper_hex_0 [simp]: "upper_hex CHR ''0'' = CHR ''0''"
  unfolding upper_hex_def hex_digit_def hex_char_def by code_simp

context multiprecision
begin

lemma upper_to_hex: "map upper_hex (bi_to_hex M bs) = bi_to_hex M bs"
  by (simp add: to_hex_eq hex_string_upper)

lemma to_hex_set:
  assumes "\<forall>c \<in> set s. is_hex c" and "length s \<le> LENGTH('w) div 8 * 2"
  shows "bi_to_hex M (bi_set M (of_nat (hex_value s))) =
    replicate (LENGTH('w) div 8 * 2 - length s) CHR ''0'' @ map upper_hex s"
proof -
  let ?p = "replicate (LENGTH('w) div 8 * 2 - length s) CHR ''0'' @ s"
  have "hex_value s < 16 ^ (LENGTH('w) div 8 * 2)"
    using hex_value_less [OF assms(1)] assms(2)
    by (meson le_less_trans less_le_trans one_le_numeral power_increasing)
  also have "(16 :: nat) ^ (LENGTH('w) div 8 * 2) = (16 ^ 2) ^ (LENGTH('w) div 8)"
    by (simp only: power_mult [symmetric] mult.commute)
  also have "\<dots> = 2 ^ (8 * (LENGTH('w) div 8))" by (simp add: power_mult)
  also have "\<dots> = 2 ^ LENGTH('w)" using whole_bytes by simp
  finally have "unat (of_nat (hex_value s) :: 'w word) = hex_value s"
    by (simp add: unat_of_nat)
  then have "map upper_hex (bi_to_hex M (bi_set M (of_nat (hex_value s)))) = map upper_hex ?p"
    by (intro hex_value_unique) (use assms to_hex_is_hex in auto)
  then show ?thesis by (simp add: upper_to_hex)
qed

end

text \<open>
  C35: printing and parsing are inverse on every object, and the two views of an object, its bytes
  and its number, determine each other.
\<close>

theorem bigint_roundtrip:
  assumes "multiprecision (M :: 'w::len mp_ops)" and "length b = LENGTH('w) div 8"
  shows "bi_from_hex M b0 (bi_to_hex M b) = (b, None) \<and> bi_set M (bi_number M b) = b
    \<and> bi_number M (bi_set M v) = v"
  using assms by (simp add: multiprecision.from_hex_to_hex multiprecision.set_number
      multiprecision.number_set)

theorem bigint_roundtrip_witness:
  "bi_from_hex ref128 [] (bi_to_hex ref128 (replicate 16 7)) = (replicate 16 7, None)"
  using bigint_roundtrip [OF u128.multiprecision_axioms, of "replicate 16 7" "[]" 0] by simp

text \<open>
  Parsing accepts every hexadecimal text that fits, with or without leading zeros and in
  either case, and printing gives its canonical form: upper case, padded with zeros to two digits
  a byte.
\<close>

theorem from_hex_canonical:
  assumes "multiprecision (M :: 'w::len mp_ops)" and "s \<noteq> []" and "\<forall>c \<in> set s. is_hex c"
    and "length s \<le> LENGTH('w) div 8 * 2" and "bi_from_hex M b0 s = (b, e)"
  shows "e = None \<and> bi_to_hex M b =
    replicate (LENGTH('w) div 8 * 2 - length s) CHR ''0'' @ map upper_hex s"
  using assms multiprecision.from_hex_digits [OF assms(1-4), of b0]
    multiprecision.to_hex_set [OF assms(1,3,4)] by simp

theorem from_hex_canonical_witness:
  "bi_to_hex ref128 (fst (bi_from_hex ref128 [] ''2fFc'')) = replicate 28 CHR ''0'' @ ''2FFC''"
proof -
  have hex: "\<forall>c \<in> set ''2fFc''. is_hex c" by (simp add: is_hex_def)
  have upper: "map upper_hex ''2fFc'' = ''2FFC''"
    by code_simp
  show ?thesis
    using from_hex_canonical [OF u128.multiprecision_axioms _ hex _ surjective_pairing, of "[]"] unfolding upper
    by simp
qed

text \<open>
  A text that a hexadecimal number starts but does not fill is rejected, and so is one that is
  empty or too long; but in the first case the object already holds the number read so far when
  the exception is thrown.
\<close>

theorem from_hex_rejects:
  assumes "multiprecision (M :: 'w::len mp_ops)" and "s \<noteq> []" and "\<forall>c \<in> set s. is_hex c"
    and "\<not> is_hex c" and "c \<notin> set ''xX+-''" and "length (s @ c # t) \<le> LENGTH('w) div 8 * 2"
  shows "bi_from_hex M b (s @ c # t) =
      (bi_set M (of_nat (hex_value s)), Some ''from_hex failed: invalid input format'')
    \<and> bi_from_hex M b [] = (b, Some ''from_hex failed: invalid input size'')
    \<and> bi_from_hex M b (replicate (LENGTH('w) div 8 * 2) CHR ''0'' @ s) =
        (b, Some ''from_hex failed: invalid input size'')"
  using assms multiprecision.extract_stops [OF assms(1-3) _ assms(4,5), of t]
  by (auto simp: bi_from_hex_def)

theorem from_hex_rejects_witness:
  "bi_from_hex ref128 [] ''1g2'' =
     (bi_set ref128 1, Some ''from_hex failed: invalid input format'')"
proof -
  have "\<forall>c \<in> set ''1''. is_hex c" and "\<not> is_hex CHR ''g''" and "hex_value ''1'' = 1"
    by (simp_all add: is_hex_def hex_value_def hex_digit_def)
  then show ?thesis
    using from_hex_rejects [OF u128.multiprecision_axioms, of "''1''" "CHR ''g''" "''2''" "[]"] by simp
qed

end
