(* ===== verification/Multiplier.thy ===== *)
theory Multiplier
  imports Bigint Complex_Main
begin

text \<open>
  \<open>src/workserver/util.hpp\<close>, lines 89 to 100: \<open>to_multiplier\<close> and \<open>from_multiplier\<close>, the
  conversions between a difficulty and the factor by which it exceeds the base difficulty.

  A C++ \<open>double\<close> is a rational number, an infinity or not a number; which rationals are doubles is
  the predicate \<open>is_double\<close>. Boost's \<open>cpp_bin_float_100\<close> is an abstract type with the operations of
  the record \<open>bigfloat_ops\<close>, and the locale \<open>bigfloat\<close> states its documented precision: a result
  that fits its 100 decimal digits is exact.
\<close>

datatype double = Fin rat | PInf | MInf | NaN

text \<open>The comparison \<open>x > y\<close> of the language: false as soon as an operand is not a number.\<close>

fun double_gt :: "double \<Rightarrow> double \<Rightarrow> bool" where
  "double_gt NaN _ = False"
| "double_gt _ NaN = False"
| "double_gt (Fin a) (Fin b) = (b < a)"
| "double_gt PInf y = (y \<noteq> PInf)"
| "double_gt MInf y = False"
| "double_gt (Fin a) PInf = False"
| "double_gt (Fin a) MInf = True"

definition is_double :: "rat \<Rightarrow> bool" where
  "is_double r \<longleftrightarrow> (\<exists>m :: int. \<exists>k :: nat. \<bar>m\<bar> < 2 ^ 53 \<and>
     (k \<le> 971 \<and> r = of_int m * 2 ^ k \<or> k \<le> 1074 \<and> r = of_int m / 2 ^ k))"

definition is_bigfloat :: "rat \<Rightarrow> bool" where
  "is_bigfloat r \<longleftrightarrow> (\<exists>m :: int. \<exists>k :: nat. \<bar>m\<bar> < 2 ^ 332 \<and> k \<le> 2 ^ 20 \<and>
     (r = of_int m * 2 ^ k \<or> r = of_int m / 2 ^ k))"

record 'f bigfloat_ops =
  bf_of_u128 :: "128 word \<Rightarrow> 'f"
  bf_of_double :: "double \<Rightarrow> 'f"
  bf_mul :: "'f \<Rightarrow> 'f \<Rightarrow> 'f"
  bf_div :: "'f \<Rightarrow> 'f \<Rightarrow> 'f"
  bf_to_double :: "'f \<Rightarrow> double"
  bf_to_u128 :: "'f \<Rightarrow> 128 word"

text \<open>
  The build type defaults to \<open>Release\<close> (\<open>CMakeLists.txt\<close>), which compiles the \<open>assert\<close> of
  \<open>to_multiplier\<close> out; \<open>to_multiplier_pre\<close> is its condition.
\<close>

definition to_multiplier_pre :: "128 mp_ops \<Rightarrow> u8 list \<Rightarrow> bool" where
  "to_multiplier_pre M difficulty_a \<longleftrightarrow> 0 < bi_number M difficulty_a"

definition to_multiplier :: "128 mp_ops \<Rightarrow> 'f bigfloat_ops \<Rightarrow> u8 list \<Rightarrow> u8 list \<Rightarrow> double" where
  "to_multiplier M F difficulty_a base_difficulty_a =
     (let res = bf_div F (bf_of_u128 F (bi_number M difficulty_a))
                         (bf_of_u128 F (bi_number M base_difficulty_a))
      in bf_to_double F res)"

definition from_multiplier :: "128 mp_ops \<Rightarrow> 'f bigfloat_ops \<Rightarrow> double \<Rightarrow> u8 list \<Rightarrow> u8 list" where
  "from_multiplier M F multiplier_a base_difficulty_a =
     (let res = bf_mul F (bf_of_u128 F (bi_number M base_difficulty_a)) (bf_of_double F multiplier_a)
      in bi_set M (bf_to_u128 F res))"

section \<open>The contract of the binary float\<close>

text \<open>\<open>val x = Some r\<close> when \<open>x\<close> is finite and denotes \<open>r\<close>.\<close>

locale bigfloat =
  fixes F :: "'f bigfloat_ops" and val :: "'f \<Rightarrow> rat option"
  assumes of_u128: "val (bf_of_u128 F a) = Some (of_nat (unat a))"
    and of_double: "is_double r \<Longrightarrow> val (bf_of_double F (Fin r)) = Some r"
    and mul_exact: "val x = Some p \<Longrightarrow> val y = Some q \<Longrightarrow> is_bigfloat (p * q) \<Longrightarrow>
      val (bf_mul F x y) = Some (p * q)"
    and div_exact: "val x = Some p \<Longrightarrow> val y = Some q \<Longrightarrow> q \<noteq> 0 \<Longrightarrow> is_bigfloat (p / q) \<Longrightarrow>
      val (bf_div F x y) = Some (p / q)"
    and to_double: "val x = Some r \<Longrightarrow> is_double r \<Longrightarrow> bf_to_double F x = Fin r"
    and to_u128: "val x = Some r \<Longrightarrow> 0 \<le> r \<Longrightarrow> r < 2 ^ 128 \<Longrightarrow>
      bf_to_u128 F x = of_nat (nat \<lfloor>r\<rfloor>)"

lemma is_doubleE:
  assumes "is_double r"
  obtains m :: int and k :: nat where "\<bar>m\<bar> < 2 ^ 53" and "k \<le> 1074"
    and "r = of_int m * 2 ^ k \<or> r = of_int m / 2 ^ k"
proof -
  from assms obtain m :: int and k :: nat where m: "\<bar>m\<bar> < 2 ^ 53"
    and r: "k \<le> 971 \<and> r = of_int m * 2 ^ k \<or> k \<le> 1074 \<and> r = of_int m / 2 ^ k"
    unfolding is_double_def by blast
  then have "k \<le> 1074" by linarith
  with m r that show thesis by blast
qed

lemma is_double_bigfloat: "is_double r \<Longrightarrow> is_bigfloat r"
proof -
  assume "is_double r"
  then obtain m :: int and k :: nat where m: "\<bar>m\<bar> < 2 ^ 53" and k: "k \<le> 1074"
    and r: "r = of_int m * 2 ^ k \<or> r = of_int m / 2 ^ k"
    by (rule is_doubleE)
  have "\<bar>m\<bar> < 2 ^ 332" using m by simp
  moreover have "k \<le> 2 ^ 20" using k by simp
  ultimately show ?thesis using r unfolding is_bigfloat_def by blast
qed

lemma is_bigfloat_mult:
  assumes "is_double r" shows "is_bigfloat (of_nat (unat (a :: 128 word)) * r)"
proof -
  from assms obtain m :: int and k :: nat where m: "\<bar>m\<bar> < 2 ^ 53" and k: "k \<le> 1074"
    and r: "r = of_int m * 2 ^ k \<or> r = of_int m / 2 ^ k"
    by (rule is_doubleE)
  have a: "int (unat a) < 2 ^ 128" using unsigned_less [of a, where 'a = int] by simp
  have "\<bar>int (unat a) * m\<bar> = int (unat a) * \<bar>m\<bar>" by (simp add: abs_mult)
  also have "\<dots> \<le> 2 ^ 128 * 2 ^ 53" using a m by (intro mult_mono) auto
  also have "\<dots> < 2 ^ 332" by simp
  finally have "\<bar>int (unat a) * m\<bar> < 2 ^ 332" .
  moreover have "k \<le> 2 ^ 20" using k by simp
  moreover have "of_nat (unat a) * r = of_int (int (unat a) * m) * 2 ^ k \<or>
      of_nat (unat a) * r = of_int (int (unat a) * m) / 2 ^ k"
    using r by auto
  ultimately show ?thesis unfolding is_bigfloat_def by blast
qed

context bigfloat
begin

lemma product_value:
  "is_double m \<Longrightarrow> 0 \<le> m \<Longrightarrow> of_nat (unat base) * m < 2 ^ 128 \<Longrightarrow>
   bf_to_u128 F (bf_mul F (bf_of_u128 F base) (bf_of_double F (Fin m)))
     = of_nat (nat \<lfloor>of_nat (unat base) * m\<rfloor>)"
  by (intro to_u128 mul_exact of_u128 of_double is_bigfloat_mult) (simp_all del: of_nat_unat)

lemma quotient_value:
  "is_double m \<Longrightarrow> base \<noteq> 0 \<Longrightarrow> of_nat (unat d) = of_nat (unat base) * m \<Longrightarrow>
   bf_to_double F (bf_div F (bf_of_u128 F d) (bf_of_u128 F base)) = Fin m"
proof -
  assume m: "is_double m" and base: "base \<noteq> 0" and d: "of_nat (unat d) = of_nat (unat base) * m"
  have ne: "(of_nat (unat base) :: rat) \<noteq> 0" using base by (simp add: unat_eq_0 del: of_nat_unat)
  then have q: "of_nat (unat d) / of_nat (unat base) = m" using d by simp
  have "val (bf_div F (bf_of_u128 F d) (bf_of_u128 F base)) = Some m"
    using div_exact [OF of_u128 of_u128 ne, of d] q is_double_bigfloat [OF m] by simp
  then show ?thesis using m by (rule to_double)
qed

end

section \<open>A reference float: exact rational arithmetic\<close>

fun ref_mul :: "double \<Rightarrow> double \<Rightarrow> double" where
  "ref_mul (Fin a) (Fin b) = Fin (a * b)"
| "ref_mul _ _ = NaN"

fun ref_div :: "double \<Rightarrow> double \<Rightarrow> double" where
  "ref_div (Fin a) (Fin b) =
     (if b \<noteq> 0 then Fin (a / b) else if a > 0 then PInf else if a < 0 then MInf else NaN)"
| "ref_div _ _ = NaN"

fun ref_to_u128 :: "double \<Rightarrow> 128 word" where
  "ref_to_u128 (Fin r) = of_nat (nat \<lfloor>r\<rfloor>)"
| "ref_to_u128 _ = 0"

definition ref_bf :: "double bigfloat_ops" where
  "ref_bf = \<lparr>bf_of_u128 = (\<lambda>a. Fin (of_nat (unat a))), bf_of_double = id, bf_mul = ref_mul,
             bf_div = ref_div, bf_to_double = id, bf_to_u128 = ref_to_u128\<rparr>"

fun ref_val :: "double \<Rightarrow> rat option" where
  "ref_val (Fin r) = Some r"
| "ref_val _ = None"

lemma ref_val_Some [simp]: "ref_val x = Some r \<longleftrightarrow> x = Fin r"
  by (cases x) auto

interpretation ref_bf: bigfloat ref_bf ref_val
  by unfold_locales (auto simp: ref_bf_def)

section \<open>Properties\<close>

lemma from_multiplier_value:
  assumes "multiprecision M" and "bigfloat F val" and "is_double m" and "0 \<le> m"
    and "of_nat (unat (bi_number M base)) * m < 2 ^ 128"
  shows "bi_number M (from_multiplier M F (Fin m) base)
    = of_nat (nat \<lfloor>of_nat (unat (bi_number M base)) * m\<rfloor>)"
  using assms bigfloat.product_value [OF assms(2-5)]
  by (simp add: from_multiplier_def multiprecision.number_set)

text \<open>
  A difficulty computed from a multiplier is the exact product with the base difficulty,
  rounded down, as long as it fits 128 bits: no precision is lost on the way.
\<close>

theorem from_multiplier_exact:
  assumes "multiprecision M" and "bigfloat F val" and "is_double m" and "0 \<le> m"
    and "of_nat (unat (bi_number M base)) * m < 2 ^ 128"
  shows "bi_number M (from_multiplier M F (Fin m) base)
    = of_nat (nat \<lfloor>of_nat (unat (bi_number M base)) * m\<rfloor>)"
  using assms by (rule from_multiplier_value)

theorem from_multiplier_exact_witness:
  "is_double (3 / 2) \<and>
   bi_number ref128 (from_multiplier ref128 ref_bf (Fin (3 / 2)) (bi_set ref128 1001)) = 1501"
proof -
  have d: "is_double (3 / 2)"
    unfolding is_double_def by (rule exI [of _ 3], rule exI [of _ 1]) simp
  have "\<lfloor>1001 * (3 / 2) :: rat\<rfloor> = 1501" by (simp add: floor_eq_iff)
  then show ?thesis
    using d from_multiplier_exact [OF u128.multiprecision_axioms ref_bf.bigfloat_axioms d, of "bi_set ref128 1001"]
    by simp
qed

text \<open>
  C36: a difficulty that is the base difficulty times a double is recovered exactly from its
  multiplier, and the multiplier is that double.
\<close>

theorem multiplier_roundtrip:
  assumes "multiprecision M" and "bigfloat F val" and "is_double m" and "0 \<le> m"
    and "length d = 16" and "bi_number M base \<noteq> 0"
    and "of_nat (unat (bi_number M d)) = of_nat (unat (bi_number M base)) * m"
  shows "to_multiplier M F d base = Fin m
    \<and> from_multiplier M F (to_multiplier M F d base) base = d"
proof -
  have to: "to_multiplier M F d base = Fin m"
    using bigfloat.quotient_value [OF assms(2,3,6,7)] by (simp add: to_multiplier_def)
  have less: "of_nat (unat (bi_number M base)) * m < 2 ^ 128"
    unfolding assms(7) [symmetric]
    using of_nat_less_iff [of "unat (bi_number M d)" "2 ^ 128", where 'a = rat]
      unsigned_less [of "bi_number M d", where 'a = nat] by simp
  have "\<lfloor>of_nat (unat (bi_number M base)) * m\<rfloor> = int (unat (bi_number M d))"
    using assms(7) by (metis floor_of_nat)
  then have "bi_number M (from_multiplier M F (Fin m) base) = bi_number M d"
    using from_multiplier_value [OF assms(1-4) less] by simp
  moreover have "length (from_multiplier M F (Fin m) base) = 16"
    using multiprecision.length_set [OF assms(1)] by (simp add: from_multiplier_def)
  ultimately show ?thesis using to assms(5) multiprecision.number_inject [OF assms(1)] by simp
qed

theorem multiplier_roundtrip_witness:
  "to_multiplier ref128 ref_bf (bi_set ref128 (2 ^ 80)) (bi_set ref128 (2 ^ 61)) = Fin (2 ^ 19)"
proof -
  have d: "is_double (2 ^ 19)"
    unfolding is_double_def by (rule exI [of _ 1], rule exI [of _ 19]) simp
  show ?thesis
    using multiplier_roundtrip [OF u128.multiprecision_axioms ref_bf.bigfloat_axioms d,
        of "bi_set ref128 (2 ^ 80)" "bi_set ref128 (2 ^ 61)"] by simp
qed

end
