(* ===== verification/Job.thy ===== *)
theory Job
  imports Multiplier
begin

text \<open>
  \<open>src/workserver/work_handler.hpp\<close>: the class \<open>job\<close> with its comparator, the contract of
  \<open>std::priority_queue\<close>, and the operations of \<open>work_handler\<close> on the queue of pending jobs
  (\<open>push_job\<close>, \<open>remove_job\<close>, \<open>pop_job\<close>).
\<close>

section \<open>Jobs\<close>

record job_request =
  req_root_hash :: "u8 list"
  req_difficulty :: "u8 list"
  req_multiplier :: double

record job_result =
  res_work :: "u8 list"
  res_difficulty :: "u8 list"
  res_multiplier :: double

text \<open>Time points count nanoseconds since the epoch.\<close>

record job =
  start_time :: int
  end_time :: int
  request :: job_request
  job_res :: job_result
  priority :: u32
  job_id :: u32

text \<open>
  The constructor: the member initialisers parse the hexadecimal text \<open>0\<close>, then the id is
  taken from the atomic counter \<open>job_id_dispenser\<close>, whose new value is returned beside the job.
\<close>

definition job_id_dispenser_init :: u32 where
  "job_id_dispenser_init = 1"

definition job_ctor :: "256 mp_ops \<Rightarrow> 128 mp_ops \<Rightarrow> u32 \<Rightarrow> (job \<times> u32) result" where
  "job_ctor M256 M128 job_id_dispenser =
     bind_result (bi_of_string M256 ''0'') (\<lambda>root_hash.
     bind_result (bi_of_string M128 ''0'') (\<lambda>difficulty.
     bind_result (bi_of_string M128 ''0'') (\<lambda>work.
     bind_result (bi_of_string M128 ''0'') (\<lambda>rdifficulty.
       Inr (\<lparr>start_time = 0, end_time = 0,
             request = \<lparr>req_root_hash = root_hash, req_difficulty = difficulty,
                        req_multiplier = Fin 1\<rparr>,
             job_res = \<lparr>res_work = work, res_difficulty = rdifficulty, res_multiplier = Fin 1\<rparr>,
             priority = 0, job_id = job_id_dispenser\<rparr>, job_id_dispenser + 1)))))"

definition job_start :: "int \<Rightarrow> job \<Rightarrow> job" where
  "job_start now j = j\<lparr>start_time := now\<rparr>"

definition job_stop :: "int \<Rightarrow> job \<Rightarrow> job" where
  "job_stop now j = j\<lparr>end_time := now\<rparr>"

text \<open>A \<open>duration_cast\<close> to a coarser unit truncates towards zero.\<close>

definition to_millis :: "int \<Rightarrow> int" where
  "to_millis t = sgn t * (\<bar>t\<bar> div 1000000)"

definition job_duration :: "job \<Rightarrow> int" where
  "job_duration j = to_millis (end_time j - start_time j)"

definition set_priority :: "u32 \<Rightarrow> job \<Rightarrow> job" where
  "set_priority priority_a j = j\<lparr>priority := priority_a\<rparr>"

definition comparator :: "job \<Rightarrow> job \<Rightarrow> bool" where
  "comparator job1 job2 =
     (if priority job1 \<noteq> priority job2 then priority job2 > priority job1
      else job_id job1 > job_id job2)"

lemma comparator_asym: "comparator a b \<Longrightarrow> \<not> comparator b a"
  by (auto simp: comparator_def split: if_splits)

lemma comparator_irrefl [simp]: "\<not> comparator a a"
  by (simp add: comparator_def)

lemma comparator_trans: "comparator a b \<Longrightarrow> comparator b c \<Longrightarrow> comparator a c"
  by (auto simp: comparator_def split: if_splits)

lemma comparator_negtrans: "\<not> comparator a b \<Longrightarrow> \<not> comparator b c \<Longrightarrow> \<not> comparator a c"
  by (auto simp: comparator_def split: if_splits)

lemma comparator_total: "job_id a \<noteq> job_id b \<Longrightarrow> comparator a b \<or> comparator b a"
  by (auto simp: comparator_def)

section \<open>The contract of a priority queue\<close>

text \<open>
  The loop \<open>while (!q.empty ()) { x = q.top (); q.pop (); }\<close>, as the list of the elements it meets.
  The number bounds the iterations; the size of the queue is enough.
\<close>

fun drain :: "('q \<Rightarrow> bool) \<Rightarrow> ('q \<Rightarrow> 'a) \<Rightarrow> ('q \<Rightarrow> 'q) \<Rightarrow> nat \<Rightarrow> 'q \<Rightarrow> 'a list" where
  "drain is_empty top_of pop 0 q = []"
| "drain is_empty top_of pop (Suc n) q =
     (if is_empty q then [] else top_of q # drain is_empty top_of pop n (pop q))"

text \<open>
  What the standard requires of \<open>std::priority_queue\<close> for a strict weak order \<open>lt\<close>: \<open>top\<close> is an
  element that no other one exceeds, and \<open>pop\<close> removes it.
\<close>

locale priority_queue =
  fixes lt :: "'a \<Rightarrow> 'a \<Rightarrow> bool"
    and empty :: 'q and is_empty :: "'q \<Rightarrow> bool" and push :: "'a \<Rightarrow> 'q \<Rightarrow> 'q"
    and top_of :: "'q \<Rightarrow> 'a" and pop :: "'q \<Rightarrow> 'q"
    and invar :: "'q \<Rightarrow> bool" and items :: "'q \<Rightarrow> 'a multiset"
  assumes lt_asym: "lt x y \<Longrightarrow> \<not> lt y x"
    and lt_negtrans: "\<not> lt x y \<Longrightarrow> \<not> lt y z \<Longrightarrow> \<not> lt x z"
    and invar_empty: "invar empty"
    and items_empty: "items empty = {#}"
    and is_empty_iff: "invar q \<Longrightarrow> is_empty q \<longleftrightarrow> items q = {#}"
    and invar_push: "invar q \<Longrightarrow> invar (push x q)"
    and items_push: "invar q \<Longrightarrow> items (push x q) = add_mset x (items q)"
    and top_in: "invar q \<Longrightarrow> items q \<noteq> {#} \<Longrightarrow> top_of q \<in># items q"
    and top_max: "invar q \<Longrightarrow> y \<in># items q \<Longrightarrow> \<not> lt (top_of q) y"
    and invar_pop: "invar q \<Longrightarrow> items q \<noteq> {#} \<Longrightarrow> invar (pop q)"
    and items_pop: "invar q \<Longrightarrow> items q \<noteq> {#} \<Longrightarrow> items (pop q) = items q - {#top_of q#}"
begin

lemma size_items_pop: "invar q \<Longrightarrow> items q \<noteq> {#} \<Longrightarrow> size (items (pop q)) < size (items q)"
  by (simp add: items_pop top_in size_Diff_singleton nonempty_has_size)

lemma mset_drain: "invar q \<Longrightarrow> size (items q) \<le> n \<Longrightarrow> mset (drain is_empty top_of pop n q) = items q"
proof (induction n arbitrary: q)
  case 0
  then show ?case by simp
next
  case (Suc n)
  show ?case
  proof (cases "items q = {#}")
    case True
    then show ?thesis using Suc.prems by (simp add: is_empty_iff)
  next
    case False
    then have "size (items (pop q)) \<le> n" using Suc.prems size_items_pop [of q] by simp
    then show ?thesis using Suc False
      by (simp add: is_empty_iff invar_pop items_pop top_in)
  qed
qed

lemma drain_ordered:
  "invar q \<Longrightarrow> size (items q) \<le> n \<Longrightarrow> ordered_by (\<lambda>x y. lt y x) (drain is_empty top_of pop n q)"
proof (induction n arbitrary: q)
  case 0
  then show ?case by simp
next
  case (Suc n)
  show ?case
  proof (cases "items q = {#}")
    case True
    then show ?thesis using Suc.prems by (simp add: is_empty_iff)
  next
    case False
    then have le: "size (items (pop q)) \<le> n" using Suc.prems size_items_pop [of q] by simp
    have "\<not> lt (top_of q) y" if "y \<in> set (drain is_empty top_of pop n (pop q))" for y
    proof -
      have "y \<in># items (pop q)"
        using that mset_drain [OF invar_pop le] Suc.prems False by (metis set_mset_mset)
      then show ?thesis using Suc.prems False
        by (intro top_max) (auto simp: items_pop dest: in_diffD)
    qed
    then show ?thesis using Suc False le by (simp add: is_empty_iff invar_pop)
  qed
qed

text \<open>
  Whatever the implementation, the elements leave in the same order when the order tells the
  elements apart.
\<close>

lemma drain_unique:
  assumes "invar q" and "mset xs = items q" and "ordered_by (\<lambda>x y. lt y x) xs"
    and "\<And>x y. x \<in> set xs \<Longrightarrow> y \<in> set xs \<Longrightarrow> x \<noteq> y \<Longrightarrow> lt x y \<or> lt y x"
  shows "drain is_empty top_of pop (size (items q)) q = xs"
  by (rule ordered_unique [of "\<lambda>x y. lt y x", symmetric])
    (use assms mset_drain [OF assms(1), of "size (items q)"]
       drain_ordered [OF assms(1), of "size (items q)"] in auto)

end

section \<open>The queue of pending jobs\<close>

text \<open>
  \<open>jobs\<close> is a \<open>std::priority_queue\<close> of jobs; the standard fixes which element \<open>top\<close> returns but not
  how the vector is arranged. The model is the list of the jobs in the order in which they leave. Of
  two jobs that the comparator does not tell apart the standard promises no order, and here the one
  pushed first leaves first: a choice of the model. Ids come from a counter, so such jobs exist only
  after it has wrapped; the properties about the order state distinct ids.
\<close>

type_synonym job_queue = "job list"

definition pq_empty :: "job_queue \<Rightarrow> bool" where
  "pq_empty q = (q = [])"

definition pq_push :: "job \<Rightarrow> job_queue \<Rightarrow> job_queue" where
  "pq_push j q = insert_by (\<lambda>a b. comparator b a) j q"

definition pq_top :: "job_queue \<Rightarrow> job" where
  "pq_top q = hd q"

definition pq_pop :: "job_queue \<Rightarrow> job_queue" where
  "pq_pop q = tl q"

abbreviation queue_ordered :: "job_queue \<Rightarrow> bool" where
  "queue_ordered \<equiv> ordered_by (\<lambda>a b. comparator b a)"

lemma queue_ordered_push: "queue_ordered q \<Longrightarrow> queue_ordered (pq_push j q)"
  unfolding pq_push_def
  by (rule ordered_insert_by) (use comparator_negtrans comparator_asym in blast)+

lemma queue_ordered_pop: "queue_ordered q \<Longrightarrow> queue_ordered (pq_pop q)"
  by (cases q) (auto simp: pq_pop_def)

interpretation job_pq: priority_queue comparator "[]" pq_empty pq_push pq_top pq_pop queue_ordered mset
proof unfold_locales
  fix q y assume "queue_ordered q" "y \<in># mset q"
  then show "\<not> comparator (pq_top q) y" by (cases q) (auto simp: pq_top_def)
next
  fix q :: job_queue assume "queue_ordered q" "mset q \<noteq> {#}"
  then show "mset (pq_pop q) = mset q - {#pq_top q#}"
    by (cases q) (auto simp: pq_pop_def pq_top_def)
next
  fix q :: job_queue assume "queue_ordered q" "mset q \<noteq> {#}"
  then show "pq_top q \<in># mset q" by (cases q) (auto simp: pq_top_def)
qed (auto simp: pq_empty_def pq_push_def queue_ordered_push [unfolded pq_push_def] queue_ordered_pop
      dest: comparator_asym comparator_negtrans)

definition push_job :: "job \<Rightarrow> job_queue \<Rightarrow> job_queue" where
  "push_job j jobs = pq_push j jobs"

definition pop_job :: "job_queue \<Rightarrow> job option \<times> job_queue" where
  "pop_job jobs = (if \<not> pq_empty jobs then (Some (pq_top jobs), pq_pop jobs) else (None, jobs))"

text \<open>The loop of \<open>remove_job\<close>: it empties \<open>jobs\<close> into \<open>jobs_l\<close>, leaving out the jobs of the root.\<close>

function remove_loop ::
  "256 mp_ops \<Rightarrow> u8 list \<Rightarrow> job_queue \<Rightarrow> job_queue \<Rightarrow> bool \<Rightarrow> job_queue \<times> bool" where
  "remove_loop M root_hash jobs jobs_l removed =
     (if pq_empty jobs then (jobs_l, removed)
      else let current = pq_top jobs in
        if bi_number M (req_root_hash (request current)) \<noteq> bi_number M root_hash
        then remove_loop M root_hash (pq_pop jobs) (pq_push current jobs_l) removed
        else remove_loop M root_hash (pq_pop jobs) jobs_l True)"
  by pat_completeness auto
termination
  by (relation "measure (\<lambda>(M, root_hash, jobs, jobs_l, removed). length jobs)")
    (auto simp: pq_empty_def pq_pop_def)

declare remove_loop.simps [simp del]

definition remove_job :: "256 mp_ops \<Rightarrow> u8 list \<Rightarrow> job_queue \<Rightarrow> bool \<times> job_queue" where
  "remove_job M root_hash jobs =
     (let (jobs_l, removed) = remove_loop M root_hash jobs [] False in (removed, jobs_l))"

abbreviation same_root :: "256 mp_ops \<Rightarrow> u8 list \<Rightarrow> job \<Rightarrow> bool" where
  "same_root M root_hash j \<equiv> bi_number M (req_root_hash (request j)) = bi_number M root_hash"

lemma insert_by_last: "\<forall>y \<in> set ys. \<not> lt x y \<Longrightarrow> insert_by lt x ys = ys @ [x]"
  by (induction ys) auto

lemma remove_loop_eq:
  "queue_ordered (jobs_l @ jobs) \<Longrightarrow>
   remove_loop M root_hash jobs jobs_l removed =
     (jobs_l @ filter (\<lambda>j. \<not> same_root M root_hash j) jobs,
      removed \<or> (\<exists>j \<in> set jobs. same_root M root_hash j))"
proof (induction M root_hash jobs jobs_l removed rule: remove_loop.induct)
  case (1 M root_hash jobs jobs_l removed)
  show ?case
  proof (cases jobs)
    case Nil
    then show ?thesis by (simp add: remove_loop.simps pq_empty_def)
  next
    case (Cons j js)
    have last: "pq_push j jobs_l = jobs_l @ [j]"
      unfolding pq_push_def by (rule insert_by_last) (use "1.prems" Cons in \<open>auto simp: sorted_wrt_append\<close>)
    show ?thesis
      using 1 Cons last
      by (subst remove_loop.simps)
        (auto simp: pq_empty_def pq_top_def pq_pop_def Let_def sorted_wrt_append)
  qed
qed

lemma remove_job_eq:
  "queue_ordered jobs \<Longrightarrow>
   remove_job M root_hash jobs =
     (\<exists>j \<in> set jobs. same_root M root_hash j, filter (\<lambda>j. \<not> same_root M root_hash j) jobs)"
  by (simp add: remove_job_def remove_loop_eq)

lemma drain_list: "length q \<le> n \<Longrightarrow> drain pq_empty pq_top pq_pop n q = q"
proof (induction n arbitrary: q)
  case (Suc n)
  then show ?case by (cases q) (auto simp: pq_empty_def pq_top_def pq_pop_def)
qed simp

section \<open>Properties\<close>

text \<open>
  The order in which the comment on the class promises the jobs: by priority, and first in first
  out within a priority.
\<close>

definition served_before :: "job \<Rightarrow> job \<Rightarrow> bool" where
  "served_before a b \<longleftrightarrow> priority b < priority a \<or> priority a = priority b \<and> job_id a < job_id b"

lemma served_before_iff: "job_id a \<noteq> job_id b \<Longrightarrow> served_before a b \<longleftrightarrow> \<not> comparator a b"
  by (auto simp: served_before_def comparator_def)

lemma queue_ordered_served:
  "distinct (map job_id q) \<Longrightarrow> queue_ordered q \<longleftrightarrow> sorted_wrt served_before q"
  by (induction q) (auto simp: served_before_iff image_iff)

lemma fold_push_ordered: "queue_ordered q \<Longrightarrow> queue_ordered (fold pq_push js q)"
  by (induction js arbitrary: q) (auto intro: queue_ordered_push)

lemma fold_push_mset: "mset (fold pq_push js q) = mset js + mset q"
  by (induction js arbitrary: q) (auto simp: pq_push_def)

context priority_queue
begin

lemma fold_push_items:
  "invar q \<Longrightarrow> invar (fold push xs q) \<and> items (fold push xs q) = mset xs + items q"
  by (induction xs arbitrary: q) (auto simp: invar_push items_push)

end

text \<open>
  C10: whichever conforming priority queue the standard library provides, jobs with distinct ids
  that are pushed in any order leave it by priority, and in the order of their ids within a
  priority; and the list model of the queue holds them in exactly that order.
\<close>

theorem jobs_leave_in_order:
  assumes "priority_queue comparator q0 is_empty push top_of pop invar items"
    and "distinct (map job_id js)"
  shows "drain is_empty top_of pop (length js) (fold push js q0) = fold pq_push js []
    \<and> sorted_wrt served_before (fold pq_push js []) \<and> mset (fold pq_push js []) = mset js"
proof -
  let ?q = "fold push js q0" and ?xs = "fold pq_push js []"
  have q: "invar ?q \<and> items ?q = mset js"
    using priority_queue.fold_push_items [OF assms(1) priority_queue.invar_empty [OF assms(1)]]
    by (simp add: priority_queue.items_empty [OF assms(1)])
  have xs: "mset ?xs = mset js" "queue_ordered ?xs"
    by (simp_all add: fold_push_mset fold_push_ordered)
  then have ids: "distinct (map job_id ?xs)"
    using assms(2) by (metis mset_eq_imp_distinct_iff mset_map)
  have "drain is_empty top_of pop (size (items ?q)) ?q = ?xs"
  proof (rule priority_queue.drain_unique [OF assms(1)])
    fix a b assume "a \<in> set ?xs" and "b \<in> set ?xs" and "a \<noteq> b"
    then have "job_id a \<noteq> job_id b" using ids by (auto simp: distinct_map inj_on_def)
    then show "comparator a b \<or> comparator b a" by (rule comparator_total)
  qed (use q xs in simp_all)
  then show ?thesis using q xs ids queue_ordered_served by simp
qed

definition demo_job :: "u32 \<Rightarrow> u32 \<Rightarrow> job" where
  "demo_job prio ident =
     \<lparr>start_time = 0, end_time = 0,
      request = \<lparr>req_root_hash = replicate 32 0, req_difficulty = replicate 16 0, req_multiplier = Fin 1\<rparr>,
      job_res = \<lparr>res_work = replicate 16 0, res_difficulty = replicate 16 0, res_multiplier = Fin 1\<rparr>,
      priority = prio, job_id = ident\<rparr>"

theorem jobs_leave_in_order_witness:
  "drain pq_empty pq_top pq_pop 3 (fold pq_push [demo_job 0 1, demo_job 0 2, demo_job 7 3] [])
     = [demo_job 7 3, demo_job 0 1, demo_job 0 2]"
proof -
  have ids: "distinct (map job_id [demo_job 0 1, demo_job 0 2, demo_job 7 3])"
    by (simp add: demo_job_def)
  have model: "fold pq_push [demo_job 0 1, demo_job 0 2, demo_job 7 3] [] =
      [demo_job 7 3, demo_job 0 1, demo_job 0 2]"
    by (simp add: demo_job_def pq_push_def comparator_def)
  have three: "length [demo_job 0 1, demo_job 0 2, demo_job 7 3] = 3" by simp
  show ?thesis
    using jobs_leave_in_order [OF job_pq.priority_queue_axioms ids] unfolding three model by blast
qed

text \<open>
  \<open>remove_job\<close> removes the jobs of a root and nothing else, keeps the order of the others, and
  reports whether there was one.
\<close>

theorem remove_job_filters:
  assumes "multiprecision M" and "queue_ordered jobs" and "length root_hash = 32"
    and "\<forall>j \<in> set jobs. length (req_root_hash (request j)) = 32"
  shows "remove_job M root_hash jobs =
      (root_hash \<in> (\<lambda>j. req_root_hash (request j)) ` set jobs,
       filter (\<lambda>j. req_root_hash (request j) \<noteq> root_hash) jobs)
    \<and> queue_ordered (snd (remove_job M root_hash jobs))"
proof -
  have same: "same_root M root_hash j \<longleftrightarrow> req_root_hash (request j) = root_hash" if "j \<in> set jobs" for j
    using that assms multiprecision.number_inject [OF assms(1)] by simp
  then have "filter (\<lambda>j. \<not> same_root M root_hash j) jobs =
      filter (\<lambda>j. req_root_hash (request j) \<noteq> root_hash) jobs"
    by (auto intro: filter_cong)
  then show ?thesis
    using same assms(2) by (auto simp: remove_job_eq image_iff intro: sorted_wrt_filter)
qed

theorem remove_job_filters_witness:
  "remove_job ref256 (replicate 32 0) [demo_job 7 3, demo_job 0 1] = (True, [])"
  using remove_job_filters [OF u256.multiprecision_axioms, of "[demo_job 7 3, demo_job 0 1]" "replicate 32 0"]
  by (simp add: demo_job_def comparator_def)

text \<open>
  Ids are 32 bit numbers that wrap around. When the counter wraps, the order within a priority
  is no longer that of the constructions: the job built second is served first.
\<close>

theorem fifo_ends_at_wrap:
  "\<exists>j1 d1 j2 d2. job_ctor ref256 ref128 (2 ^ 32 - 1) = Inr (j1, d1) \<and> job_ctor ref256 ref128 d1 = Inr (j2, d2)
     \<and> priority j1 = priority j2 \<and> pq_top (push_job j2 (push_job j1 [])) = j2"
proof -
  have zero: "bi_of_string ref256 ''0'' = Inr (bi_set ref256 0)" "bi_of_string ref128 ''0'' = Inr (bi_set ref128 0)"
    using u256.from_hex_digits [of "''0''"] u128.from_hex_digits [of "''0''"]
    by (simp_all add: bi_of_string_def hex_value_def hex_digit_def)
  show ?thesis
    by (simp add: job_ctor_def zero push_job_def pq_push_def pq_top_def comparator_def)
qed

end
