(* ===== verification/Serving.thy ===== *)
theory Serving
  imports Job
begin

text \<open>
  The queue of jobs as a sorting machine. The comparator of \<open>src/workserver/work_handler.hpp\<close> is read
  as a linear order on the keys of the jobs (\<open>serving_key\<close>); pushing jobs one after the other is the
  stable sort of the library by these keys (stable because the list model is; jobs have distinct ids,
  and for these the keys alone decide). The loop of \<open>remove_job\<close> is run here on any conforming queue.
\<close>

section \<open>Keys\<close>

text \<open>The priority and the id of a job. A key is smaller the sooner the job is served.\<close>

datatype serving_key = Serving (key_priority: u32) (key_id: u32)

instantiation serving_key :: linorder
begin

fun less_eq_serving_key :: "serving_key \<Rightarrow> serving_key \<Rightarrow> bool" where
  "less_eq_serving_key (Serving p i) (Serving q j) = (q < p \<or> p = q \<and> i \<le> j)"

fun less_serving_key :: "serving_key \<Rightarrow> serving_key \<Rightarrow> bool" where
  "less_serving_key (Serving p i) (Serving q j) = (q < p \<or> p = q \<and> i < j)"

instance
proof
  fix x y z :: serving_key
  show "x \<le> x" by (cases x) simp
  show "(x < y) = (x \<le> y \<and> \<not> y \<le> x)" by (cases x; cases y) auto
  show "x \<le> z" if "x \<le> y" "y \<le> z" using that by (cases x; cases y; cases z) auto
  show "x = y" if "x \<le> y" "y \<le> x" using that by (cases x; cases y) auto
  show "x \<le> y \<or> y \<le> x" by (cases x; cases y) auto
qed

end

definition serving_key :: "job \<Rightarrow> serving_key" where
  "serving_key j = Serving (priority j) (job_id j)"

lemma comparator_key: "comparator a b \<longleftrightarrow> serving_key b < serving_key a"
  by (auto simp: comparator_def serving_key_def)

lemma queue_ordered_key: "queue_ordered q \<longleftrightarrow> sorted (map serving_key q)"
  by (simp add: comparator_key sorted_wrt_map not_less)

section \<open>Pushing is sorting\<close>

lemma insert_by_front: "\<forall>y \<in> set ys. lt x y \<Longrightarrow> insert_by lt x ys = x # ys"
  by (cases ys) auto

lemma filter_insert_by:
  "filter P (insert_by lt x xs) = (if P x then insert_by lt x (filter P xs) else filter P xs)"
  if "ordered_by lt xs" and "\<And>y z. lt x y \<Longrightarrow> \<not> lt z y \<Longrightarrow> lt x z"
  using that(1)
proof (induction xs)
  case (Cons y ys)
  have "insert_by lt x (filter P ys) = x # filter P ys" if "lt x y"
  proof (rule insert_by_front)
    show "\<forall>z \<in> set (filter P ys). lt x z" using that Cons.prems \<open>\<And>y z. lt x y \<Longrightarrow> \<not> lt z y \<Longrightarrow> lt x z\<close> by auto
  qed
  then show ?case using Cons by auto
qed simp

lemma push_class:
  "queue_ordered q \<Longrightarrow> filter (\<lambda>j. k = serving_key j) (pq_push x q) =
     (if k = serving_key x then filter (\<lambda>j. k = serving_key j) q @ [x] else filter (\<lambda>j. k = serving_key j) q)"
  unfolding pq_push_def
  by (subst filter_insert_by) (auto simp: comparator_key intro!: insert_by_last)

lemma fold_push_class:
  "queue_ordered q \<Longrightarrow> filter (\<lambda>j. k = serving_key j) (fold pq_push js q) =
     filter (\<lambda>j. k = serving_key j) q @ filter (\<lambda>j. k = serving_key j) js"
  by (induction js arbitrary: q) (auto simp: push_class queue_ordered_push)

lemma fold_push_sorts: "fold pq_push js [] = sort_key serving_key js"
proof (rule properties_for_sort_key [symmetric])
  show "mset (fold pq_push js []) = mset js" by (simp add: fold_push_mset)
  show "filter (\<lambda>x. serving_key k = serving_key x) (fold pq_push js []) = filter (\<lambda>x. serving_key k = serving_key x) js"
    for k by (simp add: fold_push_class)
  show "sorted (map serving_key (fold pq_push js []))"
    using fold_push_ordered [of "[]" js] by (simp add: queue_ordered_key)
qed

section \<open>Cancelling on any priority queue\<close>

text \<open>
  The loop of \<open>remove_job\<close> over the operations of a priority queue, which are arguments: it empties
  \<open>jobs\<close> into \<open>jobs_l\<close>, leaving out the jobs of the root. The number bounds the iterations; the size
  of the queue is enough.
\<close>

fun remove_on ::
  "('q \<Rightarrow> bool) \<Rightarrow> ('q \<Rightarrow> job) \<Rightarrow> ('q \<Rightarrow> 'q) \<Rightarrow> (job \<Rightarrow> 'q \<Rightarrow> 'q) \<Rightarrow>
   256 mp_ops \<Rightarrow> u8 list \<Rightarrow> nat \<Rightarrow> 'q \<Rightarrow> 'q \<Rightarrow> bool \<Rightarrow> bool \<times> 'q" where
  "remove_on is_empty top_of pop push M root_hash 0 jobs jobs_l removed = (removed, jobs_l)"
| "remove_on is_empty top_of pop push M root_hash (Suc n) jobs jobs_l removed =
     (if is_empty jobs then (removed, jobs_l)
      else let current = top_of jobs in
        if bi_number M (req_root_hash (request current)) \<noteq> bi_number M root_hash
        then remove_on is_empty top_of pop push M root_hash n (pop jobs) (push current jobs_l) removed
        else remove_on is_empty top_of pop push M root_hash n (pop jobs) jobs_l True)"

lemma remove_on_items:
  assumes pq: "priority_queue comparator q0 is_empty push top_of pop invar items"
    and "invar jobs" and "invar jobs_l" and "size (items jobs) \<le> n"
    and "remove_on is_empty top_of pop push M root_hash n jobs jobs_l removed = (removed', jobs')"
  shows "invar jobs' \<and> items jobs' = items jobs_l + filter_mset (\<lambda>j. \<not> same_root M root_hash j) (items jobs)
    \<and> (removed' \<longleftrightarrow> removed \<or> (\<exists>j \<in># items jobs. same_root M root_hash j))"
  using assms(2-)
proof (induction n arbitrary: jobs jobs_l removed)
  case 0
  then show ?case by simp
next
  case (Suc n)
  show ?case
  proof (cases "items jobs = {#}")
    case True
    then show ?thesis using Suc.prems priority_queue.is_empty_iff [OF pq] by simp
  next
    case False
    let ?j = "top_of jobs"
    have split: "items jobs = add_mset ?j (items (pop jobs))"
      using priority_queue.items_pop [OF pq Suc.prems(1) False]
        priority_queue.top_in [OF pq Suc.prems(1) False] by simp
    have rest: "invar (pop jobs)" "size (items (pop jobs)) \<le> n"
      using priority_queue.invar_pop [OF pq Suc.prems(1) False] Suc.prems(3) by (simp_all add: split)
    have push: "invar (push ?j jobs_l)" "items (push ?j jobs_l) = add_mset ?j (items jobs_l)"
      using priority_queue.invar_push [OF pq Suc.prems(2)] priority_queue.items_push [OF pq Suc.prems(2)] by simp_all
    have "\<not> is_empty jobs" using False priority_queue.is_empty_iff [OF pq Suc.prems(1)] by simp
    then show ?thesis
      using Suc.IH [OF rest(1) push(1) rest(2), of removed] Suc.IH [OF rest(1) Suc.prems(2) rest(2), of True]
        Suc.prems(4) push(2) by (auto simp: split Let_def split: if_splits)
  qed
qed

lemma pushed_items:
  assumes pq: "priority_queue comparator q0 is_empty push top_of pop invar items"
  shows "invar q \<Longrightarrow> invar (fold push js q) \<and> items (fold push js q) = mset js + items q"
  by (induction js arbitrary: q)
    (simp_all add: priority_queue.invar_push [OF pq] priority_queue.items_push [OF pq])

section \<open>Properties\<close>

text \<open>
  C11: cancelling, on whatever conforming priority queue. For jobs with distinct ids, the loop of
  \<open>remove_job\<close>, run with the operations of any queue that keeps the standard's contract, ends with
  a queue from which exactly the jobs without the cancelled root hash leave, sorted by priority and
  id, and tells whether there was a job with it; and this is what \<open>remove_job\<close> gives on the list that
  models the queue in the other theories.
\<close>

theorem queue_sorts_jobs:
  assumes pq: "priority_queue comparator q0 is_empty push top_of pop invar items"
    and ids: "distinct (map job_id js)" and n: "length js \<le> n"
    and run: "remove_on is_empty top_of pop push M root_hash n (fold push js q0) q0 False = (removed, jobs')"
  shows "removed = (\<exists>j \<in> set js. same_root M root_hash j)
   \<and> drain is_empty top_of pop (length js) jobs' = filter (\<lambda>j. \<not> same_root M root_hash j) (sort_key serving_key js)
   \<and> remove_job M root_hash (fold push_job js []) = (removed, drain is_empty top_of pop (length js) jobs')"
proof -
  let ?left = "filter (\<lambda>j. \<not> same_root M root_hash j) (sort_key serving_key js)"
  have start: "invar q0" "items q0 = {#}"
    using priority_queue.invar_empty [OF pq] priority_queue.items_empty [OF pq] by simp_all
  have filled: "invar (fold push js q0)" "items (fold push js q0) = mset js"
    using pushed_items [OF pq start(1)] start(2) by simp_all
  have ended: "invar jobs'" "items jobs' = mset ?left" "removed = (\<exists>j \<in> set js. same_root M root_hash j)"
    using remove_on_items [OF pq filled(1) start(1) _ run] n filled(2) start(2) by simp_all
  have le: "size (items jobs') \<le> length js"
    using size_mset_mono [of "mset ?left" "mset js"] by (simp add: ended(2) multiset_filter_subset)
  have "sorted (map serving_key ?left)" by (rule sorted_filter) simp
  then have sorted: "queue_ordered ?left" by (simp only: queue_ordered_key)
  have apart: "comparator x y \<or> comparator y x" if "x \<in> set ?left" "y \<in> set ?left" "x \<noteq> y" for x y
    using that ids by (intro comparator_total) (auto simp: distinct_map inj_on_eq_iff)
  have drained: "drain is_empty top_of pop (length js) jobs' = ?left"
    by (rule ordered_unique [of "\<lambda>x y. comparator y x", symmetric])
      (use priority_queue.mset_drain [OF pq ended(1) le] priority_queue.drain_ordered [OF pq ended(1) le]
        ended(2) sorted apart in auto)
  have "fold push_job js [] = sort_key serving_key js"
    using fold_push_sorts by (simp add: push_job_def [abs_def])
  moreover have "queue_ordered (sort_key serving_key js)" by (simp add: queue_ordered_key)
  ultimately have "remove_job M root_hash (fold push_job js []) = (removed, ?left)"
    by (simp add: remove_job_eq ended(3))
  then show ?thesis using drained ended(3) by simp
qed

theorem queue_sorts_jobs_witness:
  "remove_job ref256 (replicate 32 0) (fold push_job [demo_job 0 1, demo_job 7 3] []) = (True, [])"
proof -
  have "remove_on pq_empty pq_top pq_pop pq_push ref256 (replicate 32 0) 2
      (fold pq_push [demo_job 0 1, demo_job 7 3] []) [] False = (True, [])"
    by (simp add: numeral_2_eq_2 demo_job_def pq_empty_def pq_push_def pq_top_def pq_pop_def comparator_def)
  moreover have "distinct (map job_id [demo_job 0 1, demo_job 7 3])" by (simp add: demo_job_def)
  ultimately show ?thesis
    using queue_sorts_jobs [OF job_pq.priority_queue_axioms, of "[demo_job 0 1, demo_job 7 3]" 2
        ref256 "replicate 32 0" True "[]"] by (simp add: pq_empty_def numeral_2_eq_2)
qed

end
