(* ===== verification/Decimal.thy ===== *)
theory Decimal
  imports Multiplier "HOL-Library.Log_Nat" "HOL-Library.Char_ord"
begin

text \<open>
  What the TOML library uses of the standard library to convert numbers: \<open>std::stoll\<close>,
  \<open>std::stod\<close>, the output of integers and doubles on a stream, and the conversion of an integer
  to a \<open>double\<close>. The locale is the classic one (the program never sets another).

  A \<open>double\<close> is the rational it stands for (the sign of zero is not kept). Rounding is to nearest,
  ties to even.
\<close>

section \<open>Integers\<close>

text \<open>A conversion succeeds or throws one of two exceptions.\<close>

datatype 'a conv = Converted 'a | Invalid_argument | Out_of_range

definition digit_value :: "char \<Rightarrow> nat" where
  "digit_value c = (let n = of_char c :: nat in
     if 48 \<le> n \<and> n \<le> 57 then n - 48
     else if 97 \<le> n \<and> n \<le> 122 then n - 87
     else if 65 \<le> n \<and> n \<le> 90 then n - 55
     else 36)"

definition is_digit_of :: "nat \<Rightarrow> char \<Rightarrow> bool" where
  "is_digit_of base c \<longleftrightarrow> digit_value c < base"

definition number_of :: "nat \<Rightarrow> string \<Rightarrow> nat" where
  "number_of base s = digits_value base (map digit_value (rev s))"

fun split_sign :: "string \<Rightarrow> bool \<times> string" where
  "split_sign [] = (False, [])"
| "split_sign (c # s) =
     (if c = CHR ''-'' then (True, s) else if c = CHR ''+'' then (False, s) else (False, c # s))"

definition skip_hex_prefix :: "nat \<Rightarrow> string \<Rightarrow> string" where
  "skip_hex_prefix base s =
     (if base = 16 \<and> (take 2 s = ''0x'' \<or> take 2 s = ''0X'') \<and> drop 2 s \<noteq> []
         \<and> is_digit_of 16 (hd (drop 2 s))
      then drop 2 s else s)"

text \<open>
  \<open>std::stoll (s, nullptr, base)\<close>: a sign, the longest run of digits of the base, the rest is
  ignored. (White space in front is not modelled: the texts start with a sign or a digit.)
\<close>

definition stoll :: "string \<Rightarrow> nat \<Rightarrow> int conv" where
  "stoll s base =
     (let (neg, s1) = split_sign s;
          ds = takeWhile (is_digit_of base) (skip_hex_prefix base s1);
          v = (if neg then - int (number_of base ds) else int (number_of base ds))
      in if ds = [] then Invalid_argument
         else if v < - (2 ^ 63) \<or> 2 ^ 63 - 1 < v then Out_of_range
         else Converted v)"

definition int_string :: "int \<Rightarrow> string" where
  "int_string v = (if v < 0 then CHR ''-'' # dec_string (nat (- v)) else dec_string (nat v))"

lemma digit_value_hex_char [simp]: "d < 10 \<Longrightarrow> digit_value (hex_char d) = d"
  by (simp add: digit_value_def hex_char_def Let_def)

lemma is_digit_of_hex_char [simp]: "d < 10 \<Longrightarrow> is_digit_of 10 (hex_char d)"
  by (simp add: is_digit_of_def)

lemma dec_string_digits: "c \<in> set (dec_string n) \<Longrightarrow> \<exists>d < 10. c = hex_char d"
proof (cases "n = 0")
  case True
  assume "c \<in> set (dec_string n)"
  then show ?thesis using True by (intro exI [of _ 0]) (simp add: dec_string_def)
next
  case False
  assume "c \<in> set (dec_string n)"
  then show ?thesis using False le_digits_less [of 10 _ n] by (auto simp: dec_string_def)
qed

lemma dec_string_is_digit: "c \<in> set (dec_string n) \<Longrightarrow> is_digit_of 10 c"
  using dec_string_digits by fastforce

lemma dec_string_not_Nil [simp]: "dec_string n \<noteq> []"
  by (subst dec_string_def) (subst le_digits.simps, simp)

lemma le_digits_last: "2 \<le> b \<Longrightarrow> n \<noteq> 0 \<Longrightarrow> last (le_digits b n) \<noteq> 0"
proof (induction b n rule: le_digits.induct)
  case (1 b n)
  show ?case
  proof (cases "n div b = 0")
    case True
    then have "le_digits b n = [n mod b]" and "n < b"
      using "1.prems" by (simp_all add: le_digits.simps [of b n] le_digits.simps [of b 0] div_eq_0_iff)
    then show ?thesis using "1.prems" by simp
  next
    case False
    then have "le_digits b (n div b) \<noteq> []" using "1.prems" by (subst le_digits.simps) simp
    then show ?thesis using 1 False by (subst le_digits.simps) auto
  qed
qed

lemma dec_string_leading: "hd (dec_string n) = CHR ''0'' \<Longrightarrow> dec_string n = ''0''"
proof (cases "n = 0")
  case False
  assume hd: "hd (dec_string n) = CHR ''0''"
  let ?d = "last (le_digits 10 n)"
  have ne: "le_digits 10 n \<noteq> []" using False by (subst le_digits.simps) simp
  then have "hd (dec_string n) = hex_char ?d" using False by (simp add: dec_string_def hd_map hd_rev)
  moreover have "?d < 10" using ne le_digits_less [of 10 ?d n] by simp
  moreover have "digit_value CHR ''0'' = 0" by (simp add: digit_value_def)
  ultimately have "?d = 0" using hd digit_value_hex_char [of ?d] by metis
  then show ?thesis using False le_digits_last [of 10 n] by simp
qed (simp add: dec_string_def)

lemma int_string_digits: "c \<in> set (int_string v) \<Longrightarrow> c = CHR ''-'' \<or> is_digit_of 10 c"
  by (auto simp: int_string_def dec_string_is_digit split: if_splits)

lemma number_of_dec_string [simp]: "number_of 10 (dec_string n) = n"
proof (cases "n = 0")
  case True
  then show ?thesis by (simp add: dec_string_def number_of_def digit_value_def)
next
  case False
  have "map (digit_value \<circ> hex_char) (le_digits 10 n) = le_digits 10 n"
    using le_digits_less [of 10 _ n] by (intro map_idI) auto
  then show ?thesis using False by (simp add: dec_string_def number_of_def rev_map le_digits_value)
qed

lemma takeWhile_dec_string [simp]: "takeWhile (is_digit_of 10) (dec_string n) = dec_string n"
  by (simp add: takeWhile_eq_all_conv dec_string_is_digit)

lemma split_sign_dec_string [simp]: "split_sign (dec_string n) = (False, dec_string n)"
proof -
  have "hd (dec_string n) \<noteq> CHR ''-'' \<and> hd (dec_string n) \<noteq> CHR ''+''"
    using dec_string_is_digit [of "hd (dec_string n)" n]
    by (auto simp: is_digit_of_def digit_value_def)
  then show ?thesis by (cases "dec_string n") auto
qed

lemma stoll_int_string:
  assumes "- (2 ^ 63) \<le> v" and "v < 2 ^ 63"
  shows "stoll (int_string v) 10 = Converted v"
  using assms by (auto simp: stoll_def int_string_def skip_hex_prefix_def)

section \<open>Doubles\<close>

definition power_of :: "nat \<Rightarrow> int \<Rightarrow> rat" where
  "power_of b e = (if 0 \<le> e then of_nat b ^ nat e else 1 / of_nat b ^ nat (- e))"

definition round_half_even :: "rat \<Rightarrow> int" where
  "round_half_even r =
     (let f = \<lfloor>r\<rfloor>; d = r - of_int f in
      if d < 1 / 2 \<or> d = 1 / 2 \<and> even f then f else f + 1)"

text \<open>
  The exponent \<open>e\<close> with \<open>b ^ e \<le> r < b ^ (e + 1)\<close>, from the lengths of numerator and
  denominator in base \<open>b\<close>, one of which may be off by one.
\<close>

definition exponent_of :: "nat \<Rightarrow> rat \<Rightarrow> int" where
  "exponent_of b r =
     (let (n, d) = quotient_of r;
          e = int (floorlog b (nat n)) - int (floorlog b (nat d))
      in if power_of b e \<le> r then e else e - 1)"

definition to_double :: "rat \<Rightarrow> double" where
  "to_double r =
     (if r = 0 then Fin 0
      else let ulp = power_of 2 (max (- 1074) (exponent_of 2 \<bar>r\<bar> - 52));
               v = of_int (round_half_even (r / ulp)) * ulp
           in if 2 ^ 1024 \<le> v then PInf else if v \<le> - (2 ^ 1024) then MInf else Fin v)"

text \<open>
  The decimal number at the start of a text: digits with an optional fraction and an optional
  exponent, which counts only when it has digits. \<open>stod\<close> throws when the result overflows, or
  when it is below the normal numbers and inexact.
\<close>

definition read_decimal :: "string \<Rightarrow> rat option" where
  "read_decimal s =
     (let ds = takeWhile (is_digit_of 10) s; s1 = dropWhile (is_digit_of 10) s;
          (fs, s2) = (if s1 \<noteq> [] \<and> hd s1 = CHR ''.''
                      then (takeWhile (is_digit_of 10) (tl s1), dropWhile (is_digit_of 10) (tl s1))
                      else ([], s1));
          (neg, s3) = split_sign (tl s2);
          es = (if s2 \<noteq> [] \<and> (hd s2 = CHR ''e'' \<or> hd s2 = CHR ''E'')
                then takeWhile (is_digit_of 10) s3 else []);
          e = (if neg then - int (number_of 10 es) else int (number_of 10 es))
      in if ds @ fs = [] then None
         else Some (of_nat (number_of 10 (ds @ fs)) * power_of 10 (e - int (length fs))))"

definition stod :: "string \<Rightarrow> double conv" where
  "stod s =
     (let (neg, s1) = split_sign s in
      case read_decimal s1 of
        None \<Rightarrow> Invalid_argument
      | Some m \<Rightarrow>
          let r = (if neg then - m else m); v = to_double r in
          if v = PInf \<or> v = MInf then Out_of_range
          else if r \<noteq> 0 \<and> \<bar>r\<bar> < power_of 2 (- 1022) \<and> v \<noteq> Fin r then Out_of_range
          else Converted v)"

text \<open>
  The output of a double with \<open>std::showpoint\<close> and \<open>std::setprecision (17)\<close>: seventeen
  significant digits, in scientific notation when the exponent is below -4 or above 16.
\<close>

definition exponent_text :: "int \<Rightarrow> string" where
  "exponent_text e =
     (let ds = dec_string (nat \<bar>e\<bar>) in
      (if e < 0 then ''e-'' else ''e+'') @ replicate (2 - length ds) CHR ''0'' @ ds)"

definition double_digits :: "rat \<Rightarrow> string \<times> int" where
  "double_digits r =
     (let e = exponent_of 10 r; m = round_half_even (r / power_of 10 (e - 16)) in
      if m = 10 ^ 17 then (dec_string (10 ^ 16), e + 1) else (dec_string (nat m), e))"

fun double_text :: "double \<Rightarrow> string" where
  "double_text PInf = ''inf''"
| "double_text MInf = ''-inf''"
| "double_text NaN = ''nan''"
| "double_text (Fin r) =
     (if r = 0 then ''0.'' @ replicate 16 CHR ''0''
      else let (ds, e) = double_digits \<bar>r\<bar> in
        (if r < 0 then ''-'' else []) @
        (if e < - 4 \<or> 17 \<le> e then take 1 ds @ ''.'' @ drop 1 ds @ exponent_text e
         else if e < 0 then ''0.'' @ replicate (nat (- e - 1)) CHR ''0'' @ ds
         else take (nat e + 1) ds @ ''.'' @ drop (nat e + 1) ds))"

end
