(* ===== verification/Toml_Tree.thy ===== *)
theory Toml_Tree
  imports Decimal "HOL-Library.List_Lexorder"
begin

text \<open>
  The values of \<open>deps/cpptoml/include/cpptoml.h\<close>: dates and times, the leaves, arrays, tables and
  arrays of tables, with the operations of their classes: checked construction and conversion of
  numbers, homogeneous arrays, lookup by key and by dotted path, insertion, removal and cloning.

  The library holds the entries of a table in a \<open>std::map\<close>; the model keeps an association list
  in the order of the keys, compared as the library compares \<open>std::string\<close>. The laws that the rest
  of the development needs of it are the locale \<open>dictionary\<close>.
\<close>

section \<open>Dates and times\<close>

record local_date =
  year :: int
  month :: int
  day :: int

record local_time =
  hour :: int
  minute :: int
  second :: int
  microsecond :: int

record zone_offset =
  hour_offset :: int
  minute_offset :: int

text \<open>The two datetime classes inherit from their parts.\<close>

record local_datetime =
  date_part :: local_date
  time_part :: local_time

record offset_datetime =
  local_part :: local_datetime
  offset_part :: zone_offset

text \<open>The fields of \<open>struct tm\<close> that are used, and the text that \<open>strftime\<close> gives for its zone.\<close>

record tm =
  tm_year :: int
  tm_mon :: int
  tm_mday :: int
  tm_hour :: int
  tm_min :: int
  tm_sec :: int

definition tm_local :: "tm \<Rightarrow> local_datetime" where
  "tm_local t =
     \<lparr>date_part = \<lparr>year = tm_year t + 1900, month = tm_mon t + 1, day = tm_mday t\<rparr>,
      time_part = \<lparr>hour = tm_hour t, minute = tm_min t, second = tm_sec t, microsecond = 0\<rparr>\<rparr>"

definition from_utc :: "tm \<Rightarrow> offset_datetime" where
  "from_utc t = \<lparr>local_part = tm_local t, offset_part = \<lparr>hour_offset = 0, minute_offset = 0\<rparr>\<rparr>"

text \<open>Division and remainder of \<open>int\<close> round towards zero.\<close>

definition cdiv :: "int \<Rightarrow> int \<Rightarrow> int" where
  "cdiv a b = sgn a * sgn b * (\<bar>a\<bar> div \<bar>b\<bar>)"

definition cmod :: "int \<Rightarrow> int \<Rightarrow> int" where
  "cmod a b = a - b * cdiv a b"

definition from_zoned :: "(tm \<Rightarrow> string) \<Rightarrow> tm \<Rightarrow> offset_datetime result" where
  "from_zoned strftime_z t =
     (case stoll (strftime_z t) 10 of
        Converted zone \<Rightarrow>
          Inr \<lparr>local_part = tm_local t,
               offset_part = \<lparr>hour_offset = cdiv zone 100, minute_offset = cmod zone 100\<rparr>\<rparr>
      | _ \<Rightarrow> Inl ''stoi'')"

section \<open>Elements\<close>

datatype toml =
    TString string
  | TInt int
  | TFloat double
  | TBool bool
  | TLocalDate local_date
  | TLocalTime local_time
  | TLocalDatetime local_datetime
  | TOffsetDatetime offset_datetime
  | TArray "toml list"
  | TTable "(string \<times> toml) list"
  | TTableArray bool "(string \<times> toml) list list"  \<comment> \<open>the flag says that it was written inline\<close>

type_synonym table = "(string \<times> toml) list"

fun is_value :: "toml \<Rightarrow> bool" where
  "is_value (TArray _) = False"
| "is_value (TTable _) = False"
| "is_value (TTableArray _ _) = False"
| "is_value _ = True"

fun is_table :: "toml \<Rightarrow> bool" where
  "is_table (TTable _) = True"
| "is_table _ = False"

fun is_array :: "toml \<Rightarrow> bool" where
  "is_array (TArray _) = True"
| "is_array _ = False"

fun is_table_array :: "toml \<Rightarrow> bool" where
  "is_table_array (TTableArray _ _) = True"
| "is_table_array _ = False"

fun as_table :: "toml \<Rightarrow> table option" where
  "as_table (TTable t) = Some t"
| "as_table _ = None"

fun as_array :: "toml \<Rightarrow> toml list option" where
  "as_array (TArray xs) = Some xs"
| "as_array _ = None"

fun as_table_array :: "toml \<Rightarrow> table list option" where
  "as_table_array (TTableArray _ ts) = Some ts"
| "as_table_array _ = None"

text \<open>The instances of \<open>value<T>\<close>, and \<open>base::as<T>\<close>: an integer also reads as a double.\<close>

datatype value_kind =
  K_string | K_int | K_double | K_bool | K_local_date | K_local_time | K_local_datetime
  | K_offset_datetime

fun kind_of :: "toml \<Rightarrow> value_kind option" where
  "kind_of (TString _) = Some K_string"
| "kind_of (TInt _) = Some K_int"
| "kind_of (TFloat _) = Some K_double"
| "kind_of (TBool _) = Some K_bool"
| "kind_of (TLocalDate _) = Some K_local_date"
| "kind_of (TLocalTime _) = Some K_local_time"
| "kind_of (TLocalDatetime _) = Some K_local_datetime"
| "kind_of (TOffsetDatetime _) = Some K_offset_datetime"
| "kind_of _ = None"

definition as_value :: "value_kind \<Rightarrow> toml \<Rightarrow> toml option" where
  "as_value k elem =
     (if kind_of elem = Some k then Some elem
      else case (k, elem) of (K_double, TInt v) \<Rightarrow> Some (TFloat (to_double (of_int v))) | _ \<Rightarrow> None)"

text \<open>\<open>value_traits<T>::construct\<close> for integers that are not \<open>int64_t\<close>.\<close>

definition construct_signed :: "int \<Rightarrow> toml result" where
  "construct_signed val =
     (if val < - (2 ^ 63) \<or> val > 2 ^ 63 - 1
      then Inl ''constructed value cannot be represented by a 64-bit signed integer''
      else Inr (TInt val))"

definition construct_unsigned :: "('w::len) word \<Rightarrow> toml result" where
  "construct_unsigned val =
     (if uint val > 2 ^ 63 - 1
      then Inl ''constructed value cannot be represented by a 64-bit signed integer''
      else Inr (TInt (uint val)))"

text \<open>\<open>get_impl<T>\<close>: an integer is checked against the range of \<open>T\<close>, other types are not converted.\<close>

definition get_impl_signed :: "int \<Rightarrow> int \<Rightarrow> toml \<Rightarrow> int option result" where
  "get_impl_signed lo hi elem =
     (case elem of
        TInt v \<Rightarrow>
          if v < lo then Inl ''T cannot represent the value requested in get''
          else if v > hi then Inl ''T cannot represent the value requested in get''
          else Inr (Some v)
      | _ \<Rightarrow> Inr None)"

definition get_impl_unsigned :: "toml \<Rightarrow> ('w::len) word option result" where
  "get_impl_unsigned elem =
     (case elem of
        TInt v \<Rightarrow>
          if v < 0 then Inl ''T cannot store negative value in get''
          else if v > 2 ^ LENGTH('w) - 1 then Inl ''T cannot represent the value requested in get''
          else Inr (Some (word_of_int v))
      | _ \<Rightarrow> Inr None)"

definition get_impl :: "value_kind \<Rightarrow> toml \<Rightarrow> toml option" where
  "get_impl k elem = as_value k elem"

section \<open>Arrays\<close>

text \<open>The first element of an array decides what may be added (\<open>array_exception\<close>).\<close>

definition array_accepts :: "toml \<Rightarrow> toml list \<Rightarrow> bool" where
  "array_accepts val values \<longleftrightarrow>
     values = [] \<or>
     (case kind_of val of Some k \<Rightarrow> as_value k (hd values) \<noteq> None
      | None \<Rightarrow> is_array val \<and> is_array (hd values))"

definition array_push_back :: "toml \<Rightarrow> toml list \<Rightarrow> toml list result" where
  "array_push_back val values =
     (if array_accepts val values then Inr (values @ [val]) else Inl ''Arrays must be homogenous.'')"

definition vector_insert :: "nat \<Rightarrow> 'a \<Rightarrow> 'a list \<Rightarrow> 'a list" where
  "vector_insert position x xs = take position xs @ x # drop position xs"

definition vector_erase :: "nat \<Rightarrow> 'a list \<Rightarrow> 'a list" where
  "vector_erase position xs = take position xs @ drop (Suc position) xs"

definition array_insert :: "nat \<Rightarrow> toml \<Rightarrow> toml list \<Rightarrow> toml list result" where
  "array_insert position val values =
     (if array_accepts val values then Inr (vector_insert position val values)
      else Inl ''Arrays must be homogenous.'')"

text \<open>\<open>values_.at (idx)\<close>: \<open>None\<close> is the exception \<open>std::out_of_range\<close>.\<close>

definition array_at :: "toml list \<Rightarrow> nat \<Rightarrow> toml option" where
  "array_at values idx = (if idx < length values then Some (values ! idx) else None)"

definition array_of :: "value_kind \<Rightarrow> toml list \<Rightarrow> toml option list" where
  "array_of k values = map (as_value k) values"

fun all_as :: "(toml \<Rightarrow> 'a option) \<Rightarrow> toml list \<Rightarrow> 'a list option" where
  "all_as f [] = Some []"
| "all_as f (v # vs) =
     (case f v of None \<Rightarrow> None
      | Some x \<Rightarrow> (case all_as f vs of None \<Rightarrow> None | Some xs \<Rightarrow> Some (x # xs)))"

definition get_array_of :: "value_kind \<Rightarrow> toml list \<Rightarrow> toml list option" where
  "get_array_of k values = all_as (as_value k) values"

definition get_array_of_arrays :: "toml list \<Rightarrow> toml list list option" where
  "get_array_of_arrays values = all_as as_array values"

definition nested_array :: "toml list \<Rightarrow> toml list option list" where
  "nested_array values = map as_array values"

section \<open>Tables\<close>

definition contains :: "table \<Rightarrow> string \<Rightarrow> bool" where
  "contains t key \<longleftrightarrow> map_of t key \<noteq> None"

text \<open>\<open>table::get\<close>: \<open>map_.at (key)\<close> throws \<open>std::out_of_range\<close> for a key that is absent.\<close>

definition table_get :: "table \<Rightarrow> string \<Rightarrow> toml result" where
  "table_get t key = (case map_of t key of None \<Rightarrow> Inl ''map::at'' | Some v \<Rightarrow> Inr v)"

definition get_table :: "table \<Rightarrow> string \<Rightarrow> table option" where
  "get_table t key = (case map_of t key of Some (TTable s) \<Rightarrow> Some s | _ \<Rightarrow> None)"

definition get_array :: "table \<Rightarrow> string \<Rightarrow> toml list option" where
  "get_array t key = (case map_of t key of None \<Rightarrow> None | Some v \<Rightarrow> as_array v)"

definition get_table_array :: "table \<Rightarrow> string \<Rightarrow> table list option" where
  "get_table_array t key = (case map_of t key of None \<Rightarrow> None | Some v \<Rightarrow> as_table_array v)"

text \<open>Insertion and removal keep the entries in the order of the keys.\<close>

fun insert_value :: "string \<Rightarrow> 'a \<Rightarrow> (string \<times> 'a) list \<Rightarrow> (string \<times> 'a) list" where
  "insert_value key v [] = [(key, v)]"
| "insert_value key v ((k, x) # t) =
     (if key = k then (key, v) # t
      else if key < k then (key, v) # (k, x) # t
      else (k, x) # insert_value key v t)"

fun erase_value :: "string \<Rightarrow> (string \<times> 'a) list \<Rightarrow> (string \<times> 'a) list" where
  "erase_value key [] = []"
| "erase_value key ((k, x) # t) = (if key = k then t else (k, x) # erase_value key t)"

text \<open>
  \<open>get_as<T>\<close> for the types the configuration asks for. The unsigned instance throws when the
  number does not fit; a missing key or a value of another type is the empty option.
\<close>

definition get_as :: "value_kind \<Rightarrow> table \<Rightarrow> string \<Rightarrow> toml option" where
  "get_as k t key = (case map_of t key of None \<Rightarrow> None | Some v \<Rightarrow> get_impl k v)"

definition get_as_string :: "table \<Rightarrow> string \<Rightarrow> string option" where
  "get_as_string t key = (case map_of t key of Some (TString s) \<Rightarrow> Some s | _ \<Rightarrow> None)"

definition get_as_bool :: "table \<Rightarrow> string \<Rightarrow> bool option" where
  "get_as_bool t key = (case map_of t key of Some (TBool b) \<Rightarrow> Some b | _ \<Rightarrow> None)"

definition get_as_unsigned :: "table \<Rightarrow> string \<Rightarrow> ('w::len) word option result" where
  "get_as_unsigned t key =
     (case map_of t key of None \<Rightarrow> Inr None | Some v \<Rightarrow> get_impl_unsigned v)"

definition get_array_of_key :: "value_kind \<Rightarrow> table \<Rightarrow> string \<Rightarrow> toml list option" where
  "get_array_of_key k t key =
     (case get_array t key of None \<Rightarrow> None | Some vs \<Rightarrow> get_array_of k vs)"

definition get_arrays_of_key :: "table \<Rightarrow> string \<Rightarrow> toml list list option" where
  "get_arrays_of_key t key =
     (case get_array t key of None \<Rightarrow> None | Some vs \<Rightarrow> get_array_of_arrays vs)"

definition value_or :: "'a option \<Rightarrow> 'a \<Rightarrow> 'a" where
  "value_or v alternative = (case v of Some x \<Rightarrow> x | None \<Rightarrow> alternative)"

text \<open>\<open>table::split\<close>, from the position behind the last separator, and the dotted lookup.\<close>

function split :: "string \<Rightarrow> char \<Rightarrow> string list" where
  "split value sep =
     (if sep \<in> set value
      then takeWhile (\<lambda>c. c \<noteq> sep) value # split (tl (dropWhile (\<lambda>c. c \<noteq> sep) value)) sep
      else [value])"
  by pat_completeness auto
termination
proof (relation "measure (length \<circ> fst)")
  fix str :: string and sep
  assume "sep \<in> set str"
  then show "((tl (dropWhile (\<lambda>c. c \<noteq> sep) str), sep), str, sep) \<in> measure (length \<circ> fst)"
    by (induction str) auto
qed simp

declare split.simps [simp del]

fun walk :: "table \<Rightarrow> string list \<Rightarrow> table option" where
  "walk t [] = Some t"
| "walk t (part # parts) = (case get_table t part of None \<Rightarrow> None | Some s \<Rightarrow> walk s parts)"

definition resolve_qualified :: "table \<Rightarrow> string \<Rightarrow> toml result" where
  "resolve_qualified t key =
     (let parts = split key CHR ''.'' in
      case walk t (butlast parts) of
        None \<Rightarrow> Inl (key @ '' is not a valid key'')
      | Some s \<Rightarrow> table_get s (last parts))"

definition contains_qualified :: "table \<Rightarrow> string \<Rightarrow> bool" where
  "contains_qualified t key =
     (let parts = split key CHR ''.'' in
      case walk t (butlast parts) of None \<Rightarrow> False | Some s \<Rightarrow> contains s (last parts))"

definition get_qualified :: "table \<Rightarrow> string \<Rightarrow> toml result" where
  "get_qualified t key = resolve_qualified t key"

text \<open>\<open>std::out_of_range\<close> is caught; the other lookups test \<open>contains_qualified\<close> first.\<close>

definition if_qualified :: "(toml \<Rightarrow> 'a option) \<Rightarrow> table \<Rightarrow> string \<Rightarrow> 'a option" where
  "if_qualified f t key =
     (if contains_qualified t key
      then (case get_qualified t key of Inl e \<Rightarrow> None | Inr v \<Rightarrow> f v) else None)"

definition get_table_qualified :: "table \<Rightarrow> string \<Rightarrow> table option" where
  "get_table_qualified = if_qualified as_table"

definition get_array_qualified :: "table \<Rightarrow> string \<Rightarrow> toml list option" where
  "get_array_qualified = if_qualified as_array"

definition get_table_array_qualified :: "table \<Rightarrow> string \<Rightarrow> table list option" where
  "get_table_array_qualified = if_qualified as_table_array"

definition get_qualified_as :: "value_kind \<Rightarrow> table \<Rightarrow> string \<Rightarrow> toml option" where
  "get_qualified_as k t key =
     (case get_qualified t key of Inl e \<Rightarrow> None | Inr v \<Rightarrow> get_impl k v)"

definition get_qualified_array_of :: "value_kind \<Rightarrow> table \<Rightarrow> string \<Rightarrow> toml list option" where
  "get_qualified_array_of k t key =
     (case get_array_qualified t key of None \<Rightarrow> None | Some vs \<Rightarrow> get_array_of k vs)"

definition get_qualified_arrays :: "table \<Rightarrow> string \<Rightarrow> toml list list option" where
  "get_qualified_arrays t key =
     (case get_array_qualified t key of None \<Rightarrow> None | Some vs \<Rightarrow> get_array_of_arrays vs)"

text \<open>\<open>clone\<close> builds the copy by insertion (the documentation of the keys is not copied).\<close>

fun clone :: "toml \<Rightarrow> toml" where
  "clone (TArray xs) = TArray (map clone xs)"
| "clone (TTable t) = TTable (fold (\<lambda>(k, v). insert_value k v) (map (\<lambda>(k, v). (k, clone v)) t) [])"
| "clone (TTableArray i ts) =
     TTableArray i (map (\<lambda>t. fold (\<lambda>(k, v). insert_value k v) (map (\<lambda>(k, v). (k, clone v)) t) []) ts)"
| "clone v = v"

section \<open>What a table promises\<close>

text \<open>
  The contract of \<open>std::map\<close> that the parser and the writer rely on: lookup after update and
  removal, and that the contents determine the map, so that insertions commute.
\<close>

locale dictionary =
  fixes void :: "'m"
    and update :: "'k \<Rightarrow> 'v \<Rightarrow> 'm \<Rightarrow> 'm"
    and remove :: "'k \<Rightarrow> 'm \<Rightarrow> 'm"
    and lookup :: "'m \<Rightarrow> 'k \<Rightarrow> 'v option"
    and ok :: "'m \<Rightarrow> bool"
  assumes lookup_void: "lookup void = (\<lambda>_. None)"
    and lookup_update: "lookup (update k v m) = (lookup m)(k \<mapsto> v)"
    and lookup_remove: "ok m \<Longrightarrow> lookup (remove k m) = (lookup m)(k := None)"
    and ok_void: "ok void"
    and ok_update: "ok m \<Longrightarrow> ok (update k v m)"
    and ok_remove: "ok m \<Longrightarrow> ok (remove k m)"
    and ext: "ok m \<Longrightarrow> ok m' \<Longrightarrow> lookup m = lookup m' \<Longrightarrow> m = m'"
begin

lemma update_commute: "ok m \<Longrightarrow> k \<noteq> k' \<Longrightarrow> update k v (update k' v' m) = update k' v' (update k v m)"
  by (intro ext ok_update) (simp_all add: lookup_update fun_upd_twist)

lemma update_again: "ok m \<Longrightarrow> update k v (update k v' m) = update k v m"
  by (intro ext ok_update) (simp_all add: lookup_update)

lemma update_present: "ok m \<Longrightarrow> lookup m k = Some v \<Longrightarrow> update k v m = m"
  by (intro ext ok_update) (auto simp: lookup_update)

lemma remove_update: "ok m \<Longrightarrow> lookup m k = None \<Longrightarrow> remove k (update k v m) = m"
  by (intro ext ok_update ok_remove) (auto simp: lookup_update lookup_remove ok_update)

lemma ok_fold: "ok m \<Longrightarrow> ok (fold (\<lambda>(k, v). update k v) es m)"
  by (induction es arbitrary: m) (auto intro: ok_update)

lemma lookup_fold:
  "distinct (map fst es) \<Longrightarrow> lookup (fold (\<lambda>(k, v). update k v) es m) = lookup m ++ map_of es"
proof (induction es arbitrary: m)
  case (Cons e es)
  obtain k v where e: "e = (k, v)" by (cases e)
  have "map_of es k = None" using Cons.prems e by (auto simp: map_of_eq_None_iff)
  moreover have "lookup (fold (\<lambda>(k, v). update k v) es (update k v m)) = (lookup m)(k \<mapsto> v) ++ map_of es"
    using Cons by (simp add: lookup_update)
  ultimately show ?case by (auto simp: e fun_eq_iff map_add_def split: option.splits)
qed simp

end

definition keys_sorted :: "(string \<times> 'a) list \<Rightarrow> bool" where
  "keys_sorted t \<longleftrightarrow> sorted_wrt (<) (map fst t)"

lemma keys_sorted_simps [simp]:
  "keys_sorted []"
  "keys_sorted ((k, v) # t) \<longleftrightarrow> (\<forall>k' \<in> fst ` set t. k < k') \<and> keys_sorted t"
  by (auto simp: keys_sorted_def)

lemma fst_set_insert_value [simp]: "fst ` set (insert_value k v t) = insert k (fst ` set t)"
  by (induction t rule: insert_value.induct) auto

lemma set_erase_value: "e \<in> set (erase_value k t) \<Longrightarrow> e \<in> set t"
  by (induction k t rule: erase_value.induct) (auto split: if_splits)

lemma map_of_insert_value [simp]: "map_of (insert_value k v t) = (map_of t)(k \<mapsto> v)"
  by (induction k v t rule: insert_value.induct) (auto simp: fun_eq_iff)

lemma map_of_above: "\<forall>k' \<in> fst ` set t. k < k' \<Longrightarrow> map_of t (k :: string) = None"
  by (force simp: map_of_eq_None_iff)

lemma map_of_erase_value: "keys_sorted t \<Longrightarrow> map_of (erase_value k t) = (map_of t)(k := None)"
  by (induction k t rule: erase_value.induct) (auto simp: fun_eq_iff map_of_above)

lemma keys_sorted_insert_value [simp]: "keys_sorted t \<Longrightarrow> keys_sorted (insert_value k v t)"
  by (induction k v t rule: insert_value.induct) auto

lemma keys_sorted_erase_value: "keys_sorted t \<Longrightarrow> keys_sorted (erase_value k t)"
proof (induction k t rule: erase_value.induct)
  case (2 key k x t)
  then show ?case using set_erase_value [of _ key t] by (auto simp: Ball_def)
qed simp

lemma keys_sorted_ext:
  "keys_sorted s \<Longrightarrow> keys_sorted t \<Longrightarrow> map_of s = map_of t \<Longrightarrow> s = t"
proof (induction s arbitrary: t)
  case Nil
  then show ?case by simp
next
  case (Cons e s)
  obtain k v where e: "e = (k, v)" by (cases e)
  have "t \<noteq> []" using Cons.prems(3) by (metis list.discI map_of_eq_empty_iff)
  then obtain k' v' t' where t: "t = (k', v') # t'" by (metis list.exhaust surj_pair)
  have "k = k'"
  proof (rule ccontr)
    assume "k \<noteq> k'"
    then consider "k < k'" | "k' < k" by fastforce
    then show False
    proof cases
      case 1
      then have "map_of t k = None" using Cons.prems(2) t by (intro map_of_above) auto
      then show False using Cons.prems(3) e by (metis map_of_Cons_code(2) option.distinct(1))
    next
      case 2
      then have "map_of (e # s) k' = None" using Cons.prems(1) e by (intro map_of_above) auto
      then show False using Cons.prems(3) t by (metis map_of_Cons_code(2) option.distinct(1))
    qed
  qed
  moreover from this have "v = v'" using Cons.prems(3) e t by (metis map_of_Cons_code(2) option.inject)
  moreover have "map_of s x = map_of t' x" for x
    using Cons.prems \<open>k = k'\<close> e t map_of_above [of s k] map_of_above [of t' k]
    by (cases "x = k") (auto simp: fun_eq_iff split: if_splits)
  ultimately show ?case using Cons e t by auto
qed

interpretation std_map: dictionary "[]" insert_value erase_value map_of keys_sorted
  by unfold_locales (auto simp: map_of_erase_value keys_sorted_erase_value intro: keys_sorted_ext)

lemma keys_sorted_distinct: "keys_sorted t \<Longrightarrow> distinct (map fst t)"
  by (simp add: keys_sorted_def strict_sorted_iff)

section \<open>Well-formed trees\<close>

text \<open>
  Integers fit \<open>int64_t\<close>, arrays are homogeneous (an integer may stand in an array of doubles,
  and an array of inline tables in an array of arrays),
  tables are in key order, and an array of tables is never empty: \<open>back ()\<close> is always defined.
\<close>

definition all_kinds :: "value_kind list" where
  "all_kinds = [K_string, K_int, K_double, K_bool, K_local_date, K_local_time, K_local_datetime,
     K_offset_datetime]"

definition is_nested :: "toml \<Rightarrow> bool" where
  "is_nested x \<longleftrightarrow> is_array x \<or> is_table_array x"

definition homogeneous :: "toml list \<Rightarrow> bool" where
  "homogeneous xs \<longleftrightarrow>
     list_all is_nested xs \<or> list_ex (\<lambda>k. list_all (\<lambda>x. as_value k x \<noteq> None) xs) all_kinds"

fun tree_ok :: "toml \<Rightarrow> bool" where
  "tree_ok (TInt v) \<longleftrightarrow> - (2 ^ 63) \<le> v \<and> v < 2 ^ 63"
| "tree_ok (TArray xs) \<longleftrightarrow> homogeneous xs \<and> list_all tree_ok xs"
| "tree_ok (TTable t) \<longleftrightarrow> keys_sorted t \<and> list_all (\<lambda>(k, v). tree_ok v) t"
| "tree_ok (TTableArray i ts) \<longleftrightarrow>
     ts \<noteq> [] \<and> list_all (\<lambda>t. keys_sorted t \<and> list_all (\<lambda>(k, v). tree_ok v) t) ts"
| "tree_ok _ \<longleftrightarrow> True"

abbreviation table_ok :: "table \<Rightarrow> bool" where
  "table_ok t \<equiv> tree_ok (TTable t)"

lemma all_kinds: "k \<in> set all_kinds"
  by (cases k) (simp_all add: all_kinds_def)

lemma homogeneousI: "\<forall>x \<in> set xs. as_value k x \<noteq> None \<Longrightarrow> homogeneous xs"
  using all_kinds [of k] by (auto simp: homogeneous_def list_all_iff list_ex_iff)

lemma table_ok_lookup: "table_ok t \<Longrightarrow> map_of t k = Some v \<Longrightarrow> tree_ok v"
  by (auto simp: list_all_iff dest: map_of_SomeD)

lemma list_all_insert_value:
  "list_all (\<lambda>(k, v). P v) t \<Longrightarrow> P v \<Longrightarrow> list_all (\<lambda>(k, v). P v) (insert_value k v t)"
  by (induction k v t rule: insert_value.induct) auto

lemma table_ok_insert: "table_ok t \<Longrightarrow> tree_ok v \<Longrightarrow> table_ok (insert_value k v t)"
  by (simp add: list_all_insert_value)

lemma table_ok_erase: "table_ok t \<Longrightarrow> table_ok (erase_value k t)"
  by (auto simp: keys_sorted_erase_value list_all_iff dest: set_erase_value)

text \<open>The element under a path of tables.\<close>

fun leaf_at :: "string list \<Rightarrow> table \<Rightarrow> toml option" where
  "leaf_at [] t = None"
| "leaf_at [k] t = map_of t k"
| "leaf_at (k # ks) t = (case map_of t k of Some (TTable s) \<Rightarrow> leaf_at ks s | _ \<Rightarrow> None)"

lemma leaf_at_Cons:
  "ks \<noteq> [] \<Longrightarrow> leaf_at (k # ks) t = (case map_of t k of Some (TTable s) \<Rightarrow> leaf_at ks s | _ \<Rightarrow> None)"
  by (cases ks) auto

lemma leaf_at_walk:
  "ps \<noteq> [] \<Longrightarrow> leaf_at ps t = (case walk t (butlast ps) of None \<Rightarrow> None | Some s \<Rightarrow> map_of s (last ps))"
  by (induction ps t rule: leaf_at.induct) (auto simp: get_table_def split: option.splits toml.splits)

fun join :: "string list \<Rightarrow> string" where
  "join [] = []"
| "join [p] = p"
| "join (p # ps) = p @ ''.'' @ join ps"

lemma split_none: "sep \<notin> set s \<Longrightarrow> split s sep = [s]"
  by (simp add: split.simps)

lemma split_first: "sep \<notin> set p \<Longrightarrow> split (p @ sep # s) sep = p # split s sep"
  by (simp add: split.simps [of "p @ sep # s"] takeWhile_append dropWhile_append)

lemma split_join:
  "ps \<noteq> [] \<Longrightarrow> \<forall>p \<in> set ps. CHR ''.'' \<notin> set p \<Longrightarrow> split (join ps) CHR ''.'' = ps"
  by (induction ps rule: join.induct) (simp_all add: split_none split_first)

lemma resolve_join:
  "ps \<noteq> [] \<Longrightarrow> \<forall>p \<in> set ps. CHR ''.'' \<notin> set p \<Longrightarrow>
   get_qualified t (join ps) = Inr v \<longleftrightarrow> leaf_at ps t = Some v"
  by (auto simp: get_qualified_def resolve_qualified_def split_join leaf_at_walk table_get_def
      split: option.splits)

lemma contains_join:
  "ps \<noteq> [] \<Longrightarrow> \<forall>p \<in> set ps. CHR ''.'' \<notin> set p \<Longrightarrow>
   contains_qualified t (join ps) \<longleftrightarrow> leaf_at ps t \<noteq> None"
  by (auto simp: contains_qualified_def contains_def split_join leaf_at_walk split: option.splits)

text \<open>A clone of a well-formed tree is the tree: inserting sorted entries gives them back.\<close>

lemma fold_insert_sorted:
  "keys_sorted t \<Longrightarrow> fold (\<lambda>(k, v). insert_value k v) t [] = t"
  by (intro keys_sorted_ext std_map.ok_fold)
     (simp_all add: std_map.lookup_fold keys_sorted_distinct)

lemma clone_entries: "list_all (\<lambda>(k, v). clone v = v) t \<Longrightarrow> map (\<lambda>(k, v). (k, clone v)) t = t"
  by (induction t) auto

lemma clone_id: "tree_ok v \<Longrightarrow> clone v = v"
proof (induction v rule: clone.induct)
  case (1 xs)
  then show ?case by (simp add: list_all_iff map_idI)
next
  case (2 t)
  then have "list_all (\<lambda>(k, v). clone v = v) t" by (fastforce simp: list_all_iff)
  then show ?case using 2 by (simp add: clone_entries fold_insert_sorted)
next
  case (3 i ts)
  have "map (\<lambda>(k, v). (k, clone v)) t = t \<and> keys_sorted t" if "t \<in> set ts" for t
  proof -
    have "list_all (\<lambda>(k, v). clone v = v) t" using 3 that by (fastforce simp: list_all_iff)
    then show ?thesis using 3 that by (auto simp: clone_entries list_all_iff)
  qed
  then show ?case by (simp add: map_idI fold_insert_sorted)
qed simp_all

text \<open>Adding to an array with the operations of the class keeps it homogeneous.\<close>

lemma as_value_kind: "as_value k x \<noteq> None \<longleftrightarrow> kind_of x = Some k \<or> k = K_double \<and> kind_of x = Some K_int"
  by (cases x; cases k) (auto simp: as_value_def)

lemma is_nested_kind: "is_nested x \<Longrightarrow> kind_of x = None"
  by (cases x) (auto simp: is_nested_def)

lemma homogeneous_iff:
  "homogeneous xs \<longleftrightarrow> (\<forall>x \<in> set xs. is_nested x) \<or>
     (\<exists>k. \<forall>x \<in> set xs. kind_of x = Some k \<or> k = K_double \<and> kind_of x = Some K_int)"
proof -
  have "set all_kinds = UNIV" using all_kinds by auto
  then show ?thesis
    unfolding homogeneous_def list_all_iff list_ex_iff as_value_kind by simp
qed

lemma homogeneous_accepts:
  assumes "homogeneous xs" and "array_accepts x xs" and "kind_of x \<noteq> None \<or> is_array x"
    and "set ys = insert x (set xs)"
  shows "homogeneous ys"
proof (cases "kind_of x")
  case None
  then have "is_array x" and "xs = [] \<or> is_array (hd xs)"
    using assms(2,3) by (auto simp: array_accepts_def)
  then have "\<forall>y \<in> set xs. is_nested y"
    using assms(1) is_nested_kind [of "hd xs"] by (cases xs) (auto simp: homogeneous_iff is_nested_def)
  then show ?thesis using \<open>is_array x\<close> assms(4) by (auto simp: homogeneous_iff is_nested_def)
next
  case (Some k)
  then have hd: "xs = [] \<or> kind_of (hd xs) = Some k \<or> k = K_double \<and> kind_of (hd xs) = Some K_int"
    using assms(2) as_value_kind [of k "hd xs"] by (simp add: array_accepts_def)
  then obtain k' where k': "\<forall>z \<in> set xs. kind_of z = Some k' \<or> k' = K_double \<and> kind_of z = Some K_int"
    using assms(1) is_nested_kind [of "hd xs"] by (cases xs) (auto simp: homogeneous_iff)
  have "\<forall>z \<in> set ys. kind_of z = Some k'' \<or> k'' = K_double \<and> kind_of z = Some K_int"
    if "k'' = (if k = K_int \<and> xs \<noteq> [] then k' else k)" for k''
    using that Some hd k' assms(4) by (cases xs) auto
  then show ?thesis by (auto simp: homogeneous_iff)
qed

lemma set_vector_insert: "set (vector_insert i x xs) = insert x (set xs)"
proof -
  have "set (vector_insert i x xs) = insert x (set (take i xs @ drop i xs))"
    by (simp add: vector_insert_def del: append_take_drop_id)
  then show ?thesis by simp
qed

lemma array_push_back_homogeneous:
  "homogeneous xs \<Longrightarrow> kind_of x \<noteq> None \<or> is_array x \<Longrightarrow> array_push_back x xs = Inr ys \<Longrightarrow> homogeneous ys"
  by (rule homogeneous_accepts) (auto simp: array_push_back_def split: if_splits)

lemma array_insert_homogeneous:
  "homogeneous xs \<Longrightarrow> kind_of x \<noteq> None \<or> is_array x \<Longrightarrow> array_insert i x xs = Inr ys \<Longrightarrow> homogeneous ys"
  by (rule homogeneous_accepts) (auto simp: array_insert_def set_vector_insert split: if_splits)

end
