(* ===== verification/Toml_Lex.thy ===== *)
theory Toml_Lex
  imports Toml_Tree
begin

text \<open>
  The lexical level of \<open>cpptoml::parser\<close>: lines, the helper \<open>consumer\<close>, white space, escape
  sequences, string literals and keys.

  The iterators \<open>it\<close> and \<open>end\<close> of the current line are the text that is left of the line. A
  function that fails throws a \<open>parse_exception\<close> with the number of the current line.
\<close>

unbundle bit_operations_syntax

section \<open>Lines\<close>

text \<open>
  A stream is what is left to read and whether \<open>eofbit\<close> is set. \<open>detail::getline\<close> accepts both
  line endings. It sets \<open>eofbit\<close> only when it finds the end of the input at the start of a line, and
  the stream fails at the next call: every input is followed by one empty line.
\<close>

record istream =
  stream_buf :: string
  eofbit :: bool

fun take_line :: "string \<Rightarrow> string \<times> string option" where
  "take_line [] = ([], None)"
| "take_line (c # s) =
     (if c = CHR 0x0D \<and> s \<noteq> [] \<and> hd s = CHR 0x0A then ([], Some (tl s))
      else if c = CHR 0x0A then ([], Some s)
      else case take_line s of (line, r) \<Rightarrow> (c # line, r))"

definition getline :: "istream \<Rightarrow> (string \<times> istream) option" where
  "getline i =
     (if eofbit i then None
      else case take_line (stream_buf i) of
        (line, Some r) \<Rightarrow> Some (line, \<lparr>stream_buf = r, eofbit = False\<rparr>)
      | (line, None) \<Rightarrow> Some (line, \<lparr>stream_buf = [], eofbit = (line = [])\<rparr>))"

definition stream_of :: "string \<Rightarrow> istream" where
  "stream_of s = \<lparr>stream_buf = s, eofbit = False\<rparr>"

section \<open>Errors, characters and the consumer\<close>

definition throw_at :: "nat \<Rightarrow> string \<Rightarrow> 'a result" where
  "throw_at line_number err = Inl (err @ '' at line '' @ dec_string line_number)"

definition is_number :: "char \<Rightarrow> bool" where
  "is_number c \<longleftrightarrow> CHR ''0'' \<le> c \<and> c \<le> CHR ''9''"

definition is_hex_digit :: "char \<Rightarrow> bool" where
  "is_hex_digit c \<longleftrightarrow>
     is_number c \<or> CHR ''a'' \<le> c \<and> c \<le> CHR ''f'' \<or> CHR ''A'' \<le> c \<and> c \<le> CHR ''F''"

definition is_ws :: "char \<Rightarrow> bool" where
  "is_ws c \<longleftrightarrow> c = CHR '' '' \<or> c = CHR 0x09"

definition consume_whitespace :: "string \<Rightarrow> string" where
  "consume_whitespace s = dropWhile is_ws s"

text \<open>\<open>starts p s\<close>: the line has not ended and its next character satisfies \<open>p\<close>.\<close>

definition starts :: "(char \<Rightarrow> bool) \<Rightarrow> string \<Rightarrow> bool" where
  "starts p s \<longleftrightarrow> s \<noteq> [] \<and> p (hd s)"

definition eat :: "nat \<Rightarrow> string \<Rightarrow> char \<Rightarrow> string \<Rightarrow> string result" where
  "eat n err c s = (if starts (\<lambda>x. x = c) s then Inr (tl s) else throw_at n err)"

fun eat_text :: "nat \<Rightarrow> string \<Rightarrow> string \<Rightarrow> string \<Rightarrow> string result" where
  "eat_text n err [] s = Inr s"
| "eat_text n err (c # cs) s = bind_result (eat n err c s) (eat_text n err cs)"

definition eat_or :: "nat \<Rightarrow> string \<Rightarrow> char \<Rightarrow> char \<Rightarrow> string \<Rightarrow> string result" where
  "eat_or n err a b s = (if starts (\<lambda>x. x = a \<or> x = b) s then Inr (tl s) else throw_at n err)"

fun eat_digits_from :: "nat \<Rightarrow> string \<Rightarrow> nat \<Rightarrow> int \<Rightarrow> string \<Rightarrow> (int \<times> string) result" where
  "eat_digits_from n err 0 val s = Inr (val, s)"
| "eat_digits_from n err (Suc len) val s =
     (if starts is_number s
      then eat_digits_from n err len (10 * val + int (digit_value (hd s))) (tl s)
      else throw_at n err)"

definition eat_digits :: "nat \<Rightarrow> string \<Rightarrow> nat \<Rightarrow> string \<Rightarrow> (int \<times> string) result" where
  "eat_digits n err len s = eat_digits_from n err len 0 s"

definition eol_or_comment :: "nat \<Rightarrow> string \<Rightarrow> unit result" where
  "eol_or_comment n s =
     (if s \<noteq> [] \<and> hd s \<noteq> CHR ''#''
      then throw_at n (''Unidentified trailing character '' @ [CHR 0x27] @ [hd s] @ [CHR 0x27]
                       @ ''---did you forget a '' @ [CHR 0x27] @ ''#'' @ [CHR 0x27] @ ''?'')
      else Inr ())"

section \<open>Escape sequences\<close>

text \<open>
  \<open>parse_hex\<close> adds up the digits by their place; with the places 16^7 and 16^3 that it is called
  with, the value fits the \<open>uint32_t\<close> of the code.
\<close>

function parse_hex :: "nat \<Rightarrow> string \<Rightarrow> nat \<Rightarrow> nat \<Rightarrow> (nat \<times> string) result" where
  "parse_hex n s place val =
     (if place > 0 then
        if s = [] then throw_at n ''Unexpected end of unicode sequence''
        else if \<not> is_hex_digit (hd s) then throw_at n ''Invalid unicode escape sequence''
        else parse_hex n (tl s) (place div 16) (val + place * digit_value (hd s))
      else Inr (val, s))"
  by pat_completeness auto
termination
  by (relation "measure (\<lambda>(n, s, place, val). place)") auto

declare parse_hex.simps [simp del]

definition utf8 :: "nat \<Rightarrow> string" where
  "utf8 codepoint =
     (if codepoint \<le> 0x7f then [char_of (codepoint AND 0x7f)]
      else if codepoint \<le> 0x7ff then
        [char_of (0xc0 OR (drop_bit 6 codepoint AND 0x1f)), char_of (0x80 OR (codepoint AND 0x3f))]
      else if codepoint \<le> 0xffff then
        [char_of (0xe0 OR (drop_bit 12 codepoint AND 0x0f)),
         char_of (0x80 OR (drop_bit 6 codepoint AND 0x1f)), char_of (0x80 OR (codepoint AND 0x3f))]
      else
        [char_of (0xf0 OR (drop_bit 18 codepoint AND 0x07)),
         char_of (0x80 OR (drop_bit 12 codepoint AND 0x3f)),
         char_of (0x80 OR (drop_bit 6 codepoint AND 0x3f)), char_of (0x80 OR (codepoint AND 0x3f))])"

text \<open>The text begins with the letter behind the backslash.\<close>

definition parse_unicode :: "nat \<Rightarrow> string \<Rightarrow> (string \<times> string) result" where
  "parse_unicode n s =
     bind_result (parse_hex n (tl s) (if hd s = CHR ''U'' then 0x10000000 else 0x1000) 0)
       (\<lambda>(codepoint, r).
          if codepoint > 0xd7ff \<and> codepoint < 0xe000 \<or> codepoint > 0x10ffff
          then throw_at n ''Unicode escape sequence is not a Unicode scalar value''
          else Inr (utf8 codepoint, r))"

definition parse_escape_code :: "nat \<Rightarrow> string \<Rightarrow> (string \<times> string) result" where
  "parse_escape_code n s0 =
     (let s = tl s0 in
      if s = [] then throw_at n ''Invalid escape sequence''
      else if hd s = CHR ''b'' then Inr ([CHR 0x08], tl s)
      else if hd s = CHR ''t'' then Inr ([CHR 0x09], tl s)
      else if hd s = CHR ''n'' then Inr ([CHR 0x0A], tl s)
      else if hd s = CHR ''f'' then Inr ([CHR 0x0C], tl s)
      else if hd s = CHR ''r'' then Inr ([CHR 0x0D], tl s)
      else if hd s = CHR 0x22 then Inr ([CHR 0x22], tl s)
      else if hd s = CHR 0x5C then Inr ([CHR 0x5C], tl s)
      else if hd s = CHR ''u'' \<or> hd s = CHR ''U'' then parse_unicode n s
      else throw_at n ''Invalid escape sequence'')"

lemma bind_result_cong [fundef_cong]:
  "r = r' \<Longrightarrow> (\<And>x. r' = Inr x \<Longrightarrow> f x = g x) \<Longrightarrow> bind_result r f = bind_result r' g"
  by (cases r') auto

text \<open>What a lexical function leaves is an end of the text it was given.\<close>

lemma parse_hex_suffix: "parse_hex n s place val = Inr (v, r) \<Longrightarrow> suffix r s"
proof (induction n s place val rule: parse_hex.induct)
  case (1 n s place val)
  show ?case
    using "1.prems" "1.IH"
    by (subst (asm) parse_hex.simps) (cases s; auto simp: throw_at_def split: if_splits intro: suffix_ConsI)
qed

lemma parse_escape_code_suffix:
  "parse_escape_code n s = Inr (v, r) \<Longrightarrow> strict_suffix r s"
proof -
  assume esc: "parse_escape_code n s = Inr (v, r)"
  obtain a b t where s: "s = a # b # t"
    using esc by (cases s; cases "tl s") (auto simp: parse_escape_code_def throw_at_def)
  have "suffix r t"
    using esc parse_hex_suffix unfolding s parse_escape_code_def parse_unicode_def
    by (auto simp: throw_at_def bind_result_Inr Let_def split: if_splits prod.splits)
  then show "strict_suffix r s"
    unfolding s by (auto simp: strict_suffix_def suffix_def)
qed

section \<open>String literals and keys\<close>

text \<open>\<open>string_literal\<close> from the opening delimiter on; \<open>val\<close> is what has been read.\<close>

function string_body :: "nat \<Rightarrow> char \<Rightarrow> string \<Rightarrow> string \<Rightarrow> (string \<times> string) result" where
  "string_body n delim s val =
     (if s = [] then throw_at n ''Unterminated string literal''
      else if delim = CHR 0x22 \<and> hd s = CHR 0x5C then
        bind_result (parse_escape_code n s) (\<lambda>(v, r). string_body n delim r (val @ v))
      else if hd s = delim then Inr (val, consume_whitespace (tl s))
      else string_body n delim (tl s) (val @ [hd s]))"
  by pat_completeness auto
termination
  by (relation "measure (\<lambda>(n, delim, s, val). length s)")
     (auto dest: parse_escape_code_suffix suffix_length_less)

declare string_body.simps [simp del]

definition string_literal :: "nat \<Rightarrow> string \<Rightarrow> char \<Rightarrow> (string \<times> string) result" where
  "string_literal n s delim = string_body n delim (tl s) []"

fun consume_backwards_whitespace :: "string \<Rightarrow> string" where
  "consume_backwards_whitespace s =
     (if length s > 1 \<and> is_ws (last s) then consume_backwards_whitespace (butlast s) else s)"

declare consume_backwards_whitespace.simps [simp del]

text \<open>\<open>parse_bare_key\<close> on the text in front of the end it is given.\<close>

definition parse_bare_key :: "nat \<Rightarrow> string \<Rightarrow> string result" where
  "parse_bare_key n s =
     (if s = [] then throw_at n ''Bare key missing name''
      else let key = consume_backwards_whitespace s in
        if CHR ''#'' \<in> set key then throw_at n (''Bare key '' @ key @ '' cannot contain #'')
        else if list_ex is_ws key then throw_at n (''Bare key '' @ key @ '' cannot contain whitespace'')
        else if CHR ''['' \<in> set key \<or> CHR '']'' \<in> set key
        then throw_at n (''Bare key '' @ key @ '' cannot contain '' @ [CHR 0x27] @ ''['' @ [CHR 0x27]
                         @ '' or '' @ [CHR 0x27] @ '']'' @ [CHR 0x27])
        else Inr key)"

definition ends_bare_key :: "char \<Rightarrow> bool" where
  "ends_bare_key c \<longleftrightarrow> c = CHR ''.'' \<or> c = CHR ''='' \<or> c = CHR '']''"

definition parse_simple_key :: "nat \<Rightarrow> string \<Rightarrow> (string \<times> string) result" where
  "parse_simple_key n s0 =
     (let s = consume_whitespace s0 in
      if s = [] then throw_at n ''Unexpected end of key (blank key?)''
      else if hd s = CHR 0x22 \<or> hd s = CHR 0x27 then string_literal n s (hd s)
      else bind_result (parse_bare_key n (takeWhile (\<lambda>c. \<not> ends_bare_key c) s))
             (\<lambda>key. Inr (key, dropWhile (\<lambda>c. \<not> ends_bare_key c) s)))"

lemma consume_whitespace_suffix: "suffix (consume_whitespace s) s"
  by (simp add: consume_whitespace_def suffix_dropWhile)

lemma string_body_Nil [simp]:
  "string_body n delim [] val = throw_at n ''Unterminated string literal''"
  by (simp add: string_body.simps)

lemma string_body_escape [simp]:
  "string_body n CHR 0x22 (CHR 0x5C # s) val =
     bind_result (parse_escape_code n (CHR 0x5C # s)) (\<lambda>(v, r). string_body n CHR 0x22 r (val @ v))"
  by (subst string_body.simps) simp

lemma string_body_end [simp]:
  "\<not> (delim = CHR 0x22 \<and> c = CHR 0x5C) \<Longrightarrow> c = delim \<Longrightarrow>
   string_body n delim (c # s) val = Inr (val, consume_whitespace s)"
  by (subst string_body.simps) auto

lemma string_body_char [simp]:
  "\<not> (delim = CHR 0x22 \<and> c = CHR 0x5C) \<Longrightarrow> c \<noteq> delim \<Longrightarrow>
   string_body n delim (c # s) val = string_body n delim s (val @ [c])"
  by (subst string_body.simps) auto

lemma suffix_strict_Cons: "suffix r s \<Longrightarrow> strict_suffix r (c # s)"
  by (auto simp: strict_suffix_def suffix_def)

lemma string_body_suffix:
  "string_body n delim s val = Inr (v, r) \<Longrightarrow> strict_suffix r s"
proof (induction n delim s val rule: string_body.induct)
  case (1 n delim s val)
  show ?case
  proof (cases s)
    case Nil
    then show ?thesis using "1.prems" by (simp add: throw_at_def)
  next
    case (Cons c t)
    consider "delim = CHR 0x22 \<and> c = CHR 0x5C" | "\<not> (delim = CHR 0x22 \<and> c = CHR 0x5C)" "c = delim"
      | "\<not> (delim = CHR 0x22 \<and> c = CHR 0x5C)" "c \<noteq> delim" by blast
    then show ?thesis
    proof cases
      case 1
      then obtain w r' where esc: "parse_escape_code n s = Inr (w, r')"
        and body: "string_body n delim r' (val @ w) = Inr (v, r)"
        using "1.prems" Cons by (auto simp: bind_result_Inr)
      have "strict_suffix r r'" using "1.IH"(1) [OF _ _ esc] body 1 Cons by auto
      then show ?thesis using parse_escape_code_suffix [OF esc] by (rule suffix_order.less_trans)
    next
      case 2
      then show ?thesis
        using "1.prems" Cons consume_whitespace_suffix by (auto intro: suffix_strict_Cons)
    next
      case 3
      then have "strict_suffix r t" using "1.IH"(2) "1.prems" Cons by auto
      then show ?thesis using Cons by (auto intro: suffix_strict_Cons)
    qed
  qed
qed

lemma parse_simple_key_suffix:
  "parse_simple_key n s = Inr (part, r) \<Longrightarrow> strict_suffix r s"
proof -
  assume key: "parse_simple_key n s = Inr (part, r)"
  have "strict_suffix r (consume_whitespace s)"
  proof (cases "starts (\<lambda>c. c = CHR 0x22 \<or> c = CHR 0x27) (consume_whitespace s)")
    case True
    then have "strict_suffix r (tl (consume_whitespace s))"
      using key string_body_suffix
      by (auto simp: starts_def parse_simple_key_def string_literal_def Let_def)
    then show ?thesis by (meson suffix_order.less_le_trans suffix_tl)
  next
    case False
    then have "takeWhile (\<lambda>c. \<not> ends_bare_key c) (consume_whitespace s) \<noteq> []"
      and "r = dropWhile (\<lambda>c. \<not> ends_bare_key c) (consume_whitespace s)"
      using key by (auto simp: starts_def parse_simple_key_def parse_bare_key_def throw_at_def Let_def
          bind_result_Inr split: if_splits)
    then show ?thesis
      by (metis append_self_conv2 strict_suffix_def suffix_dropWhile takeWhile_dropWhile_id)
  qed
  then show ?thesis using consume_whitespace_suffix suffix_order.less_le_trans by blast
qed

text \<open>
  \<open>parse_key\<close> is generic in what ends the key and in the handler of its inner parts, which works on
  a state \<open>st\<close> (the tables) and may throw. It returns the last part.
\<close>

function parse_key :: "nat \<Rightarrow> (char \<Rightarrow> bool) \<Rightarrow> (string \<Rightarrow> 'st \<Rightarrow> 'st result) \<Rightarrow> string \<Rightarrow> 'st
    \<Rightarrow> (string \<times> string \<times> 'st) result" where
  "parse_key n key_end key_part_handler s st =
     (if starts (\<lambda>c. \<not> key_end c) s then
        bind_result (parse_simple_key n s) (\<lambda>(part, s1).
          let s2 = consume_whitespace s1 in
          if \<not> starts (\<lambda>c. \<not> key_end c) s2 then Inr (part, s2, st)
          else if hd s2 \<noteq> CHR ''.''
          then throw_at n (''Unexpected character in key: '' @ [CHR 0x22] @ [hd s2] @ [CHR 0x22])
          else bind_result (key_part_handler part st) (\<lambda>st'.
            parse_key n key_end key_part_handler (tl s2) st'))
      else throw_at n ''Unexpected end of key'')"
  by pat_completeness auto

lemma parse_key_shrinks:
  assumes "parse_simple_key n s = Inr (part, s1)"
  shows "length (tl (consume_whitespace s1)) < length s"
proof -
  have "length (tl (consume_whitespace s1)) \<le> length (consume_whitespace s1)" by simp
  also have "\<dots> \<le> length s1" by (rule suffix_length_le [OF consume_whitespace_suffix])
  also have "\<dots> < length s" by (rule suffix_length_less [OF parse_simple_key_suffix [OF assms]])
  finally show ?thesis .
qed

termination parse_key
  by (relation "measure (\<lambda>(n, key_end, h, s, st). length s)") (auto dest: parse_key_shrinks)

declare parse_key.simps [simp del]

lemma parse_key_suffix:
  "parse_key n key_end h s st = Inr (part, r, st') \<Longrightarrow> strict_suffix r s"
proof (induction n key_end h s st rule: parse_key.induct)
  case (1 n key_end h s st)
  have start: "starts (\<lambda>c. \<not> key_end c) s"
    using "1.prems" by (subst (asm) parse_key.simps [of n key_end h s st]) (auto simp: throw_at_def split: if_splits)
  then obtain p s1 where key: "parse_simple_key n s = Inr (p, s1)"
    using "1.prems" by (subst (asm) parse_key.simps [of n key_end h s st]) (auto simp: bind_result_Inr)
  let ?s2 = "consume_whitespace s1"
  have s2: "strict_suffix ?s2 s"
    using parse_simple_key_suffix [OF key] consume_whitespace_suffix suffix_order.le_less_trans by blast
  show ?case
  proof (cases "starts (\<lambda>c. \<not> key_end c) ?s2")
    case False
    then show ?thesis using "1.prems" start key s2 by (subst (asm) parse_key.simps [of n key_end h s st]) simp
  next
    case True
    then obtain st1 where dot: "hd ?s2 = CHR ''.''" and h: "h p st = Inr st1"
      and rec: "parse_key n key_end h (tl ?s2) st1 = Inr (part, r, st')"
      using "1.prems" start key
      by (subst (asm) parse_key.simps [of n key_end h s st]) (auto simp: bind_result_Inr throw_at_def Let_def split: if_splits)
    have "strict_suffix r (tl ?s2)" by (rule "1.IH" [OF start key refl]) (use True dot h rec in auto)
    then show ?thesis using s2 suffix_tl suffix_order.less_le_trans suffix_order.less_trans by meson
  qed
qed

section \<open>Unicode escapes\<close>

text \<open>
  The code point of a well-formed UTF-8 sequence, from the standard and not from the code: each length
  has its range of code points, so a sequence that is longer than its code point needs is ill-formed,
  as are the encodings of surrogates and of numbers beyond 0x10ffff (RFC 3629, section 3).
\<close>

definition continuation :: "nat \<Rightarrow> bool" where
  "continuation b \<longleftrightarrow> 128 \<le> b \<and> b < 192"

definition scalar_value :: "nat \<Rightarrow> bool" where
  "scalar_value cp \<longleftrightarrow> cp < 0xd800 \<or> 0xe000 \<le> cp \<and> cp \<le> 0x10ffff"

definition scalar_from :: "nat \<Rightarrow> nat \<Rightarrow> nat option" where
  "scalar_from least cp = (if least \<le> cp \<and> scalar_value cp then Some cp else None)"

fun utf8_decode :: "nat list \<Rightarrow> nat option" where
  "utf8_decode [a] = (if a < 128 then Some a else None)"
| "utf8_decode [a, b] =
     (if 192 \<le> a \<and> a < 224 \<and> continuation b
      then scalar_from 0x80 ((a - 192) * 64 + (b - 128)) else None)"
| "utf8_decode [a, b, c] =
     (if 224 \<le> a \<and> a < 240 \<and> continuation b \<and> continuation c
      then scalar_from 0x800 ((a - 224) * 4096 + (b - 128) * 64 + (c - 128)) else None)"
| "utf8_decode [a, b, c, d] =
     (if 240 \<le> a \<and> a < 248 \<and> continuation b \<and> continuation c \<and> continuation d
      then scalar_from 0x10000 ((a - 240) * 262144 + (b - 128) * 4096 + (c - 128) * 64 + (d - 128)) else None)"
| "utf8_decode _ = None"

lemma and_mask_nat: "(a :: nat) AND mask k = a mod 2 ^ k"
  by (metis take_bit_eq_mask take_bit_eq_mod)

lemma and_low_bits:
  "(a :: nat) AND 0x7f = a mod 128" "a AND 0x3f = a mod 64" "a AND 0x1f = a mod 32"
  "a AND 0x0f = a mod 16" "a AND 0x07 = a mod 8"
  using and_mask_nat [of a 7] and_mask_nat [of a 6] and_mask_nat [of a 5] and_mask_nat [of a 4]
    and_mask_nat [of a 3] by (simp_all add: mask_eq_exp_minus_1)

lemma or_high_bits_table:
  "list_all (\<lambda>m :: nat. 0x80 OR m = 128 + m) [0..<64]"
  "list_all (\<lambda>m :: nat. 0xc0 OR m = 192 + m) [0..<32]"
  "list_all (\<lambda>m :: nat. 0xe0 OR m = 224 + m) [0..<16]"
  "list_all (\<lambda>m :: nat. 0xf0 OR m = 240 + m) [0..<8]"
  by code_simp+

lemma or_high_bits:
  "(m :: nat) < 64 \<Longrightarrow> 0x80 OR m = 128 + m" "m < 32 \<Longrightarrow> 0xc0 OR m = 192 + m"
  "m < 16 \<Longrightarrow> 0xe0 OR m = 224 + m" "m < 8 \<Longrightarrow> 0xf0 OR m = 240 + m"
  using or_high_bits_table by (auto simp: list_all_iff)

lemma utf8_bytes:
  "map of_char (utf8 cp) =
     (if cp < 128 then [cp]
      else if cp < 2048 then [192 + cp div 64 mod 32, 128 + cp mod 64]
      else if cp < 65536 then [224 + cp div 4096 mod 16, 128 + cp div 64 mod 32, 128 + cp mod 64]
      else [240 + cp div 262144 mod 8, 128 + cp div 4096 mod 64, 128 + cp div 64 mod 64,
            128 + cp mod 64])"
proof -
  have "128 OR x mod 32 = 128 + x mod 32" for x :: nat
    using or_high_bits(1) [of "x mod 32"] by (simp add: order.strict_trans [of "x mod 32" 32 64])
  then show ?thesis
    by (simp add: utf8_def and_low_bits or_high_bits drop_bit_eq_div less_Suc_eq_le [symmetric])
qed

text \<open>Taking bit 11 off never gives a surrogate, as each of them has it.\<close>

lemma surrogate_bit:
  assumes "odd (cp div 2048)" and "(0x800 :: nat) \<le> cp"
  shows "cp - 2048 < 0xd800 \<or> 0xe000 \<le> cp - 2048"
proof (rule ccontr)
  assume "\<not> ?thesis"
  then have "0xe000 \<le> cp" "cp < 0xe800" by auto
  then have "cp div 2048 = 28" by simp
  then show False using assms(1) by simp
qed

text \<open>
  In the sequences of three bytes the second byte loses a bit (mask 0x1f for 0x3f), which takes 0x800
  off the code point; below 0x1000 nothing is left that needs three bytes.
\<close>

lemma utf8_decode_utf8:
  assumes "scalar_value cp"
  shows "utf8_decode (map of_char (utf8 cp)) =
     (if 0x800 \<le> cp \<and> cp < 0x10000 \<and> odd (cp div 0x800)
      then (if cp < 0x1000 then None else Some (cp - 0x800)) else Some cp)"
proof -
  define x y z where "x = cp div 64" and "y = x div 64" and "z = y div 64"
  have cp: "cp = 64 * x + cp mod 64" and x: "x = 64 * y + x mod 64" and y: "y = 64 * z + y mod 64"
    by (simp_all add: x_def y_def z_def)
  have eqs: "cp div 4096 = y" "cp div 262144 = z" "cp div 2048 = x div 32"
    by (simp_all add: x_def y_def z_def div_mult2_eq [symmetric])
  have bound: "cp \<le> 0x10ffff" using assms by (auto simp: scalar_value_def)
  consider "cp < 128" | "128 \<le> cp" "cp < 2048" | "2048 \<le> cp" "cp < 65536" | "65536 \<le> cp" by linarith
  then show ?thesis
  proof cases
    case 1
    then show ?thesis by (simp add: utf8_bytes)
  next
    case 2
    then have "x < 32" by (simp add: x_def less_mult_imp_div_less)
    moreover have "x * 64 + cp mod 64 = cp" using cp by linarith
    ultimately show ?thesis using 2 assms
      by (simp add: utf8_bytes continuation_def scalar_from_def x_def [symmetric])
  next
    case 3
    then have "y < 16" by (simp add: x_def y_def div_mult2_eq [symmetric] less_mult_imp_div_less)
    have m: "x mod 64 = x mod 32 + (if odd (x div 32) then 32 else 0)"
      using mod_mult2_eq [of x 32 2] by (simp add: odd_iff_mod_2_eq_one)
    have sum: "y * 4096 + x mod 32 * 64 + cp mod 64 + (if odd (x div 32) then 2048 else 0) = cp"
      using cp x m by (auto split: if_splits)
    have "utf8_decode (map of_char (utf8 cp)) = scalar_from 0x800 (y * 4096 + x mod 32 * 64 + cp mod 64)"
      using 3 \<open>y < 16\<close> less_trans [of "x mod 32" 32 64]
      by (simp add: utf8_bytes continuation_def x_def [symmetric] eqs)
    also have "y * 4096 + x mod 32 * 64 + cp mod 64 = (if odd (x div 32) then cp - 2048 else cp)"
      using sum by (simp split: if_splits)
    also have "scalar_from 0x800 \<dots> =
        (if odd (x div 32) then (if cp < 0x1000 then None else Some (cp - 0x800)) else Some cp)"
      using 3 assms surrogate_bit [of cp] by (auto simp: scalar_from_def scalar_value_def eqs)
    finally show ?thesis using 3 by (simp add: eqs)
  next
    case 4
    then have "z < 8" using bound by (simp add: x_def y_def z_def div_mult2_eq [symmetric])
    have "z * 262144 + y mod 64 * 4096 + x mod 64 * 64 + cp mod 64 = cp" using cp x y by linarith
    then show ?thesis using 4 \<open>z < 8\<close> assms
      by (simp add: utf8_bytes continuation_def scalar_from_def x_def [symmetric] eqs)
  qed
qed

lemma parse_hex_0 [simp]: "parse_hex n s 0 val = Inr (val, s)"
  by (simp add: parse_hex.simps)

lemma parse_hex_digits:
  assumes "\<forall>d \<in> set ds. is_hex_digit d" and "ds \<noteq> []"
  shows "parse_hex n (ds @ r) (16 ^ (length ds - 1)) val = Inr (val + number_of 16 ds, r)"
  using assms
proof (induction ds arbitrary: val)
  case (Cons d ds)
  have num: "number_of 16 (d # ds) = 16 ^ length ds * digit_value d + number_of 16 ds"
    by (simp add: number_of_def)
  show ?case
  proof (cases "ds = []")
    case True
    then show ?thesis using Cons.prems by (subst parse_hex.simps) (simp add: number_of_def)
  next
    case False
    then have "(16 :: nat) ^ length ds div 16 = 16 ^ (length ds - 1)"
      by (cases ds) simp_all
    then show ?thesis using Cons False num
      by (subst parse_hex.simps) (simp add: algebra_simps)
  qed
qed simp

lemma digit_value_hex: "is_hex_digit d \<Longrightarrow> digit_value d < 16"
  by (auto simp: is_hex_digit_def is_number_def less_eq_char_def digit_value_def Let_def)

text \<open>The values that \<open>parse_hex\<close> is asked for fit 32 bits.\<close>

lemma parse_hex_fits:
  "\<forall>d \<in> set ds. is_hex_digit d \<Longrightarrow> length ds \<le> 8 \<Longrightarrow> number_of 16 ds < 2 ^ 32"
proof -
  assume "\<forall>d \<in> set ds. is_hex_digit d" and len: "length ds \<le> 8"
  then have "number_of 16 ds < 16 ^ length ds"
    using digits_value_less [of 16 "map digit_value (rev ds)"] by (simp add: number_of_def digit_value_hex)
  also have "\<dots> \<le> 16 ^ 8" using len by (rule power_increasing) simp
  finally show ?thesis by simp
qed

text \<open>An escape that is cut short, or has another character among its digits.\<close>

lemma parse_hex_stops:
  assumes "\<forall>d \<in> set ds. is_hex_digit d" and "length ds < k" and "t \<noteq> [] \<longrightarrow> \<not> is_hex_digit (hd t)"
  shows "parse_hex n (ds @ t) (16 ^ (k - 1)) val =
    throw_at n (if t = [] then ''Unexpected end of unicode sequence'' else ''Invalid unicode escape sequence'')"
  using assms(1,2)
proof (induction ds arbitrary: val k)
  case Nil
  then show ?case using assms(3) by (subst parse_hex.simps) simp
next
  case (Cons d ds)
  have "(16 :: nat) ^ (k - 1) div 16 = 16 ^ (k - 1 - 1)"
    using Cons.prems(2) by (cases "k - 1") simp_all
  then show ?case using Cons.prems Cons.IH [of "k - 1"] by (subst parse_hex.simps) simp
qed

text \<open>
  C26: Unicode escapes, whatever follows the letter. With fewer than the four (\<open>u\<close>) or eight (\<open>U\<close>)
  hexadecimal digits the escape is an error, one for the end of the line and one for another
  character; with all of them, surrogates and numbers above 0x10ffff are errors, any other number is
  written by \<open>utf8\<close>, and exactly its digits are consumed. Read by the rules of UTF-8, what is written
  is the code point itself, except where a code point between 0x800 and 0xffff has bit 11 set: that
  bit is lost, and below 0x1000 the bytes are no UTF-8.
\<close>

theorem unicode_escape:
  "parse_unicode n (u # s) =
      (let k = (if u = CHR ''U'' then 8 else 4); ds = takeWhile is_hex_digit (take k s) in
       if length ds < k
       then throw_at n (if length s = length ds then ''Unexpected end of unicode sequence''
                        else ''Invalid unicode escape sequence'')
       else if \<not> scalar_value (number_of 16 ds)
       then throw_at n ''Unicode escape sequence is not a Unicode scalar value''
       else Inr (utf8 (number_of 16 ds), drop k s))
    \<and> (scalar_value cp \<longrightarrow>
       utf8_decode (map of_char (utf8 cp)) =
         (if 0x800 \<le> cp \<and> cp < 0x10000 \<and> odd (cp div 0x800)
          then (if cp < 0x1000 then None else Some (cp - 0x800)) else Some cp))"
proof -
  define k :: nat where "k = (if u = CHR ''U'' then 8 else 4)"
  define ds where "ds = takeWhile is_hex_digit (take k s)"
  have hex: "\<forall>d \<in> set ds. is_hex_digit d" unfolding ds_def by (auto dest: set_takeWhileD)
  have place: "(if u = CHR ''U'' then 0x10000000 else 0x1000) = (16 :: nat) ^ (k - 1)"
    by (simp add: k_def)
  have "parse_unicode n (u # s) =
      (if length ds < k
       then throw_at n (if length s = length ds then ''Unexpected end of unicode sequence''
                        else ''Invalid unicode escape sequence'')
       else if \<not> scalar_value (number_of 16 ds)
       then throw_at n ''Unicode escape sequence is not a Unicode scalar value''
       else Inr (utf8 (number_of 16 ds), drop k s))"
  proof (cases "length ds < k")
    case True
    define t where "t = drop (length ds) s"
    have split: "s = ds @ t"
      unfolding t_def ds_def
      by (metis append_take_drop_id takeWhile_eq_take take_take min.absorb1 length_takeWhile_le length_take min.boundedE)
    have "t \<noteq> [] \<longrightarrow> \<not> is_hex_digit (hd t)"
    proof
      assume "t \<noteq> []"
      then have "takeWhile is_hex_digit (take k (ds @ t)) = ds @ takeWhile is_hex_digit (take (k - length ds) t)"
        using hex True by (simp add: takeWhile_append2)
      moreover have "takeWhile is_hex_digit (take k (ds @ t)) = ds" using split ds_def by simp
      ultimately have "takeWhile is_hex_digit (take (k - length ds) t) = []" by simp
      then show "\<not> is_hex_digit (hd t)" using True \<open>t \<noteq> []\<close>
        by (cases t; cases "k - length ds") (auto split: if_splits)
    qed
    then have "parse_hex n s (16 ^ (k - 1)) 0 = throw_at n
        (if t = [] then ''Unexpected end of unicode sequence'' else ''Invalid unicode escape sequence'')"
      using parse_hex_stops [OF hex True, of t n 0] split by simp
    moreover have "t = [] \<longleftrightarrow> length s = length ds" by (subst split) simp
    ultimately show ?thesis using True by (simp add: parse_unicode_def place throw_at_def)
  next
    case False
    have "length ds \<le> length (take k s)" unfolding ds_def by (rule length_takeWhile_le)
    then have len: "length ds = k" "k \<le> length s" using False by simp_all
    then have ds: "ds = take k s" unfolding ds_def by (metis length_take min.absorb2 take_all_iff takeWhile_eq_take order_refl)
    have "ds \<noteq> []" using len(1) by (auto simp: k_def split: if_splits)
    then have "parse_hex n (ds @ drop k s) (16 ^ (k - 1)) 0 = Inr (number_of 16 ds, drop k s)"
      using parse_hex_digits [OF hex, of n "drop k s" 0] len(1) by simp
    then have "parse_hex n s (16 ^ (k - 1)) 0 = Inr (number_of 16 ds, drop k s)" using ds by simp
    then show ?thesis using False by (auto simp: parse_unicode_def place scalar_value_def)
  qed
  then show ?thesis using utf8_decode_utf8 [of cp] unfolding Let_def k_def [symmetric] ds_def [symmetric] by blast
qed

text \<open>U+0800 is written as bytes that are no UTF-8, U+FFFD as the sequence for U+F7FD; three digits are too few.\<close>

theorem unicode_escape_witness:
  "parse_unicode 1 (CHR ''u'' # ''0800'' @ [CHR 0x22]) = Inr (utf8 0x800, [CHR 0x22])
   \<and> utf8_decode (map of_char (utf8 0x800)) = None
   \<and> utf8_decode (map of_char (utf8 0xfffd)) = Some 0xf7fd
   \<and> parse_unicode 1 (CHR ''u'' # ''080'' @ [CHR 0x22]) = throw_at 1 ''Invalid unicode escape sequence''"
  using unicode_escape [where n = 1 and u = "CHR ''u''" and s = "''0800'' @ [CHR 0x22]" and cp = "0x800"]
    unicode_escape [where n = 1 and u = "CHR ''u''" and s = "''080'' @ [CHR 0x22]" and cp = "0xfffd"]
  by (simp add: is_hex_digit_def is_number_def less_eq_char_def number_of_def digit_value_def scalar_value_def)

end
