(* ===== verification/Toml_Number.thy ===== *)
theory Toml_Number
  imports Toml_Lex
begin

text \<open>
  Numbers and booleans of \<open>cpptoml::parser\<close>: \<open>determine_number_type\<close>, \<open>find_end_of_number\<close>,
  \<open>parse_number\<close>, \<open>parse_int\<close>, \<open>parse_float\<close> and \<open>parse_bool\<close>.

  An iterator into the line is the text from there to the end of the line, so positions are
  compared by the length of what is left.
\<close>

datatype parse_type =
    STRING | LOCAL_TIME | LOCAL_DATE | LOCAL_DATETIME | OFFSET_DATETIME | INT64 | FLOAT | BOOL
  | ARRAY | INLINE_TABLE

text \<open>The text between two iterators; the character behind an iterator (the line ends in a null).\<close>

definition between :: "string \<Rightarrow> string \<Rightarrow> string" where
  "between s r = take (length s - length r) s"

definition char_at :: "string \<Rightarrow> nat \<Rightarrow> char" where
  "char_at s i = (if i < length s then s ! i else CHR 0x00)"

definition is_sign :: "char \<Rightarrow> bool" where
  "is_sign c \<longleftrightarrow> c = CHR ''-'' \<or> c = CHR ''+''"

definition eat_sign :: "string \<Rightarrow> string" where
  "eat_sign s = (if starts is_sign s then tl s else s)"

definition determine_number_type :: "nat \<Rightarrow> string \<Rightarrow> parse_type result" where
  "determine_number_type n s =
     (let s1 = eat_sign s in
      if s1 = [] then throw_at n ''Malformed number''
      else if hd s1 = CHR ''i'' \<or> hd s1 = CHR ''n'' then Inr FLOAT
      else if starts (\<lambda>c. c = CHR ''.'') (dropWhile is_number s1) then Inr FLOAT
      else Inr INT64)"

definition is_number_char :: "char \<Rightarrow> bool" where
  "is_number_char c \<longleftrightarrow> is_number c \<or> c \<in> set ''_.eE-+xob''"

definition find_end_of_number :: "string \<Rightarrow> string" where
  "find_end_of_number s =
     (let r = dropWhile is_number_char s in
      if take 3 r = ''inf'' \<or> take 3 r = ''nan'' then drop 3 r else r)"

definition remove_underscores :: "string \<Rightarrow> string" where
  "remove_underscores s = filter (\<lambda>c. c \<noteq> CHR ''_'') s"

definition parse_int :: "nat \<Rightarrow> string \<Rightarrow> nat \<Rightarrow> string \<Rightarrow> toml result" where
  "parse_int n txt base pre =
     (case stoll (remove_underscores (pre @ txt)) base of
        Converted v \<Rightarrow> Inr (TInt v)
      | Invalid_argument \<Rightarrow> throw_at n ''Malformed number (invalid argument: stoll)''
      | Out_of_range \<Rightarrow> throw_at n ''Malformed number (out of range: stoll)'')"

definition parse_float :: "nat \<Rightarrow> string \<Rightarrow> toml result" where
  "parse_float n txt =
     (case stod (remove_underscores txt) of
        Converted v \<Rightarrow> Inr (TFloat v)
      | Invalid_argument \<Rightarrow> throw_at n ''Malformed number (invalid argument: stod)''
      | Out_of_range \<Rightarrow> throw_at n ''Malformed number (out of range: stod)'')"

definition check_no_leading_zero :: "nat \<Rightarrow> string \<Rightarrow> string \<Rightarrow> unit result" where
  "check_no_leading_zero n check_end s =
     (if starts (\<lambda>c. c = CHR ''0'') s \<and> length (tl s) \<noteq> length check_end \<and> char_at s 1 \<noteq> CHR ''.''
      then throw_at n ''Numbers may not have leading zeros'' else Inr ())"

text \<open>The lambda \<open>eat_digits\<close>: digits with single underscores between them.\<close>

fun eat_run :: "nat \<Rightarrow> (char \<Rightarrow> bool) \<Rightarrow> string \<Rightarrow> string result" where
  "eat_run n check_char [] = Inr []"
| "eat_run n check_char (c # s) =
     (if check_char c then
        if starts (\<lambda>x. x = CHR ''_'') s then
          if starts check_char (tl s) then eat_run n check_char (tl s)
          else throw_at n ''Malformed number''
        else eat_run n check_char s
      else Inr (c # s))"

definition eat_number_digits :: "nat \<Rightarrow> (char \<Rightarrow> bool) \<Rightarrow> string \<Rightarrow> string result" where
  "eat_number_digits n check_char s =
     bind_result (eat_run n check_char s) (\<lambda>r.
       if length r = length s then throw_at n ''Malformed number'' else Inr r)"

definition eat_exp :: "nat \<Rightarrow> string \<Rightarrow> string \<Rightarrow> string result" where
  "eat_exp n check_end s =
     (let s1 = eat_sign s in
      bind_result (check_no_leading_zero n check_end s1) (\<lambda>_. eat_number_digits n is_number s1))"

definition is_e :: "char \<Rightarrow> bool" where
  "is_e c \<longleftrightarrow> c = CHR ''e'' \<or> c = CHR ''E''"

text \<open>The branch for the prefixes 0x, 0o and 0b; then the one for decimal integers and floats.\<close>

definition parse_prefixed :: "nat \<Rightarrow> string \<Rightarrow> (toml \<times> string) result" where
  "parse_prefixed n s =
     (let start = drop 2 s in
      if char_at s 1 = CHR ''x'' then
        bind_result (eat_number_digits n is_hex_digit start) (\<lambda>r.
          bind_result (parse_int n (between s r) 16 []) (\<lambda>v. Inr (v, r)))
      else if char_at s 1 = CHR ''o'' then
        bind_result (eat_number_digits n is_number start) (\<lambda>r.
          bind_result (parse_int n (between start r) 8 ''0'') (\<lambda>v. Inr (v, r)))
      else
        bind_result (eat_number_digits n is_number start) (\<lambda>r.
          bind_result (parse_int n (between start r) 2 []) (\<lambda>v. Inr (v, r))))"

definition parse_fraction :: "nat \<Rightarrow> string \<Rightarrow> string \<Rightarrow> string \<Rightarrow> (toml \<times> string) result" where
  "parse_fraction n check_end s s1 =
     (let is_exp = is_e (hd s1); s2 = tl s1 in
      if s2 = [] then throw_at n ''Floats must have trailing digits''
      else bind_result (if is_exp then eat_exp n check_end s2 else eat_number_digits n is_number s2)
        (\<lambda>s3. bind_result (if \<not> is_exp \<and> starts is_e s3 then eat_exp n check_end (tl s3) else Inr s3)
          (\<lambda>s4. bind_result (parse_float n (between s s4)) (\<lambda>v. Inr (v, s4)))))"

definition parse_number :: "nat \<Rightarrow> string \<Rightarrow> (toml \<times> string) result" where
  "parse_number n s =
     (let check_end = find_end_of_number s in
      if starts (\<lambda>c. c = CHR ''0'') s \<and> length (tl s) \<noteq> length check_end
         \<and> (char_at s 1 = CHR ''x'' \<or> char_at s 1 = CHR ''o'' \<or> char_at s 1 = CHR ''b'')
      then parse_prefixed n s
      else
        let s1 = eat_sign s in
        bind_result (check_no_leading_zero n check_end s1) (\<lambda>_.
          if take 3 s1 = ''inf''
          then Inr (TFloat (if hd s = CHR ''-'' then MInf else PInf), drop 3 s1)
          else if take 3 s1 = ''nan'' then Inr (TFloat NaN, drop 3 s1)
          else bind_result (eat_number_digits n is_number s1) (\<lambda>s2.
            if starts (\<lambda>c. c = CHR ''.'' \<or> is_e c) s2 then parse_fraction n check_end s s2
            else bind_result (parse_int n (between s s2) 10 []) (\<lambda>v. Inr (v, s2)))))"

definition parse_bool :: "nat \<Rightarrow> string \<Rightarrow> (toml \<times> string) result" where
  "parse_bool n s =
     (let err = ''Attempted to parse invalid boolean value'' in
      if starts (\<lambda>c. c = CHR ''t'') s
      then bind_result (eat_text n err ''true'' s) (\<lambda>r. Inr (TBool True, r))
      else if starts (\<lambda>c. c = CHR ''f'') s
      then bind_result (eat_text n err ''false'' s) (\<lambda>r. Inr (TBool False, r))
      else throw_at n err)"

section \<open>What is left, and the numbers that come back\<close>

lemma is_number_iff: "is_number c \<longleftrightarrow> is_digit_of 10 c"
  by (auto simp: is_number_def is_digit_of_def digit_value_def less_eq_char_def Let_def)

lemma eat_sign_suffix: "suffix (eat_sign s) s"
  by (simp add: eat_sign_def suffix_tl)

lemma suffix_drop_tl: "suffix r (tl s) \<Longrightarrow> suffix r s"
  using suffix_order.trans suffix_tl by blast

lemma eat_run_suffix: "eat_run n p s = Inr r \<Longrightarrow> suffix r s"
  by (induction n p s rule: eat_run.induct)
     (auto simp: throw_at_def suffix_Cons intro: suffix_drop_tl split: if_splits)

lemma eat_number_digits_suffix: "eat_number_digits n p s = Inr r \<Longrightarrow> suffix r s"
  by (auto simp: eat_number_digits_def throw_at_def bind_result_Inr eat_run_suffix split: if_splits)

lemma eat_exp_suffix: "eat_exp n e s = Inr r \<Longrightarrow> suffix r s"
  unfolding eat_exp_def Let_def bind_result_Inr
  using eat_number_digits_suffix eat_sign_suffix suffix_order.trans by blast

lemma parse_prefixed_suffix: "parse_prefixed n s = Inr (v, r) \<Longrightarrow> suffix r s"
  using eat_number_digits_suffix [of n _ "drop 2 s"] suffix_drop [of 2 s] suffix_order.trans
  by (fastforce simp: parse_prefixed_def Let_def bind_result_Inr split: if_splits)

lemma parse_fraction_suffix: "parse_fraction n e s s1 = Inr (v, r) \<Longrightarrow> suffix r s1"
proof -
  assume frac: "parse_fraction n e s s1 = Inr (v, r)"
  obtain s3 where s3: "(if is_e (hd s1) then eat_exp n e (tl s1) else eat_number_digits n is_number (tl s1)) = Inr s3"
    and s4: "(if \<not> is_e (hd s1) \<and> starts is_e s3 then eat_exp n e (tl s3) else Inr s3) = Inr r"
    using frac by (auto simp: parse_fraction_def Let_def throw_at_def bind_result_Inr split: if_splits)
  have "suffix s3 (tl s1)"
    using s3 eat_exp_suffix eat_number_digits_suffix by (metis (full_types))
  moreover have "suffix r s3"
    using s4 eat_exp_suffix [of n e "tl s3" r] suffix_drop_tl by (auto split: if_splits)
  ultimately show "suffix r s1" using suffix_order.trans suffix_drop_tl by blast
qed

lemma parse_number_suffix: "parse_number n s = Inr (v, r) \<Longrightarrow> suffix r s"
proof -
  assume num: "parse_number n s = Inr (v, r)"
  let ?s1 = "eat_sign s"
  have "suffix r ?s1 \<or> parse_prefixed n s = Inr (v, r)"
  proof -
    consider "parse_prefixed n s = Inr (v, r)" | "r = drop 3 ?s1"
      | s2 where "eat_number_digits n is_number ?s1 = Inr s2"
          "r = s2 \<or> (\<exists>e. parse_fraction n e s s2 = Inr (v, r))"
      using num
      by (auto simp: parse_number_def Let_def bind_result_Inr split: if_splits)
    then show ?thesis
    proof cases
      case 3
      have "suffix r s2" using 3(2) parse_fraction_suffix by auto
      then show ?thesis using eat_number_digits_suffix [OF 3(1)] suffix_order.trans by blast
    qed (simp_all add: suffix_drop)
  qed
  then show ?thesis
    using parse_prefixed_suffix eat_sign_suffix suffix_order.trans by blast
qed

lemma eat_text_suffix: "eat_text n err cs s = Inr r \<Longrightarrow> suffix r s"
  by (induction n err cs s rule: eat_text.induct)
     (auto simp: eat_def throw_at_def bind_result_Inr intro: suffix_drop_tl split: if_splits)

lemma parse_bool_suffix: "parse_bool n s = Inr (v, r) \<Longrightarrow> suffix r s"
  by (auto simp: parse_bool_def Let_def throw_at_def bind_result_Inr simp del: eat_text.simps
      dest: eat_text_suffix split: if_splits)

text \<open>
  A value in a text ends where the line ends or one of these characters follows. (A blank in front
  of a digit may be the separator of a date and its time.)
\<close>

definition ends_value :: "string \<Rightarrow> bool" where
  "ends_value r \<longleftrightarrow> r = [] \<or> hd r \<in> {CHR 0x09, CHR '','', CHR '']'', CHR ''}'', CHR ''#''}
     \<or> hd r = CHR '' '' \<and> \<not> starts is_number (tl r)"

lemma ends_value_not:
  "ends_value r \<Longrightarrow> (\<And>c. c \<in> set '' ,]}#'' \<or> c = CHR 0x09 \<Longrightarrow> \<not> p c) \<Longrightarrow> \<not> starts p r"
  by (auto simp: ends_value_def starts_def)

lemma dropWhile_run: "\<forall>c \<in> set ds. p c \<Longrightarrow> \<not> starts p r \<Longrightarrow> dropWhile p (ds @ r) = r"
  by (cases r) (simp_all add: starts_def)

lemma eat_run_digits:
  "\<forall>d \<in> set ds. p d \<and> d \<noteq> CHR ''_'' \<Longrightarrow> \<not> starts p r \<Longrightarrow> \<not> starts (\<lambda>c. c = CHR ''_'') r \<Longrightarrow>
   eat_run n p (ds @ r) = Inr r"
proof (induction ds)
  case Nil
  then show ?case by (cases r) (auto simp: starts_def)
next
  case (Cons d ds)
  then have "\<not> starts (\<lambda>c. c = CHR ''_'') (ds @ r)" by (cases ds) (auto simp: starts_def)
  then show ?case using Cons by simp
qed

lemma eat_number_digits_run:
  "ds \<noteq> [] \<Longrightarrow> \<forall>d \<in> set ds. p d \<and> d \<noteq> CHR ''_'' \<Longrightarrow> \<not> starts p r \<Longrightarrow>
   \<not> starts (\<lambda>c. c = CHR ''_'') r \<Longrightarrow> eat_number_digits n p (ds @ r) = Inr r"
  by (simp add: eat_number_digits_def eat_run_digits)

lemma digit_char: "is_number c \<Longrightarrow> c \<notin> set ''_.eE-+xobinft'' \<and> c \<noteq> CHR 0x22 \<and> c \<noteq> CHR 0x27"
  by (auto simp: is_number_def less_eq_char_def)

lemma dec_string_number [simp]: "\<forall>c \<in> set (dec_string k). is_number c"
  by (simp add: is_number_iff dec_string_is_digit)

lemma ends_number_char: "ends_value r \<Longrightarrow> \<not> starts is_number_char r"
  by (rule ends_value_not) (auto simp: is_number_char_def is_number_def less_eq_char_def)

lemma int_string_chars: "\<forall>c \<in> set (int_string v). is_number_char c"
  by (auto simp: int_string_def is_number_char_def)

lemma take_3_ends: "ends_value r \<Longrightarrow> take 3 r \<noteq> ''inf'' \<and> take 3 r \<noteq> ''nan''"
  by (cases r) (auto simp: ends_value_def)

lemma find_end_int_string: "ends_value r \<Longrightarrow> find_end_of_number (int_string v @ r) = r"
  unfolding find_end_of_number_def using take_3_ends [of r]
  by (subst dropWhile_run) (simp_all add: int_string_chars ends_number_char)

lemma eat_sign_int_string:
  "eat_sign (int_string v @ r) = dec_string (nat \<bar>v\<bar>) @ r"
proof -
  obtain c t where d: "dec_string (nat v) = c # t" by (cases "dec_string (nat v)") auto
  then have "is_number c" using dec_string_number [of "nat v"] by simp
  then show ?thesis
    using d digit_char [of c] by (auto simp: int_string_def eat_sign_def starts_def is_sign_def)
qed

text \<open>An integer is read back as written, whatever may follow a value.\<close>

lemma parse_number_int_string:
  assumes "- (2 ^ 63) \<le> v" and "v < 2 ^ 63" and "ends_value r"
  shows "parse_number n (int_string v @ r) = Inr (TInt v, r)"
proof -
  let ?d = "dec_string (nat \<bar>v\<bar>)"
  obtain c t where d: "?d = c # t" by (cases ?d) auto
  have c: "is_number c" using dec_string_number [of "nat \<bar>v\<bar>"] d by simp
  have lead: "t = []" if "c = CHR ''0''" using dec_string_leading [of "nat \<bar>v\<bar>"] that d by simp
  have zero: "check_no_leading_zero n r (?d @ r) = Inr ()"
    using lead by (auto simp: check_no_leading_zero_def d starts_def)
  have no_prefix: "\<not> (starts (\<lambda>c. c = CHR ''0'') (int_string v @ r) \<and> length (tl (int_string v @ r)) \<noteq> length r)"
    using lead d by (auto simp: int_string_def starts_def split: if_splits)
  have num: "eat_number_digits n is_number (?d @ r) = Inr r"
    using ends_number_char [OF assms(3)] digit_char dec_string_number
    by (intro eat_number_digits_run) (auto simp: starts_def is_number_char_def)
  have "\<not> starts (\<lambda>c. c = CHR ''.'' \<or> is_e c) r"
    using assms(3) by (rule ends_value_not) (auto simp: is_e_def)
  moreover have "take 3 (?d @ r) \<noteq> ''inf''" "take 3 (?d @ r) \<noteq> ''nan''"
    using d digit_char [OF c] by auto
  moreover have "between (int_string v @ r) r = int_string v" by (simp add: between_def)
  moreover have "remove_underscores (int_string v) = int_string v"
    using int_string_digits [of "CHR ''_''" v] unfolding remove_underscores_def filter_id_conv
    by (auto simp: is_digit_of_def digit_value_def)
  ultimately show ?thesis
    using assms no_prefix zero num
    by (auto simp: parse_number_def Let_def find_end_int_string eat_sign_int_string parse_int_def
        stoll_int_string)
qed

lemma determine_int_string:
  assumes "ends_value r"
  shows "determine_number_type n (int_string v @ r) = Inr INT64"
proof -
  obtain c t where d: "dec_string (nat \<bar>v\<bar>) = c # t" by (cases "dec_string (nat \<bar>v\<bar>)") auto
  have "is_number c" using dec_string_number [of "nat \<bar>v\<bar>"] d by simp
  moreover have "dropWhile is_number (dec_string (nat \<bar>v\<bar>) @ r) = r"
    using ends_number_char [OF assms] by (intro dropWhile_run) (auto simp: starts_def is_number_char_def)
  moreover have "\<not> starts (\<lambda>c. c = CHR ''.'') r" using assms by (rule ends_value_not) auto
  ultimately show ?thesis
    using d digit_char [of c] by (auto simp: determine_number_type_def eat_sign_int_string)
qed

end
