(* ===== verification/Toml_Date.thy ===== *)
theory Toml_Date
  imports Toml_Number
begin

text \<open>
  Dates and times of \<open>cpptoml\<close>: how they are recognised (\<open>is_time\<close>, \<open>date_type\<close>), read
  (\<open>read_time\<close>, \<open>parse_time\<close>, \<open>parse_date\<close>) and written (the stream operators).

  \<open>find_end_of_date\<close> and \<open>find_end_of_time\<close> give the end of the range that is read; the consumer
  works inside that range, and the rest of the line is put back behind it.
\<close>

section \<open>Recognition\<close>

definition is_time_char :: "char \<Rightarrow> bool" where
  "is_time_char c \<longleftrightarrow> is_number c \<or> c = CHR '':'' \<or> c = CHR ''.''"

definition find_end_of_time :: "string \<Rightarrow> string" where
  "find_end_of_time s = dropWhile is_time_char s"

definition is_date_char :: "char \<Rightarrow> bool" where
  "is_date_char c \<longleftrightarrow> is_number c \<or> c \<in> set ''TZ:-+.''"

definition find_end_of_date :: "string \<Rightarrow> string" where
  "find_end_of_date s =
     (let e = dropWhile (\<lambda>c. is_number c \<or> c = CHR ''-'') s;
          e' = (if starts (\<lambda>c. c = CHR '' '') e \<and> starts is_number (tl e) then tl e else e)
      in dropWhile is_date_char e')"

definition is_time :: "string \<Rightarrow> bool" where
  "is_time s =
     (let len = length (between s (find_end_of_time s)) in
      if len < 8 then False
      else if s ! 2 \<noteq> CHR '':'' \<or> s ! 5 \<noteq> CHR '':'' then False
      else if len > 8 then s ! 8 = CHR ''.'' \<and> len > 9
      else True)"

definition date_type :: "string \<Rightarrow> parse_type option" where
  "date_type s =
     (let range = between s (find_end_of_date s); len = length range in
      if len < 10 then None
      else if s ! 4 \<noteq> CHR ''-'' \<or> s ! 7 \<noteq> CHR ''-'' then None
      else if len \<ge> 19 \<and> (s ! 10 = CHR ''T'' \<or> s ! 10 = CHR '' '') \<and> is_time (drop 11 range) then
        (if find_end_of_time (drop 11 range) = [] then Some LOCAL_DATETIME else Some OFFSET_DATETIME)
      else if len = 10 then Some LOCAL_DATE
      else None)"

section \<open>Reading\<close>

text \<open>The loop over the digits of the fraction; from the seventh on the place value is 0.\<close>

fun read_fraction :: "int \<Rightarrow> int \<Rightarrow> string \<Rightarrow> int \<times> string" where
  "read_fraction place us [] = (us, [])"
| "read_fraction place us (c # s) =
     (if is_number c then read_fraction (place div 10) (us + place * int (digit_value c)) s
      else (us, c # s))"

text \<open>\<open>read_time\<close> on the range between its iterators; the rest of the range is returned.\<close>

definition read_time :: "nat \<Rightarrow> string \<Rightarrow> (local_time \<times> string) result" where
  "read_time n s =
     (let time_end = find_end_of_time s; t0 = between s time_end; err = ''Malformed time'' in
      bind_result (eat_digits n err 2 t0) (\<lambda>(h, t1).
      bind_result (eat n err CHR '':'' t1) (\<lambda>t2.
      bind_result (eat_digits n err 2 t2) (\<lambda>(m, t3).
      bind_result (eat n err CHR '':'' t3) (\<lambda>t4.
      bind_result (eat_digits n err 2 t4) (\<lambda>(sec, t5).
      let (us, t6) = (if starts (\<lambda>c. c = CHR ''.'') t5 then read_fraction 100000 0 (tl t5) else (0, t5)) in
      if t6 \<noteq> [] then throw_at n err
      else Inr (\<lparr>hour = h, minute = m, second = sec, microsecond = us\<rparr>, time_end)))))))"

definition parse_time :: "nat \<Rightarrow> string \<Rightarrow> (toml \<times> string) result" where
  "parse_time n s = bind_result (read_time n s) (\<lambda>(t, r). Inr (TLocalTime t, r))"

text \<open>The zone at the end of a date: an offset, a Z, or nothing.\<close>

definition read_offset :: "nat \<Rightarrow> string \<Rightarrow> (zone_offset \<times> string) result" where
  "read_offset n d =
     (let err = ''Malformed date'' in
      if hd d = CHR ''+'' \<or> hd d = CHR ''-'' then
        let plus = (hd d = CHR ''+'') in
        bind_result (eat_digits n err 2 (tl d)) (\<lambda>(hoff, d1).
        bind_result (eat n err CHR '':'' d1) (\<lambda>d2.
        bind_result (eat_digits n err 2 d2) (\<lambda>(moff, d3).
        Inr (\<lparr>hour_offset = (if plus then hoff else - hoff),
              minute_offset = (if plus then moff else - moff)\<rparr>, d3))))
      else if hd d = CHR ''Z'' then Inr (\<lparr>hour_offset = 0, minute_offset = 0\<rparr>, tl d)
      else Inr (\<lparr>hour_offset = 0, minute_offset = 0\<rparr>, d))"

definition read_date :: "nat \<Rightarrow> string \<Rightarrow> (local_date \<times> string) result" where
  "read_date n d0 =
     (let err = ''Malformed date'' in
      bind_result (eat_digits n err 4 d0) (\<lambda>(y, d1).
      bind_result (eat n err CHR ''-'' d1) (\<lambda>d2.
      bind_result (eat_digits n err 2 d2) (\<lambda>(m, d3).
      bind_result (eat n err CHR ''-'' d3) (\<lambda>d4.
      bind_result (eat_digits n err 2 d4) (\<lambda>(d, d5).
      Inr (\<lparr>year = y, month = m, day = d\<rparr>, d5)))))))"

definition parse_date :: "nat \<Rightarrow> string \<Rightarrow> (toml \<times> string) result" where
  "parse_date n s =
     (let date_end = find_end_of_date s; err = ''Malformed date'' in
      bind_result (read_date n (between s date_end)) (\<lambda>(ldate, d5).
      if d5 = [] then Inr (TLocalDate ldate, date_end)
      else bind_result (eat_or n err CHR ''T'' CHR '' '' d5) (\<lambda>d6.
        bind_result (read_time n d6) (\<lambda>(ltime, d7).
        let ldt = \<lparr>date_part = ldate, time_part = ltime\<rparr> in
        if d7 = [] then Inr (TLocalDatetime ldt, date_end)
        else bind_result (read_offset n d7) (\<lambda>(zone, d8).
          if d8 \<noteq> [] then throw_at n err
          else Inr (TOffsetDatetime \<lparr>local_part = ldt, offset_part = zone\<rparr>, date_end))))))"

section \<open>Writing\<close>

text \<open>
  \<open>setw (w)\<close> with the fill character 0 pads on the left, in front of a sign. The fraction is
  written from the first place value on until nothing is left, which is so after six places.
\<close>

definition setw :: "nat \<Rightarrow> int \<Rightarrow> string" where
  "setw w v = (let ds = int_string v in replicate (w - length ds) CHR ''0'' @ ds)"

definition date_text :: "local_date \<Rightarrow> string" where
  "date_text d = setw 4 (year d) @ ''-'' @ setw 2 (month d) @ ''-'' @ setw 2 (day d)"

fun fraction_text :: "nat \<Rightarrow> int \<Rightarrow> int \<Rightarrow> string" where
  "fraction_text 0 place us = []"
| "fraction_text (Suc fuel) place us =
     (if us = 0 then []
      else int_string (us div place) @ fraction_text fuel (place div 10) (us - us div place * place))"

definition time_text :: "local_time \<Rightarrow> string" where
  "time_text t =
     setw 2 (hour t) @ '':'' @ setw 2 (minute t) @ '':'' @ setw 2 (second t)
     @ (if microsecond t > 0 then ''.'' @ fraction_text 6 100000 (microsecond t) else [])"

definition zone_text :: "zone_offset \<Rightarrow> string" where
  "zone_text z =
     (if hour_offset z \<noteq> 0 \<or> minute_offset z \<noteq> 0 then
        (if hour_offset z > 0 then ''+'' else ''-'')
        @ setw 2 \<bar>hour_offset z\<bar> @ '':'' @ setw 2 \<bar>minute_offset z\<bar>
      else ''Z'')"

definition local_datetime_text :: "local_datetime \<Rightarrow> string" where
  "local_datetime_text dt = date_text (date_part dt) @ ''T'' @ time_text (time_part dt)"

definition offset_datetime_text :: "offset_datetime \<Rightarrow> string" where
  "offset_datetime_text dt = local_datetime_text (local_part dt) @ zone_text (offset_part dt)"

section \<open>Round trips\<close>

lemma between_append [simp]: "between (s @ r) r = s"
  by (simp add: between_def)

lemma digits_bound: "k < 10 ^ w \<Longrightarrow> 0 < w \<Longrightarrow> length (dec_string k) \<le> w"
  using length_le_digits [of 10 k w] by (auto simp: dec_string_def)

lemma number_of_zeros: "number_of 10 (replicate k CHR ''0'' @ ds) = number_of 10 ds"
  by (induction k) (simp_all add: number_of_def digit_value_def)

lemma is_number_0 [simp]: "is_number CHR ''0''"
  by (simp add: is_number_def)

lemma setw_digits:
  assumes "0 \<le> v" and "v < 10 ^ w" and "0 < w"
  shows "length (setw w v) = w" and "\<forall>c \<in> set (setw w v). is_number c"
    and "int (number_of 10 (setw w v)) = v"
proof -
  have "nat v < 10 ^ w" using assms(1,2) by (simp add: nat_less_iff)
  then show "length (setw w v) = w"
    using digits_bound [of "nat v" w] assms by (simp add: setw_def int_string_def Let_def)
  show "\<forall>c \<in> set (setw w v). is_number c"
    using assms(1) by (auto simp: setw_def int_string_def Let_def)
  show "int (number_of 10 (setw w v)) = v"
    using assms(1) by (simp add: setw_def int_string_def number_of_zeros Let_def)
qed

lemma setw_number: "c \<in> set (setw w v) \<Longrightarrow> 0 \<le> v \<Longrightarrow> is_number c"
  by (auto simp: setw_def int_string_def Let_def)

lemma eat_digits_from_run:
  "\<forall>c \<in> set ds. is_number c \<Longrightarrow>
   eat_digits_from n err (length ds) val (ds @ r) =
     Inr (10 ^ length ds * val + int (number_of 10 ds), r)"
  by (induction ds arbitrary: val) (simp_all add: starts_def number_of_def algebra_simps)

lemma eat_digits_setw:
  assumes "0 \<le> v" and "v < 10 ^ w" and "0 < w"
  shows "eat_digits n err w (setw w v @ r) = Inr (v, r)"
  using eat_digits_from_run [of "setw w v" n err 0 r] setw_digits [OF assms]
  by (simp add: eat_digits_def)

lemma eat_Cons [simp]: "eat n err c (c # s) = Inr s"
  by (simp add: eat_def starts_def)

definition date_ok :: "local_date \<Rightarrow> bool" where
  "date_ok d \<longleftrightarrow> 0 \<le> year d \<and> year d < 10000 \<and> 0 \<le> month d \<and> month d < 100 \<and> 0 \<le> day d \<and> day d < 100"

definition time_ok :: "local_time \<Rightarrow> bool" where
  "time_ok t \<longleftrightarrow> 0 \<le> hour t \<and> hour t < 100 \<and> 0 \<le> minute t \<and> minute t < 100
     \<and> 0 \<le> second t \<and> second t < 100 \<and> 0 \<le> microsecond t \<and> microsecond t < 1000000"

lemma read_date_text: "date_ok d \<Longrightarrow> read_date n (date_text d @ r) = Inr (d, r)"
  by (simp add: read_date_def date_text_def date_ok_def eat_digits_setw)

lemma fraction_text_digits:
  "0 \<le> us \<Longrightarrow> us < 10 ^ Suc k \<Longrightarrow> \<forall>c \<in> set (fraction_text (Suc k) (10 ^ k) us). is_number c"
proof (induction k arbitrary: us)
  case 0
  then show ?case by (auto simp: int_string_def)
next
  case (Suc k)
  have "us - us div 10 ^ Suc k * 10 ^ Suc k = us mod 10 ^ Suc k"
    by (simp add: minus_div_mult_eq_mod)
  moreover have "(10 :: int) ^ Suc k div 10 = 10 ^ k" by simp
  moreover have "\<forall>c \<in> set (fraction_text (Suc k) (10 ^ k) (us mod 10 ^ Suc k)). is_number c"
    by (rule Suc.IH) auto
  moreover have "0 \<le> us div 10 ^ Suc k" using Suc.prems by (simp add: pos_imp_zdiv_nonneg_iff)
  ultimately show ?case
    by (subst fraction_text.simps) (auto simp: int_string_def simp del: power_Suc fraction_text.simps)
qed

lemma dec_string_digit: "d < 10 \<Longrightarrow> dec_string d = [hex_char d]"
  by (cases "d = 0") (simp_all add: dec_string_def le_digits.simps [of 10 d] le_digits.simps [of 10 0])

lemma is_number_hex_char [simp]: "d < 10 \<Longrightarrow> is_number (hex_char d)"
  by (simp add: is_number_iff)

lemma read_fraction_stop: "\<not> starts is_number r \<Longrightarrow> read_fraction place us r = (us, r)"
  by (cases r) (auto simp: starts_def)

lemma read_fraction_text:
  "0 \<le> us \<Longrightarrow> us < 10 ^ Suc k \<Longrightarrow> \<not> starts is_number r \<Longrightarrow>
   read_fraction (10 ^ k) acc (fraction_text (Suc k) (10 ^ k) us @ r) = (acc + us, r)"
proof (induction k arbitrary: us acc)
  case 0
  then have "int_string us = [hex_char (nat us)]" "nat us < 10" by (simp_all add: int_string_def dec_string_digit)
  then show ?case using 0 by (cases "us = 0") (simp_all add: read_fraction_stop)
next
  case (Suc k)
  let ?p = "10 ^ Suc k :: int"
  show ?case
  proof (cases "us = 0")
    case True
    then show ?thesis using Suc.prems by (simp add: read_fraction_stop)
  next
    case False
    have "us div ?p < 10"
    proof (rule ccontr)
      assume "\<not> us div ?p < 10"
      then have "10 * ?p \<le> us div ?p * ?p" by (intro mult_right_mono) auto
      also have "\<dots> \<le> us" using div_mult_mod_eq [of us ?p] by (metis add_increasing2 order_refl pos_mod_sign zero_less_numeral zero_less_power)
      finally show False using Suc.prems(2) by simp
    qed
    then have d: "0 \<le> us div ?p" "us div ?p < 10"
      using Suc.prems by (simp_all add: pos_imp_zdiv_nonneg_iff)
    have digit: "int_string (us div ?p) = [hex_char (nat (us div ?p))]"
      using d by (simp add: int_string_def dec_string_digit)
    have "us - us div ?p * ?p = us mod ?p" and p: "?p div 10 = 10 ^ k"
      by (simp_all add: minus_div_mult_eq_mod)
    then have unfolded: "fraction_text (Suc (Suc k)) ?p us
        = hex_char (nat (us div ?p)) # fraction_text (Suc k) (10 ^ k) (us mod ?p)"
      using False digit by (subst fraction_text.simps) (simp del: power_Suc fraction_text.simps)
    have "read_fraction (10 ^ k) (acc + ?p * (us div ?p)) (fraction_text (Suc k) (10 ^ k) (us mod ?p) @ r)
        = (acc + ?p * (us div ?p) + us mod ?p, r)"
      using Suc.prems by (intro Suc.IH) auto
    moreover have "acc + ?p * (us div ?p) + us mod ?p = acc + us" by simp
    ultimately show ?thesis
      unfolding unfolded using d p by (simp del: power_Suc fraction_text.simps)
  qed
qed

lemma is_time_char_number: "is_number c \<Longrightarrow> is_time_char c"
  by (simp add: is_time_char_def)

lemma time_text_chars: "time_ok t \<Longrightarrow> \<forall>c \<in> set (time_text t). is_time_char c"
proof -
  assume t: "time_ok t"
  then have "\<forall>c \<in> set (setw 2 (hour t)) \<union> set (setw 2 (minute t)) \<union> set (setw 2 (second t)).
      is_number c"
    by (auto simp: time_ok_def dest: setw_number)
  moreover have "\<forall>c \<in> set (fraction_text 6 100000 (microsecond t)). is_number c"
    using t fraction_text_digits [of "microsecond t" 5] by (simp add: time_ok_def)
  ultimately show ?thesis
    by (auto simp: time_text_def is_time_char_def simp del: fraction_text.simps split: if_splits)
qed

lemma find_end_of_time_text:
  "time_ok t \<Longrightarrow> \<not> starts is_time_char r \<Longrightarrow> find_end_of_time (time_text t @ r) = r"
  unfolding find_end_of_time_def by (rule dropWhile_run [OF time_text_chars])

lemma read_time_text:
  assumes "time_ok t" and "\<not> starts is_time_char r"
  shows "read_time n (time_text t @ r) = Inr (t, r)"
proof -
  let ?f = "fraction_text 6 100000 (microsecond t)"
  have frac: "read_fraction 100000 0 ?f = (microsecond t, [])"
    using assms(1) read_fraction_text [of "microsecond t" 5 "[]" 0] by (simp add: time_ok_def starts_def)
  have digits: "eat_digits n err 2 (setw 2 (hour t) @ x) = Inr (hour t, x)"
    "eat_digits n err 2 (setw 2 (minute t) @ x) = Inr (minute t, x)"
    "eat_digits n err 2 (setw 2 (second t) @ x) = Inr (second t, x)" for err x
    using assms(1) by (simp_all add: time_ok_def eat_digits_setw)
  have us: "microsecond t = 0" if "\<not> 0 < microsecond t" using assms(1) that by (simp add: time_ok_def)
  show ?thesis
    unfolding read_time_def Let_def find_end_of_time_text [OF assms] between_append
    unfolding time_text_def
    using digits(3) [of _ "[]"] frac us
    by (simp add: digits starts_def del: fraction_text.simps)
qed

text \<open>An offset comes back as written, unless it is less than an hour ahead of UTC.\<close>

definition zone_ok :: "zone_offset \<Rightarrow> bool" where
  "zone_ok z \<longleftrightarrow> \<bar>hour_offset z\<bar> < 100 \<and> \<bar>minute_offset z\<bar> < 100
     \<and> 0 \<le> hour_offset z * minute_offset z"

definition zone_back :: "zone_offset \<Rightarrow> zone_offset" where
  "zone_back z = (if hour_offset z = 0 then z\<lparr>minute_offset := - \<bar>minute_offset z\<bar>\<rparr> else z)"

lemma zone_text_ne [simp]: "zone_text z \<noteq> []"
  by (simp add: zone_text_def)

lemma read_offset_text: "zone_ok z \<Longrightarrow> read_offset n (zone_text z) = Inr (zone_back z, [])"
proof -
  assume z: "zone_ok z"
  consider "0 < hour_offset z" "0 \<le> minute_offset z" | "hour_offset z < 0" "minute_offset z \<le> 0"
    | "hour_offset z = 0"
    using z by (cases "hour_offset z" "0 :: int" rule: linorder_cases)
      (auto simp: zone_ok_def zero_le_mult_iff)
  then show ?thesis
    using z eat_digits_setw [of _ 2 n _ "[]"]
    by cases (auto simp: read_offset_def zone_text_def Let_def zone_back_def zone_ok_def eat_digits_setw)
qed

lemma zone_text_chars: "zone_ok z \<Longrightarrow> \<forall>c \<in> set (zone_text z). is_date_char c"
proof -
  assume "zone_ok z"
  then have "\<forall>c \<in> set (setw 2 \<bar>hour_offset z\<bar>) \<union> set (setw 2 \<bar>minute_offset z\<bar>). is_number c"
    by (auto dest: setw_number)
  then show ?thesis by (auto simp: zone_text_def is_date_char_def)
qed

lemma date_text_chars:
  "date_ok d \<Longrightarrow> \<forall>c \<in> set (date_text d). is_number c \<or> c = CHR ''-''"
proof -
  assume "date_ok d"
  then have "\<forall>c \<in> set (setw 4 (year d)) \<union> set (setw 2 (month d)) \<union> set (setw 2 (day d)). is_number c"
    by (auto simp: date_ok_def dest: setw_number)
  then show ?thesis by (auto simp: date_text_def)
qed

lemma ends_date_char: "ends_value r \<Longrightarrow> \<not> starts is_date_char r"
  by (rule ends_value_not) (auto simp: is_date_char_def is_number_def less_eq_char_def)

lemma time_char_date: "is_time_char c \<Longrightarrow> is_date_char c"
  by (auto simp: is_time_char_def is_date_char_def)

lemma ends_time_char: "ends_value r \<Longrightarrow> \<not> starts is_time_char r"
  using ends_date_char time_char_date by (auto simp: starts_def)

lemma find_end_of_date_text:
  assumes "date_ok d" and "ends_value r"
  shows "find_end_of_date (date_text d @ r) = r"
proof -
  have "\<not> starts (\<lambda>c. is_number c \<or> c = CHR ''-'') r"
    using ends_date_char [OF assms(2)] by (auto simp: starts_def is_date_char_def)
  then have "dropWhile (\<lambda>c. is_number c \<or> c = CHR ''-'') (date_text d @ r) = r"
    by (rule dropWhile_run [OF date_text_chars [OF assms(1)]])
  moreover have "starts (\<lambda>c. c = CHR '' '') r \<Longrightarrow> \<not> starts is_number (tl r)"
    using assms(2) by (auto simp: ends_value_def starts_def)
  moreover have "dropWhile is_date_char r = r"
    using dropWhile_run [of "[]" is_date_char r] ends_date_char [OF assms(2)] by simp
  ultimately show ?thesis by (auto simp: find_end_of_date_def Let_def)
qed

lemma find_end_of_datetime_text:
  assumes "date_ok d" and "ends_value r" and "\<forall>c \<in> set x. is_date_char c"
  shows "find_end_of_date (date_text d @ CHR ''T'' # x @ r) = r"
proof -
  have "dropWhile (\<lambda>c. is_number c \<or> c = CHR ''-'') (date_text d @ CHR ''T'' # x @ r) = CHR ''T'' # x @ r"
    by (rule dropWhile_run [OF date_text_chars [OF assms(1)]]) (simp add: starts_def is_number_def)
  moreover have "dropWhile is_date_char ((CHR ''T'' # x) @ r) = r"
    using assms(3) ends_date_char [OF assms(2)] by (intro dropWhile_run) (auto simp: is_date_char_def)
  ultimately show ?thesis by (simp add: find_end_of_date_def starts_def)
qed

lemma parse_time_text:
  "time_ok t \<Longrightarrow> ends_value r \<Longrightarrow> parse_time n (time_text t @ r) = Inr (TLocalTime t, r)"
  by (simp add: parse_time_def read_time_text ends_time_char)

lemma parse_date_text:
  "date_ok d \<Longrightarrow> ends_value r \<Longrightarrow> parse_date n (date_text d @ r) = Inr (TLocalDate d, r)"
  using read_date_text [of d n "[]"] by (simp add: parse_date_def find_end_of_date_text)

lemma zone_not_time_char: "\<not> starts is_time_char (zone_text z)"
  by (auto simp: zone_text_def starts_def is_time_char_def is_number_def less_eq_char_def)

definition datetime_ok :: "local_datetime \<Rightarrow> bool" where
  "datetime_ok dt \<longleftrightarrow> date_ok (date_part dt) \<and> time_ok (time_part dt)"

lemma find_end_local_datetime:
  "datetime_ok dt \<Longrightarrow> ends_value r \<Longrightarrow> \<forall>c \<in> set x. is_date_char c \<Longrightarrow>
   find_end_of_date (local_datetime_text dt @ x @ r) = r"
  using find_end_of_datetime_text [of "date_part dt" r "time_text (time_part dt) @ x"]
    time_text_chars [of "time_part dt"] time_char_date
  by (auto simp: local_datetime_text_def datetime_ok_def)

lemma parse_local_datetime_text:
  assumes "datetime_ok dt" and "ends_value r"
  shows "parse_date n (local_datetime_text dt @ r) = Inr (TLocalDatetime dt, r)"
proof -
  have e: "find_end_of_date (local_datetime_text dt @ r) = r"
    using find_end_local_datetime [OF assms, of "[]"] by simp
  show ?thesis
    using assms read_time_text [of "time_part dt" "[]"]
    unfolding parse_date_def Let_def e between_append
    by (simp add: local_datetime_text_def datetime_ok_def read_date_text eat_or_def starts_def)
qed

lemma parse_offset_datetime_text:
  assumes "datetime_ok dt" and "zone_ok z" and "ends_value r"
  shows "parse_date n (local_datetime_text dt @ zone_text z @ r)
    = Inr (TOffsetDatetime \<lparr>local_part = dt, offset_part = zone_back z\<rparr>, r)"
proof -
  have e: "find_end_of_date (local_datetime_text dt @ zone_text z @ r) = r"
    by (rule find_end_local_datetime [OF assms(1,3) zone_text_chars [OF assms(2)]])
  have b: "between (local_datetime_text dt @ zone_text z @ r) r = local_datetime_text dt @ zone_text z"
    using between_append [of "local_datetime_text dt @ zone_text z" r] by simp
  show ?thesis
    using assms read_time_text [OF _ zone_not_time_char] read_offset_text
    unfolding parse_date_def Let_def e b
    by (simp add: local_datetime_text_def datetime_ok_def read_date_text eat_or_def starts_def)
qed

text \<open>What \<open>is_time\<close> and \<open>date_type\<close> say of the texts that are written.\<close>

lemma nth_setw: "0 \<le> v \<Longrightarrow> v < 100 \<Longrightarrow> length (setw 2 v) = 2"
  using setw_digits(1) [of v 2] by simp

lemma fraction_text_ne: "0 < us \<Longrightarrow> fraction_text (Suc k) place us \<noteq> []"
  by (simp add: int_string_def)

lemma is_time_text:
  assumes "time_ok t" and "\<not> starts is_time_char r"
  shows "is_time (time_text t @ r)"
proof -
  have len: "length (setw 2 (hour t)) = 2" "length (setw 2 (minute t)) = 2" "length (setw 2 (second t)) = 2"
    using assms(1) by (simp_all add: time_ok_def nth_setw)
  have f: "fraction_text 6 100000 (microsecond t) \<noteq> []" if "0 < microsecond t"
    using fraction_text_ne [OF that, of 5 100000] by simp
  show ?thesis
    unfolding is_time_def find_end_of_time_text [OF assms] between_append
    using f by (simp add: time_text_def len nth_append Let_def del: fraction_text.simps)
qed

lemma length_date_text: "date_ok d \<Longrightarrow> length (date_text d) = 10"
  using setw_digits(1) [of "year d" 4] by (simp add: date_text_def date_ok_def nth_setw)

lemma nth_date_text:
  "date_ok d \<Longrightarrow> (date_text d @ x) ! 4 = CHR ''-'' \<and> (date_text d @ x) ! 7 = CHR ''-''"
  using setw_digits(1) [of "year d" 4] by (simp add: date_text_def date_ok_def nth_setw nth_append)

lemma date_type_date: "date_ok d \<Longrightarrow> ends_value r \<Longrightarrow> date_type (date_text d @ r) = Some LOCAL_DATE"
  by (simp add: date_type_def find_end_of_date_text length_date_text nth_date_text Let_def)

lemma length_time_text: "time_ok t \<Longrightarrow> 8 \<le> length (time_text t)"
  by (simp add: time_text_def time_ok_def nth_setw)

lemma date_type_datetime:
  assumes "datetime_ok dt" and "ends_value r" and "\<forall>c \<in> set x. is_date_char c"
    and "\<not> starts is_time_char x"
  shows "date_type (local_datetime_text dt @ x @ r)
    = Some (if x = [] then LOCAL_DATETIME else OFFSET_DATETIME)"
proof -
  have range: "between (local_datetime_text dt @ x @ r) (find_end_of_date (local_datetime_text dt @ x @ r))
      = local_datetime_text dt @ x"
    using between_append [of "local_datetime_text dt @ x" r] find_end_local_datetime [OF assms(1-3)] by simp
  have t: "time_ok (time_part dt)" and d: "date_ok (date_part dt)"
    using assms(1) by (simp_all add: datetime_ok_def)
  have drop: "drop 11 (local_datetime_text dt @ x) = time_text (time_part dt) @ x"
    using length_date_text [OF d] by (simp add: local_datetime_text_def)
  have nth: "(local_datetime_text dt @ x @ r) ! 10 = CHR ''T''"
    using length_date_text [OF d] by (simp add: local_datetime_text_def nth_append)
  have dashes: "(local_datetime_text dt @ x @ r) ! 4 = CHR ''-''" "(local_datetime_text dt @ x @ r) ! 7 = CHR ''-''"
    using nth_date_text [OF d] by (simp_all add: local_datetime_text_def)
  have len: "19 \<le> length (local_datetime_text dt @ x)"
    using length_date_text [OF d] length_time_text [OF t] by (simp add: local_datetime_text_def)
  show ?thesis
    using len find_end_of_time_text [OF t assms(4)] is_time_text [OF t assms(4)] dashes nth
    unfolding date_type_def range Let_def drop by simp
qed

end
