(* ===== verification/Toml_Parser.thy ===== *)
theory Toml_Parser
  imports Toml_Date
begin

text \<open>
  \<open>cpptoml::parser\<close>: values, arrays, inline tables, keys with their values, table headers and the
  loop over the lines, with the three merge modes, and \<open>parse_base_and_override_files\<close>.

  The parser works on the record \<open>parser\<close> (its stream and options) and on what is left of the
  current line. The current table, a raw pointer in the library, is the list of keys that leads to
  it from the root, where a key that holds an array of tables stands for its last element.

  The functions for values call each other and read further lines, so they take fuel; \<open>None\<close> is
  running out of it. \<open>Toml_Total\<close> shows that the fuel that \<open>parse\<close> starts with is always enough.
\<close>

section \<open>State, fuel\<close>

datatype merge_type = Merge_none | Merge_replace | Merge_ignore

record parser =
  input :: istream
  merge_mode :: merge_type
  stringify_values :: bool
  line_number :: nat

type_synonym 'a fuelled = "'a result option"

definition bind_fuel :: "'a fuelled \<Rightarrow> ('a \<Rightarrow> 'b fuelled) \<Rightarrow> 'b fuelled" where
  "bind_fuel m f = (case m of None \<Rightarrow> None | Some (Inl e) \<Rightarrow> Some (Inl e) | Some (Inr x) \<Rightarrow> f x)"

definition throw_parse_exception :: "parser \<Rightarrow> string \<Rightarrow> 'a result" where
  "throw_parse_exception P err = throw_at (line_number P) err"

definition next_line :: "istream \<Rightarrow> parser \<Rightarrow> parser" where
  "next_line i P = P\<lparr>input := i, line_number := line_number P + 1\<rparr>"

text \<open>The size of a stream: the lines it still gives, the empty one at the end included.\<close>

definition stream_size :: "istream \<Rightarrow> nat" where
  "stream_size i = (if eofbit i then 0 else length (stream_buf i) + (if stream_buf i = [] then 1 else 2))"

lemma take_line_size:
  "take_line s = (l, Some r) \<Longrightarrow> length l + length r < length s"
  "take_line s = (l, None) \<Longrightarrow> l = s"
  by (induction s arbitrary: l rule: take_line.induct) (auto split: if_splits prod.splits)

lemma getline_size: "getline i = Some (l, i') \<Longrightarrow> length l + stream_size i' < stream_size i"
  by (auto simp: getline_def stream_size_def split: if_splits prod.splits option.splits
      dest: take_line_size)

section \<open>Strings\<close>

text \<open>
  The lambda \<open>handle_line\<close>: its loop over a line returns whether the string ended, whether white
  space is being consumed, the text so far and the rest of the line.
\<close>

function multiline_loop :: "nat \<Rightarrow> char \<Rightarrow> string \<Rightarrow> string \<Rightarrow> (bool \<times> bool \<times> string \<times> string) result" where
  "multiline_loop n delim ss s =
     (if s = [] then Inr (False, False, ss, [])
      else if delim = CHR 0x22 \<and> hd s = CHR 0x5C then
        if consume_whitespace (tl s) = [] then Inr (False, True, ss, s)
        else bind_result (parse_escape_code n s) (\<lambda>(v, r). multiline_loop n delim (ss @ v) r)
      else if take 3 s = [delim, delim, delim] then Inr (True, False, ss, drop 3 s)
      else multiline_loop n delim (ss @ [hd s]) (tl s))"
  by pat_completeness auto
termination
  by (relation "measure (\<lambda>(n, delim, ss, s). length s)")
     (auto dest: parse_escape_code_suffix suffix_length_less)

declare multiline_loop.simps [simp del]

definition handle_line :: "nat \<Rightarrow> char \<Rightarrow> bool \<Rightarrow> string \<Rightarrow> string
    \<Rightarrow> (bool \<times> bool \<times> string \<times> string) result" where
  "handle_line n delim consuming ss s =
     (if consuming then
        let s' = dropWhile is_ws s in
        if s' = [] then Inr (False, True, ss, []) else multiline_loop n delim ss s'
      else multiline_loop n delim ss s)"

function multiline_lines :: "parser \<Rightarrow> char \<Rightarrow> bool \<Rightarrow> string \<Rightarrow> (string \<times> string \<times> parser) result" where
  "multiline_lines P delim consuming ss =
     (case getline (input P) of
        None \<Rightarrow> throw_parse_exception P ''Unterminated multi-line basic string''
      | Some (line, i) \<Rightarrow>
          let P' = next_line i P in
          bind_result (handle_line (line_number P') delim consuming ss line)
            (\<lambda>(ended, consuming', ss', s).
               if ended then Inr (ss', s, P')
               else multiline_lines P' delim consuming' (if consuming' then ss' else ss' @ [CHR 0x0A])))"
  by pat_completeness auto
termination
  by (relation "measure (\<lambda>(P, delim, consuming, ss). stream_size (input P))")
     (auto simp: next_line_def dest!: getline_size)

declare multiline_lines.simps [simp del]

definition parse_multiline_string :: "parser \<Rightarrow> string \<Rightarrow> char \<Rightarrow> (toml \<times> string \<times> parser) result" where
  "parse_multiline_string P s delim =
     bind_result (handle_line (line_number P) delim False [] s) (\<lambda>(ended, consuming, ss, r).
       if ended then Inr (TString ss, r, P)
       else bind_result (multiline_lines P delim consuming ss) (\<lambda>(v, r', P'). Inr (TString v, r', P')))"

definition parse_string :: "parser \<Rightarrow> string \<Rightarrow> (toml \<times> string \<times> parser) result" where
  "parse_string P s =
     (let delim = hd s in
      if starts (\<lambda>c. c = delim) (tl s) \<and> starts (\<lambda>c. c = delim) (tl (tl s))
      then parse_multiline_string P (drop 3 s) delim
      else bind_result (string_literal (line_number P) s delim) (\<lambda>(v, r). Inr (TString v, r, P)))"

section \<open>Values\<close>

function skip_whitespace_and_comments :: "parser \<Rightarrow> string \<Rightarrow> (string \<times> parser) result" where
  "skip_whitespace_and_comments P s =
     (let s' = consume_whitespace s in
      if s' = [] \<or> hd s' = CHR ''#'' then
        (case getline (input P) of
           None \<Rightarrow> throw_parse_exception P ''Unclosed array''
         | Some (line, i) \<Rightarrow> skip_whitespace_and_comments (next_line i P) line)
      else Inr (s', P))"
  by pat_completeness auto
termination
  by (relation "measure (\<lambda>(P, s). stream_size (input P))")
     (auto simp: next_line_def dest!: getline_size)

declare skip_whitespace_and_comments.simps [simp del]

definition determine_value_type :: "nat \<Rightarrow> string \<Rightarrow> parse_type result" where
  "determine_value_type n s =
     (if s = [] then throw_at n ''Failed to parse value type''
      else if hd s = CHR 0x22 \<or> hd s = CHR 0x27 then Inr STRING
      else if is_time s then Inr LOCAL_TIME
      else case date_type s of
        Some dtype \<Rightarrow> Inr dtype
      | None \<Rightarrow>
          if is_number (hd s) \<or> is_sign (hd s) \<or> take 3 s = ''inf'' \<or> take 3 s = ''nan''
          then determine_number_type n s
          else if hd s = CHR ''t'' \<or> hd s = CHR ''f'' then Inr BOOL
          else if hd s = CHR ''['' then Inr ARRAY
          else if hd s = CHR ''{'' then Inr INLINE_TABLE
          else throw_at n ''Failed to parse value type'')"

text \<open>The values that are neither arrays nor inline tables.\<close>

definition parse_basic :: "parser \<Rightarrow> parse_type \<Rightarrow> string \<Rightarrow> (toml \<times> string \<times> parser) result" where
  "parse_basic P type s =
     (let n = line_number P; keep = (\<lambda>(v, r). Inr (v, r, P)) in
      case type of
        STRING \<Rightarrow> parse_string P s
      | LOCAL_TIME \<Rightarrow> bind_result (parse_time n s) keep
      | LOCAL_DATE \<Rightarrow> bind_result (parse_date n s) keep
      | LOCAL_DATETIME \<Rightarrow> bind_result (parse_date n s) keep
      | OFFSET_DATETIME \<Rightarrow> bind_result (parse_date n s) keep
      | INT64 \<Rightarrow> bind_result (parse_number n s) keep
      | FLOAT \<Rightarrow> bind_result (parse_number n s) keep
      | BOOL \<Rightarrow> bind_result (parse_bool n s) keep
      | _ \<Rightarrow> throw_at n ''Failed to parse value'')"

text \<open>With \<open>stringify_values\<close> the rest of the line in quotes becomes the value.\<close>

definition parse_simple_value :: "parser \<Rightarrow> parse_type \<Rightarrow> string \<Rightarrow> (toml \<times> string \<times> parser) result" where
  "parse_simple_value P type s =
     (if stringify_values P \<and> type \<noteq> STRING then
        bind_result (parse_basic P type s) (\<lambda>(_, r, P1).
          bind_result (parse_string P1 ([CHR 0x22] @ s @ [CHR 0x22])) (\<lambda>(v, _, P2). Inr (v, r, P2)))
      else parse_basic P type s)"

fun value_kind_of :: "parse_type \<Rightarrow> value_kind" where
  "value_kind_of STRING = K_string"
| "value_kind_of LOCAL_TIME = K_local_time"
| "value_kind_of LOCAL_DATE = K_local_date"
| "value_kind_of LOCAL_DATETIME = K_local_datetime"
| "value_kind_of OFFSET_DATETIME = K_offset_datetime"
| "value_kind_of FLOAT = K_double"
| "value_kind_of BOOL = K_bool"
| "value_kind_of _ = K_int"

section \<open>Tables under construction\<close>

fun table_at :: "string list \<Rightarrow> table \<Rightarrow> table" where
  "table_at [] t = t"
| "table_at (k # ks) t =
     (case map_of t k of
        Some (TTable s) \<Rightarrow> table_at ks s
      | Some (TTableArray _ ts) \<Rightarrow> table_at ks (last ts)
      | _ \<Rightarrow> [])"

fun update_at :: "string list \<Rightarrow> (table \<Rightarrow> table) \<Rightarrow> table \<Rightarrow> table" where
  "update_at [] f t = f t"
| "update_at (k # ks) f t =
     (case map_of t k of
        Some (TTable s) \<Rightarrow> insert_value k (TTable (update_at ks f s)) t
      | Some (TTableArray i ts) \<Rightarrow>
          insert_value k (TTableArray i (butlast ts @ [update_at ks f (last ts)])) t
      | _ \<Rightarrow> t)"

definition dotted :: "string \<Rightarrow> string \<Rightarrow> string" where
  "dotted full part = (if full \<noteq> [] then full @ ''.'' @ part else part)"

text \<open>
  The part handlers. \<open>header_part\<close> is the one of \<open>parse_single_table\<close>, also used (with its own
  messages) for the inner parts of an array header: its state is the root table, the current table,
  whether a table was inserted, and the name so far. \<open>array_part\<close> handles the end of an array
  header, \<open>key_part\<close> the inner parts of a key.
\<close>

type_synonym header_state = "table \<times> string list \<times> bool \<times> string"

definition header_part :: "nat \<Rightarrow> string \<Rightarrow> string \<Rightarrow> string \<Rightarrow> header_state \<Rightarrow> header_state result" where
  "header_part n empty_msg exists_msg part = (\<lambda>(tab, cur, inserted, full).
     if part = [] then throw_at n empty_msg
     else let full' = dotted full part in
       case map_of (table_at cur tab) part of
         Some (TTable _) \<Rightarrow> Inr (tab, cur @ [part], inserted, full')
       | Some (TTableArray _ _) \<Rightarrow> Inr (tab, cur @ [part], inserted, full')
       | Some _ \<Rightarrow> throw_at n (''Key '' @ full' @ exists_msg)
       | None \<Rightarrow> Inr (update_at cur (insert_value part (TTable [])) tab, cur @ [part], True, full'))"

definition array_part :: "nat \<Rightarrow> string \<Rightarrow> header_state \<Rightarrow> header_state result" where
  "array_part n part = (\<lambda>(tab, cur, inserted, full).
     if part = [] then throw_at n ''Empty component of table array name''
     else let full' = dotted full part in
       case map_of (table_at cur tab) part of
         Some (TTableArray inl ts) \<Rightarrow>
           if inl then throw_at n (''Static array '' @ full' @ '' cannot be appended to'')
           else Inr (update_at cur (insert_value part (TTableArray inl (ts @ [[]]))) tab,
                     cur @ [part], inserted, full')
       | Some _ \<Rightarrow> throw_at n (''Key '' @ full' @ '' is not a table array'')
       | None \<Rightarrow> Inr (update_at cur (insert_value part (TTableArray False [[]])) tab,
                      cur @ [part], inserted, full'))"

definition key_part :: "nat \<Rightarrow> string \<Rightarrow> table \<times> string list \<Rightarrow> (table \<times> string list) result" where
  "key_part n part = (\<lambda>(tab, cur).
     case map_of (table_at cur tab) part of
       Some (TTable _) \<Rightarrow> Inr (tab, cur @ [part])
     | Some _ \<Rightarrow> throw_at n (''Key '' @ part @ '' already exists as a value'')
     | None \<Rightarrow> Inr (update_at cur (insert_value part (TTable [])) tab, cur @ [part]))"

abbreviation closes :: "char \<Rightarrow> bool" where
  "closes c \<equiv> c = CHR '']''"

text \<open>
  \<open>parse_single_table\<close> and \<open>parse_table_array\<close> from behind the opening brackets, on the whole
  header: they return the tables and the new current table.
\<close>

definition parse_single_table :: "parser \<Rightarrow> string \<Rightarrow> table \<Rightarrow> (table \<times> string list) result" where
  "parse_single_table P s tab =
     (let n = line_number P;
          handler = header_part n ''Empty component of table name'' ''already exists as a value'' in
      if \<not> starts (\<lambda>c. \<not> closes c) s then throw_at n ''Table name cannot be empty''
      else bind_result (parse_key n closes handler s (tab, [], False, [])) (\<lambda>(part, s1, st).
        bind_result (handler part st) (\<lambda>(tab', cur, inserted, full).
          if s1 = [] then throw_at n (''Unterminated table declaration; did you forget a ''
                                      @ [CHR 0x27] @ '']'' @ [CHR 0x27] @ ''?'')
          else if hd s1 \<noteq> CHR '']''
          then throw_at n (''Unexpected character in table definition: '' @ [CHR 0x22] @ [hd s1] @ [CHR 0x22])
          else
            let t = table_at cur tab' in
            if \<not> inserted \<and> (t = [] \<or> list_ex (\<lambda>(k, v). is_value v) t) \<and> merge_mode P = Merge_none
            then throw_at n (''Redefinition of table '' @ full)
            else bind_result (eol_or_comment n (consume_whitespace (tl s1))) (\<lambda>_. Inr (tab', cur)))))"

definition parse_table_array :: "parser \<Rightarrow> string \<Rightarrow> table \<Rightarrow> (table \<times> string list) result" where
  "parse_table_array P s tab =
     (let n = line_number P; err = ''Unterminated table array name'';
          handler = header_part n ''Empty component of table array name'' '' already exists as a value'' in
      if \<not> starts (\<lambda>c. \<not> closes c) s then throw_at n ''Table array name cannot be empty''
      else bind_result (parse_key n closes handler s (tab, [], False, [])) (\<lambda>(part, s1, st).
        bind_result (if starts closes s1 then array_part n part st else handler part st)
          (\<lambda>(tab', cur, inserted, full).
            bind_result (eat n err CHR '']'' s1) (\<lambda>s2.
            bind_result (eat n err CHR '']'' s2) (\<lambda>s3.
            bind_result (eol_or_comment n (consume_whitespace s3)) (\<lambda>_. Inr (tab', cur)))))))"

definition parse_table :: "parser \<Rightarrow> string \<Rightarrow> table \<Rightarrow> (table \<times> string list) result" where
  "parse_table P s0 tab =
     (let s = tl s0 in
      if s = [] then throw_parse_exception P ''Unexpected end of table''
      else if hd s = CHR ''['' then parse_table_array P (tl s) tab
      else parse_single_table P s tab)"

section \<open>Values, arrays, inline tables and keys with values\<close>

text \<open>
  The bodies take the functions they call as arguments, the loops also the fuel for their
  iterations; the recursion is tied below. \<open>parse_value_array\<close> and \<open>parse_object_array\<close> have the
  elements read so far as argument, \<open>parse_inline_table\<close> its entries.
\<close>

type_synonym value_reader = "parser \<Rightarrow> string \<Rightarrow> (toml \<times> string \<times> parser) fuelled"
type_synonym entry_reader = "parser \<Rightarrow> string \<Rightarrow> table \<Rightarrow> string list \<Rightarrow> (table \<times> string \<times> parser) fuelled"

definition value_body :: "value_reader \<Rightarrow> value_reader \<Rightarrow> value_reader" where
  "value_body array_reader inline_reader P s =
     bind_fuel (Some (determine_value_type (line_number P) s)) (\<lambda>type.
       if type = ARRAY then array_reader P s
       else if type = INLINE_TABLE then inline_reader P s
       else Some (parse_simple_value P type s))"

fun parse_value_array :: "nat \<Rightarrow> value_reader \<Rightarrow> value_kind \<Rightarrow> parser \<Rightarrow> string \<Rightarrow> toml list
    \<Rightarrow> (toml \<times> string \<times> parser) fuelled" where
  "parse_value_array 0 reader k P s arr = None"
| "parse_value_array (Suc f) reader k P s arr =
     (if \<not> starts (\<lambda>c. \<not> closes c) s then Some (Inr (TArray arr, tl s, P))
      else bind_fuel (reader P s) (\<lambda>(v, s1, P1).
        if as_value k v = None then Some (throw_parse_exception P1 ''Arrays must be homogeneous'')
        else bind_fuel (Some (skip_whitespace_and_comments P1 s1)) (\<lambda>(s2, P2).
          if hd s2 \<noteq> CHR '','' then Some (Inr (TArray (arr @ [v]), tl s2, P2))
          else bind_fuel (Some (skip_whitespace_and_comments P2 (tl s2))) (\<lambda>(s3, P3).
            parse_value_array f reader k P3 s3 (arr @ [v])))))"

definition array_end :: "(toml list \<Rightarrow> toml) \<Rightarrow> toml list \<Rightarrow> string \<Rightarrow> parser
    \<Rightarrow> (toml \<times> string \<times> parser) fuelled" where
  "array_end mk arr s P =
     (if starts closes s then Some (Inr (mk arr, tl s, P))
      else Some (throw_parse_exception P ''Unterminated array''))"

fun parse_object_array :: "nat \<Rightarrow> value_reader \<Rightarrow> (toml list \<Rightarrow> toml) \<Rightarrow> char \<Rightarrow> parser \<Rightarrow> string
    \<Rightarrow> toml list \<Rightarrow> (toml \<times> string \<times> parser) fuelled" where
  "parse_object_array 0 reader mk delim P s arr = None"
| "parse_object_array (Suc f) reader mk delim P s arr =
     (if \<not> starts (\<lambda>c. \<not> closes c) s then array_end mk arr s P
      else if hd s \<noteq> delim then Some (throw_parse_exception P ''Unexpected character in array'')
      else bind_fuel (reader P s) (\<lambda>(v, s1, P1).
        bind_fuel (Some (skip_whitespace_and_comments P1 s1)) (\<lambda>(s2, P2).
          if \<not> starts (\<lambda>c. c = CHR '','') s2 then array_end mk (arr @ [v]) s2 P2
          else bind_fuel (Some (skip_whitespace_and_comments P2 (tl s2))) (\<lambda>(s3, P3).
            parse_object_array f reader mk delim P3 s3 (arr @ [v])))))"

fun as_entries :: "toml \<Rightarrow> table" where
  "as_entries (TTable t) = t"
| "as_entries _ = []"

definition inline_tables :: "toml list \<Rightarrow> toml" where
  "inline_tables arr = TTableArray True (map as_entries arr)"

definition first_element :: "string \<Rightarrow> string" where
  "first_element s = takeWhile (\<lambda>c. c \<noteq> CHR '','' \<and> c \<noteq> CHR '']'' \<and> c \<noteq> CHR ''#'') s"

definition array_body :: "nat \<Rightarrow> value_reader \<Rightarrow> value_reader \<Rightarrow> value_reader \<Rightarrow> value_reader" where
  "array_body f reader array_reader inline_reader P s =
     bind_fuel (Some (skip_whitespace_and_comments P (tl s))) (\<lambda>(s1, P1).
       if hd s1 = CHR '']'' then Some (Inr (TArray [], tl s1, P1))
       else bind_fuel (Some (determine_value_type (line_number P1) (first_element s1))) (\<lambda>type.
         if type = ARRAY then parse_object_array f array_reader TArray CHR ''['' P1 s1 []
         else if type = INLINE_TABLE
         then parse_object_array f inline_reader inline_tables CHR ''{'' P1 s1 []
         else parse_value_array f reader (value_kind_of type) P1 s1 []))"

fun inline_loop :: "nat \<Rightarrow> entry_reader \<Rightarrow> parser \<Rightarrow> string \<Rightarrow> table \<Rightarrow> (toml \<times> string \<times> parser) fuelled" where
  "inline_loop 0 reader P s tbl = None"
| "inline_loop (Suc f) reader P s tbl =
     (if tl s = [] then Some (throw_parse_exception P ''Unterminated inline table'')
      else bind_fuel
        (let s2 = consume_whitespace (tl s) in
         if starts (\<lambda>c. c \<noteq> CHR ''}'') s2 then
           bind_fuel (reader P s2 tbl []) (\<lambda>(tbl', s3, P'). Some (Inr (tbl', consume_whitespace s3, P')))
         else Some (Inr (tbl, s2, P))) (\<lambda>(tbl', s4, P').
           if starts (\<lambda>c. c = CHR '','') s4 then inline_loop f reader P' s4 tbl'
           else if starts (\<lambda>c. c = CHR ''}'') s4
           then Some (Inr (TTable tbl', consume_whitespace (tl s4), P'))
           else Some (throw_parse_exception P' ''Unterminated inline table'')))"

definition key_value_body :: "value_reader \<Rightarrow> entry_reader" where
  "key_value_body reader P s tab cur0 =
     bind_fuel (Some (parse_key (line_number P) (\<lambda>c. c = CHR ''='') (key_part (line_number P)) s (tab, cur0)))
       (\<lambda>(key, s1, tab1, cur).
         let present = contains (table_at cur tab1) key in
         if merge_mode P = Merge_none \<and> present
         then Some (throw_parse_exception P (''Key '' @ key @ '' already present''))
         else if \<not> starts (\<lambda>c. c = CHR ''='') s1
         then Some (throw_parse_exception P (''Value must follow after a '' @ [CHR 0x27] @ ''='' @ [CHR 0x27]))
         else bind_fuel (reader P (consume_whitespace (tl s1))) (\<lambda>(v, s2, P').
           Some (Inr (if merge_mode P = Merge_ignore \<and> present then tab1
                      else update_at cur (insert_value key v) tab1,
                      consume_whitespace s2, P'))))"

fun parse_value :: "nat \<Rightarrow> value_reader"
  and parse_array :: "nat \<Rightarrow> value_reader"
  and parse_inline_table :: "nat \<Rightarrow> value_reader"
  and parse_key_value :: "nat \<Rightarrow> entry_reader" where
  "parse_value 0 P s = None"
| "parse_value (Suc f) P s =
     value_body (\<lambda>P s. parse_array f P s) (\<lambda>P s. parse_inline_table f P s) P s"
| "parse_array 0 P s = None"
| "parse_array (Suc f) P s =
     array_body f (\<lambda>P s. parse_value f P s) (\<lambda>P s. parse_array f P s)
       (\<lambda>P s. parse_inline_table f P s) P s"
| "parse_inline_table 0 P s = None"
| "parse_inline_table (Suc f) P s = inline_loop f (\<lambda>P s t cur. parse_key_value f P s t cur) P s []"
| "parse_key_value 0 P s tab cur = None"
| "parse_key_value (Suc f) P s tab cur = key_value_body (\<lambda>P s. parse_value f P s) P s tab cur"

section \<open>Files\<close>

text \<open>\<open>parse\<close>: the loop over the lines; the state is the tables and the current one.\<close>

fun parse_lines :: "nat \<Rightarrow> parser \<Rightarrow> table \<Rightarrow> string list \<Rightarrow> (table \<times> string list \<times> parser) fuelled" where
  "parse_lines 0 P tab cur = None"
| "parse_lines (Suc f) P tab cur =
     (case getline (input P) of
        None \<Rightarrow> Some (Inr (tab, cur, P))
      | Some (line, i) \<Rightarrow>
          let P1 = next_line i P; s = consume_whitespace line in
          if s = [] \<or> hd s = CHR ''#'' then parse_lines f P1 tab cur
          else if hd s = CHR ''['' then
            bind_fuel (Some (parse_table P1 s tab)) (\<lambda>(tab', cur'). parse_lines f P1 tab' cur')
          else
            bind_fuel (parse_key_value f P1 s tab cur) (\<lambda>(tab', s1, P2).
              bind_fuel (Some (eol_or_comment (line_number P2) (consume_whitespace s1)))
                (\<lambda>_. parse_lines f P2 tab' cur)))"

definition parser_on :: "string \<Rightarrow> merge_type \<Rightarrow> bool \<Rightarrow> parser" where
  "parser_on txt merge stringify =
     \<lparr>input = stream_of txt, merge_mode = merge, stringify_values = stringify, line_number = 0\<rparr>"

definition parse_fuel :: "string \<Rightarrow> nat" where
  "parse_fuel txt = 2 * length txt + 8"

definition parse :: "string \<Rightarrow> merge_type \<Rightarrow> bool \<Rightarrow> table fuelled" where
  "parse txt merge stringify =
     bind_fuel (parse_lines (parse_fuel txt) (parser_on txt merge stringify) [] [])
       (\<lambda>(tab, _, _). Some (Inr tab))"

text \<open>
  \<open>parse_base_and_override_files\<close> on two streams: the second one is parsed alone for its errors,
  then both texts together in the given mode. Inserting a stream buffer without characters sets the
  fail bit of \<open>combined\<close>: nothing is appended to it any more and no line is read from it.
\<close>

definition parse_base_and_override_files :: "string \<Rightarrow> string \<Rightarrow> merge_type \<Rightarrow> bool \<Rightarrow> table fuelled" where
  "parse_base_and_override_files base override merge stringify =
     bind_fuel (parse override Merge_none stringify) (\<lambda>_.
       if base = [] then Some (Inr []) else parse (base @ override) merge stringify)"

text \<open>The other two entry points, on the contents of files (\<open>None\<close> is a file that does not open).\<close>

definition parse_file :: "(string \<Rightarrow> string option) \<Rightarrow> string \<Rightarrow> table fuelled" where
  "parse_file fs filename =
     (case fs filename of
        None \<Rightarrow> Some (Inl (filename @ '' could not be opened for parsing''))
      | Some txt \<Rightarrow> parse txt Merge_none False)"

definition parse_base_and_override_names ::
  "(string \<Rightarrow> string option) \<Rightarrow> string \<Rightarrow> string \<Rightarrow> merge_type \<Rightarrow> bool \<Rightarrow> table fuelled" where
  "parse_base_and_override_names fs filename user_filename merge stringify =
     (case fs filename of
        None \<Rightarrow> Some (Inl (filename @ '' could not be opened for parsing''))
      | Some base \<Rightarrow>
          (case fs user_filename of
             None \<Rightarrow> parse base merge stringify
           | Some user \<Rightarrow> parse_base_and_override_files base user merge stringify))"

end
