(* ===== verification/Toml_Total.thy ===== *)
theory Toml_Total
  imports Toml_Parser
begin

text \<open>
  The TOML parser is total, and the trees it builds are well-formed.

  \<open>advance\<close> describes how a parser function moves: it consumes text of the current line or goes on
  to the next line, never past the empty line that \<open>getline\<close> gives at the end of the input. From
  it follow the size that shrinks (so the fuel is enough) and what a longer input changes (nothing,
  when the text ends in a newline).
\<close>

section \<open>Fuel\<close>

lemma bind_fuel_simps [simp]:
  "bind_fuel None g = None"
  "bind_fuel (Some (Inl e)) g = Some (Inl e)"
  "bind_fuel (Some (Inr x)) g = g x"
  by (simp_all add: bind_fuel_def)

lemma bind_fuel_Inr:
  "bind_fuel m g = Some (Inr y) \<longleftrightarrow> (\<exists>x. m = Some (Inr x) \<and> g x = Some (Inr y))"
  by (auto simp: bind_fuel_def split: option.splits sum.splits)

lemma throw_not_Inr [simp]:
  "throw_at n err \<noteq> Inr x" "throw_parse_exception P err \<noteq> Inr x"
  by (simp_all add: throw_at_def throw_parse_exception_def)

section \<open>How the parser moves\<close>

inductive advance :: "string \<times> parser \<Rightarrow> string \<times> parser \<Rightarrow> bool" where
  consume: "suffix s' s \<Longrightarrow> advance (s, P) (s', P)"
| new_line: "getline (input P) = Some (line, i) \<Longrightarrow> \<not> eofbit i \<Longrightarrow> advance (s, P) (line, next_line i P)"
| trans: "advance a b \<Longrightarrow> advance b c \<Longrightarrow> advance a c"

lemma advance_refl [simp]: "advance (s, P) (s, P)"
  by (rule consume) simp

definition cursor_size :: "string \<times> parser \<Rightarrow> nat" where
  "cursor_size c = length (fst c) + stream_size (input (snd c))"

text \<open>What stays the same, what shrinks, and that no newline at the end of the text is lost.\<close>

definition nl_ended :: "string \<Rightarrow> bool" where
  "nl_ended s \<longleftrightarrow> s = [] \<or> last s = CHR 0x0A"

lemma getline_open: "getline i = Some (l, i') \<Longrightarrow> \<not> eofbit i"
  by (auto simp: getline_def split: if_splits)

lemma advance_options:
  "advance (s, P) (s', P') \<Longrightarrow>
   merge_mode P' = merge_mode P \<and> stringify_values P' = stringify_values P
   \<and> line_number P \<le> line_number P'"
  by (induction "(s, P)" "(s', P')" arbitrary: s P s' P' rule: advance.induct)
     (auto simp: next_line_def)

lemma suffix_tl_cases: "suffix r s \<Longrightarrow> r = s \<or> suffix r (tl s)"
  by (cases s) (auto simp: suffix_Cons)

lemma advance_size: "advance a b \<Longrightarrow> cursor_size b \<le> cursor_size a"
  by (induction rule: advance.induct)
     (auto simp: cursor_size_def next_line_def suffix_length_le dest: getline_size)

lemma take_line_nl:
  "take_line s = (l, Some r) \<Longrightarrow> nl_ended s \<Longrightarrow> nl_ended r"
  "take_line s = (l, None) \<Longrightarrow> nl_ended s \<Longrightarrow> s = []"
  by (induction s arbitrary: l rule: take_line.induct)
     (auto simp: nl_ended_def split: if_splits prod.splits, metis last_tl)

lemma getline_nl:
  "getline i = Some (l, i') \<Longrightarrow> \<not> eofbit i' \<Longrightarrow> nl_ended (stream_buf i) \<Longrightarrow> nl_ended (stream_buf i')"
  by (auto simp: getline_def nl_ended_def [of "[]"] split: if_splits prod.splits option.splits
      dest: take_line_nl)

lemma advance_nl:
  "advance a b \<Longrightarrow> nl_ended (stream_buf (input (snd a))) \<Longrightarrow> nl_ended (stream_buf (input (snd b)))"
  by (induction rule: advance.induct) (auto simp: next_line_def dest: getline_nl)

lemma advance_open: "advance a b \<Longrightarrow> \<not> eofbit (input (snd a)) \<Longrightarrow> \<not> eofbit (input (snd b))"
  by (induction rule: advance.induct) (auto simp: next_line_def)

section \<open>Strings and white space move forward\<close>

lemma consume_whitespace_advance [simp]: "advance (s, P) (consume_whitespace s, P)"
  by (rule consume) (rule consume_whitespace_suffix)

lemma tl_advance [simp]: "advance (s, P) (tl s, P)"
  by (rule consume) (rule suffix_tl)

lemma drop_advance: "advance (s, P) (drop k s, P)"
  by (rule consume) (rule suffix_drop)

lemma multiline_loop_suffix:
  "multiline_loop n delim ss s = Inr (ended, consuming, ss', r) \<Longrightarrow> suffix r s"
proof (induction n delim ss s rule: multiline_loop.induct)
  case (1 n delim ss s)
  show ?case
  proof (cases "s \<noteq> [] \<and> delim = CHR 0x22 \<and> hd s = CHR 0x5C \<and> consume_whitespace (tl s) \<noteq> []")
    case True
    then obtain v r' where esc: "parse_escape_code n s = Inr (v, r')"
      and rec: "multiline_loop n delim (ss @ v) r' = Inr (ended, consuming, ss', r)"
      using "1.prems" True by (subst (asm) multiline_loop.simps) (auto simp: bind_result_Inr)
    have "suffix r r'" using "1.IH"(1) [OF _ _ _ esc] True rec by auto
    then show ?thesis using parse_escape_code_suffix [OF esc] by (meson suffix_order.trans suffix_order.less_imp_le)
  next
    case False
    then show ?thesis
      using "1.prems" "1.IH"(2)
      by (subst (asm) multiline_loop.simps) (auto simp: suffix_drop split: if_splits intro: suffix_drop_tl)
  qed
qed

lemma multiline_loop_Nil [simp]: "multiline_loop n delim ss [] = Inr (False, False, ss, [])"
  by (simp add: multiline_loop.simps)

lemma handle_line_suffix: "handle_line n delim c ss s = Inr (ended, c', ss', r) \<Longrightarrow> suffix r s"
  unfolding handle_line_def Let_def
  by (auto split: if_splits dest: multiline_loop_suffix intro: suffix_order.trans [OF _ suffix_dropWhile])

lemma handle_line_Nil [simp]: "handle_line n delim c ss [] = Inr (False, c, ss, [])"
  by (simp add: handle_line_def)

text \<open>The empty line at the end of the input ends no string and no array.\<close>

lemma getline_eof: "getline i = Some (l, i') \<Longrightarrow> eofbit i' \<Longrightarrow> l = []"
  by (auto simp: getline_def split: if_splits prod.splits option.splits)

lemma getline_closed [simp]: "eofbit i \<Longrightarrow> getline i = None"
  by (simp add: getline_def)

lemma multiline_lines_advance:
  "multiline_lines P delim c ss = Inr (v, r, P') \<Longrightarrow> advance (s, P) (r, P')"
proof (induction P delim c ss arbitrary: s rule: multiline_lines.induct)
  case (1 P delim c ss)
  obtain line i where line: "getline (input P) = Some (line, i)"
    using "1.prems" by (subst (asm) multiline_lines.simps) (auto split: option.splits)
  let ?P1 = "next_line i P"
  obtain ended c' ss' t where h: "handle_line (line_number ?P1) delim c ss line = Inr (ended, c', ss', t)"
    and rest: "if ended then ss' = v \<and> t = r \<and> ?P1 = P'
      else multiline_lines ?P1 delim c' (if c' then ss' else ss' @ [CHR 0x0A]) = Inr (v, r, P')"
    using "1.prems" line
    by (subst (asm) multiline_lines.simps) (auto simp: bind_result_Inr Let_def split: if_splits)
  have "\<not> eofbit i"
  proof
    assume eof: "eofbit i"
    then have "multiline_lines ?P1 delim c' x \<noteq> Inr (v, r, P')" for x
      by (subst multiline_lines.simps) (simp add: next_line_def)
    then show False using h rest getline_eof [OF line eof] by (auto split: if_splits)
  qed
  then have step: "advance (s, P) (line, ?P1)" by (rule new_line [OF line])
  show ?case
  proof (cases ended)
    case True
    then show ?thesis using rest step handle_line_suffix [OF h] by (auto intro: advance.intros)
  next
    case False
    then have "advance (line, ?P1) (r, P')"
      using "1.IH" [OF line refl refl h refl refl refl False] rest False by simp
    then show ?thesis using step by (rule trans [rotated])
  qed
qed

lemma skip_advance:
  "skip_whitespace_and_comments P s = Inr (r, P') \<Longrightarrow> advance (s, P) (r, P') \<and> r \<noteq> []"
proof (induction P s rule: skip_whitespace_and_comments.induct)
  case (1 P s)
  show ?case
  proof (cases "consume_whitespace s = [] \<or> hd (consume_whitespace s) = CHR ''#''")
    case False
    then show ?thesis
      using "1.prems" consume_whitespace_advance by (auto simp: skip_whitespace_and_comments.simps [of P s])
  next
    case True
    then obtain line i where line: "getline (input P) = Some (line, i)"
      and rec: "skip_whitespace_and_comments (next_line i P) line = Inr (r, P')"
      using "1.prems" by (auto simp: skip_whitespace_and_comments.simps [of P s] split: option.splits)
    have "\<not> eofbit i"
    proof
      assume "eofbit i"
      then show False
        using rec getline_eof [OF line]
        by (simp add: skip_whitespace_and_comments.simps [of _ "[]"] consume_whitespace_def next_line_def)
    qed
    then have "advance (s, P) (line, next_line i P)" by (rule new_line [OF line])
    then show ?thesis using "1.IH" [OF refl True line refl rec] trans by blast
  qed
qed

lemma parse_string_advance: "parse_string P s = Inr (v, r, P') \<Longrightarrow> advance (s, P) (r, P') \<and> tree_ok v"
proof -
  assume str: "parse_string P s = Inr (v, r, P')"
  show ?thesis
  proof (cases "parse_string P s = parse_multiline_string P (drop 3 s) (hd s)")
    case False
    then have "\<exists>x. string_literal (line_number P) s (hd s) = Inr (x, r) \<and> v = TString x \<and> P' = P"
      using str by (auto simp: parse_string_def Let_def bind_result_Inr split: if_splits)
    then obtain x where x: "string_body (line_number P) (hd s) (tl s) [] = Inr (x, r)" "v = TString x" "P' = P"
      by (auto simp: string_literal_def)
    have "suffix r s"
      using suffix_drop_tl suffix_order.less_imp_le [OF string_body_suffix [OF x(1)]] by blast
    then show ?thesis using x by (simp add: consume)
  next
    case True
    then obtain ended c ss t where h: "handle_line (line_number P) (hd s) False [] (drop 3 s) = Inr (ended, c, ss, t)"
      and rest: "if ended then v = TString ss \<and> t = r \<and> P' = P
        else \<exists>x. v = TString x \<and> multiline_lines P (hd s) c ss = Inr (x, r, P')"
      using str [unfolded True] by (auto simp: parse_multiline_string_def bind_result_Inr split: if_splits)
    have "suffix t s" using handle_line_suffix [OF h] suffix_drop suffix_order.trans by blast
    then show ?thesis
      using rest multiline_lines_advance by (cases ended) (auto intro: consume)
  qed
qed

lemma find_end_of_date_suffix: "suffix (find_end_of_date s) s"
proof -
  let ?e = "dropWhile (\<lambda>c. is_number c \<or> c = CHR ''-'') s"
  have "suffix (if b then tl ?e else ?e) s" for b
    using suffix_dropWhile [of _ s] by (simp add: suffix_order.trans [OF suffix_tl])
  then show ?thesis
    unfolding find_end_of_date_def Let_def using suffix_dropWhile suffix_order.trans by blast
qed

lemma parse_date_suffix: "parse_date n s = Inr (v, r) \<Longrightarrow> suffix r s \<and> tree_ok v"
  using find_end_of_date_suffix [of s]
  by (auto simp: parse_date_def Let_def bind_result_Inr split: if_splits)

lemma parse_time_suffix: "parse_time n s = Inr (v, r) \<Longrightarrow> suffix r s \<and> tree_ok v"
  by (auto simp: parse_time_def read_time_def find_end_of_time_def Let_def bind_result_Inr suffix_dropWhile
      split: if_splits prod.splits)

lemma stoll_range: "stoll s b = Converted v \<Longrightarrow> - (2 ^ 63) \<le> v \<and> v < 2 ^ 63"
  by (auto simp: stoll_def Let_def split: if_splits prod.splits)

lemma parse_int_ok: "parse_int n s b pre = Inr v \<Longrightarrow> tree_ok v"
  by (auto simp: parse_int_def dest: stoll_range split: conv.splits)

lemma parse_float_ok: "parse_float n s = Inr v \<Longrightarrow> tree_ok v"
  by (auto simp: parse_float_def split: conv.splits)

lemma parse_number_ok: "parse_number n s = Inr (v, r) \<Longrightarrow> tree_ok v"
  by (auto simp: parse_number_def parse_prefixed_def parse_fraction_def Let_def bind_result_Inr
      dest: parse_int_ok parse_float_ok split: if_splits)

lemma parse_bool_ok: "parse_bool n s = Inr (v, r) \<Longrightarrow> tree_ok v"
  by (auto simp: parse_bool_def Let_def bind_result_Inr split: if_splits)

lemma parse_basic_advance:
  assumes "parse_basic P type s = Inr (v, r, P')"
  shows "advance (s, P) (r, P') \<and> tree_ok v"
proof (cases "type = STRING")
  case True
  then show ?thesis using assms parse_string_advance by (simp add: parse_basic_def)
next
  case False
  then have "suffix r s \<and> tree_ok v \<and> P' = P"
    using assms parse_number_suffix [of "line_number P" s v r] parse_number_ok [of "line_number P" s v r]
      parse_bool_suffix [of "line_number P" s v r] parse_bool_ok [of "line_number P" s v r]
      parse_date_suffix [of "line_number P" s v r] parse_time_suffix [of "line_number P" s v r]
    by (cases type) (auto simp: parse_basic_def Let_def bind_result_Inr)
  then show ?thesis by (auto intro: consume)
qed

lemma determine_not_string:
  "determine_value_type n s = Inr type \<Longrightarrow> type \<noteq> STRING \<Longrightarrow> s \<noteq> [] \<and> hd s \<noteq> CHR 0x22"
  by (auto simp: determine_value_type_def split: if_splits)

lemma parse_quoted_keeps:
  "s \<noteq> [] \<Longrightarrow> hd s \<noteq> CHR 0x22 \<Longrightarrow> parse_string P ([CHR 0x22] @ s @ [CHR 0x22]) = Inr (v, r, P') \<Longrightarrow>
   P' = P \<and> tree_ok v"
  by (auto simp: parse_string_def starts_def bind_result_Inr Let_def)

lemma parse_simple_value_advance:
  assumes "parse_simple_value P type s = Inr (v, r, P')" and "determine_value_type n s = Inr type"
  shows "advance (s, P) (r, P') \<and> tree_ok v"
proof (cases "stringify_values P \<and> type \<noteq> STRING")
  case False
  then show ?thesis using assms parse_basic_advance by (auto simp: parse_simple_value_def)
next
  case True
  then obtain w P1 x where "parse_basic P type s = Inr (w, r, P1)"
    and quoted: "parse_string P1 ([CHR 0x22] @ s @ [CHR 0x22]) = Inr (v, x, P')"
    using assms(1) by (auto simp: parse_simple_value_def bind_result_Inr)
  then show ?thesis
    using parse_basic_advance parse_quoted_keeps [OF _ _ quoted] determine_not_string [OF assms(2)] True
    by blast
qed

section \<open>Trees under construction stay well-formed\<close>

lemma tables_ok: "tree_ok (TTableArray i ts) \<longleftrightarrow> ts \<noteq> [] \<and> (\<forall>t \<in> set ts. table_ok t)"
  by (simp add: list_all_iff)

lemma table_at_ok: "table_ok t \<Longrightarrow> table_ok (table_at cur t)"
proof (induction cur arbitrary: t)
  case (Cons k ks)
  show ?case
  proof (cases "map_of t k")
    case (Some v)
    then have "tree_ok v" using Cons.prems table_ok_lookup by blast
    show ?thesis
    proof (cases v)
      case (TTable s)
      then show ?thesis using Some Cons.IH [of s] \<open>tree_ok v\<close> by (simp del: tree_ok.simps(3))
    next
      case (TTableArray i ts)
      then have "table_ok (last ts)" using \<open>tree_ok v\<close> tables_ok last_in_set by blast
      then show ?thesis using Some TTableArray Cons.IH [of "last ts"] by (simp del: tree_ok.simps(3))
    qed (use Some in simp_all)
  qed simp
qed simp

lemma update_at_ok:
  "table_ok t \<Longrightarrow> (\<And>s. table_ok s \<Longrightarrow> table_ok (f s)) \<Longrightarrow> table_ok (update_at cur f t)"
proof (induction cur arbitrary: t)
  case (Cons k ks)
  show ?case
  proof (cases "map_of t k")
    case (Some v)
    then have v: "tree_ok v" using Cons.prems table_ok_lookup by blast
    show ?thesis
    proof (cases v)
      case (TTable s)
      then have "table_ok (update_at ks f s)" using Cons v by blast
      then show ?thesis using Some TTable Cons.prems(1) table_ok_insert by simp
    next
      case (TTableArray i ts)
      then have ts: "ts \<noteq> []" "\<forall>t \<in> set ts. table_ok t" using v tables_ok by blast+
      then have "table_ok (update_at ks f (last ts))" using Cons last_in_set by blast
      then have "tree_ok (TTableArray i (butlast ts @ [update_at ks f (last ts)]))"
        using ts unfolding tables_ok by (auto simp del: tree_ok.simps dest: in_set_butlastD)
      then show ?thesis using Some TTableArray Cons.prems(1) table_ok_insert by simp
    qed (use Some Cons.prems in simp_all)
  qed (use Cons.prems in simp)
qed simp

lemma parse_key_inv:
  "parse_key n key_end h s st = Inr (part, r, st') \<Longrightarrow> I st \<Longrightarrow>
   (\<And>p st st'. I st \<Longrightarrow> h p st = Inr st' \<Longrightarrow> I st') \<Longrightarrow> I st'"
proof (induction n key_end h s st rule: parse_key.induct)
  case (1 n key_end h s st)
  obtain p s1 where start: "starts (\<lambda>c. \<not> key_end c) s" and key: "parse_simple_key n s = Inr (p, s1)"
    using "1.prems" by (subst (asm) parse_key.simps) (auto simp: bind_result_Inr split: if_splits)
  let ?s2 = "consume_whitespace s1"
  show ?case
  proof (cases "starts (\<lambda>c. \<not> key_end c) ?s2")
    case False
    then show ?thesis using "1.prems" start key by (subst (asm) parse_key.simps) simp
  next
    case True
    then obtain st1 where dot: "hd ?s2 = CHR ''.''" and h: "h p st = Inr st1"
      and rec: "parse_key n key_end h (tl ?s2) st1 = Inr (part, r, st')"
      using "1.prems" start key
      by (subst (asm) parse_key.simps) (auto simp: bind_result_Inr Let_def split: if_splits)
    show ?thesis
      by (rule "1.IH" [OF start key refl refl _ _ h rec "1.prems"(3) [OF "1.prems"(2) h] "1.prems"(3)])
         (use True dot in auto)
  qed
qed

lemma empty_ok [simp]: "table_ok []" "tree_ok (TTableArray i [[]])"
  by simp_all

lemma header_part_ok:
  "header_part n m1 m2 part (tab, cur, ins, full) = Inr (tab', rest) \<Longrightarrow> table_ok tab \<Longrightarrow> table_ok tab'"
  by (auto simp: header_part_def Let_def simp del: tree_ok.simps(3) split: if_splits option.splits toml.splits
      intro!: update_at_ok table_ok_insert)

lemma array_part_ok:
  assumes "array_part n part (tab, cur, ins, full) = Inr (tab', rest)" and "table_ok tab"
  shows "table_ok tab'"
proof (cases "map_of (table_at cur tab) part")
  case None
  then show ?thesis using assms
    by (auto simp: array_part_def Let_def simp del: tree_ok.simps(3) split: if_splits
        intro!: update_at_ok table_ok_insert)
next
  case (Some v)
  then have "tree_ok v" using assms(2) table_at_ok table_ok_lookup by blast
  then show ?thesis using Some assms
    by (auto simp: array_part_def Let_def simp del: tree_ok.simps(3) split: if_splits toml.splits
        intro!: update_at_ok table_ok_insert)
qed

lemma key_part_ok:
  "key_part n part (tab, cur) = Inr (tab', cur') \<Longrightarrow> table_ok tab \<Longrightarrow> table_ok tab'"
  by (auto simp: key_part_def simp del: tree_ok.simps(3) split: option.splits toml.splits
      intro!: update_at_ok table_ok_insert)

section \<open>The readers keep their contract\<close>

text \<open>
  A reader of values moves forward and returns a well-formed value; a reader of entries also keeps
  the tables well-formed. Each body has the contract when the functions it calls have it.
\<close>

definition reads_ok :: "value_reader \<Rightarrow> bool" where
  "reads_ok reader \<longleftrightarrow> (\<forall>P s v r P'. reader P s = Some (Inr (v, r, P')) \<longrightarrow>
     advance (s, P) (r, P') \<and> tree_ok v)"

definition enters_ok :: "entry_reader \<Rightarrow> bool" where
  "enters_ok reader \<longleftrightarrow> (\<forall>P s tab cur tab' r P'. reader P s tab cur = Some (Inr (tab', r, P')) \<longrightarrow>
     advance (s, P) (r, P') \<and> (table_ok tab \<longrightarrow> table_ok tab'))"

lemma reads_okD:
  "reads_ok reader \<Longrightarrow> reader P s = Some (Inr (v, r, P')) \<Longrightarrow> advance (s, P) (r, P') \<and> tree_ok v"
  unfolding reads_ok_def by blast

lemma value_body_ok: "reads_ok a \<Longrightarrow> reads_ok i \<Longrightarrow> reads_ok (value_body a i)"
  unfolding reads_ok_def value_body_def
  by (auto simp: bind_fuel_Inr parse_simple_value_advance split: if_splits)

lemma parse_value_array_ok:
  "parse_value_array f reader k P s arr = Some (Inr (v, r, P')) \<Longrightarrow> reads_ok reader \<Longrightarrow>
   list_all (\<lambda>x. tree_ok x \<and> as_value k x \<noteq> None) arr \<Longrightarrow> advance (s, P) (r, P') \<and> tree_ok v"
proof (induction f reader k P s arr rule: parse_value_array.induct)
  case (2 f reader k P s arr)
  have hom: "tree_ok (TArray xs)" if "list_all (\<lambda>x. tree_ok x \<and> as_value k x \<noteq> None) xs" for xs
    using that by (auto simp: list_all_iff intro!: homogeneousI [of _ k])
  show ?case
  proof (cases "starts (\<lambda>c. \<not> closes c) s")
    case False
    then show ?thesis using "2.prems" hom by auto
  next
    case True
    then obtain x s1 P1 s2 P2 where x: "reader P s = Some (Inr (x, s1, P1))" and k: "as_value k x \<noteq> None"
      and ws: "skip_whitespace_and_comments P1 s1 = Inr (s2, P2)"
      and rest: "(if hd s2 \<noteq> CHR '','' then Some (Inr (TArray (arr @ [x]), tl s2, P2))
          else bind_fuel (Some (skip_whitespace_and_comments P2 (tl s2))) (\<lambda>(s3, P3).
            parse_value_array f reader k P3 s3 (arr @ [x]))) = Some (Inr (v, r, P'))"
      using "2.prems"(1) by (auto simp: bind_fuel_Inr split: if_splits)
    have arr: "list_all (\<lambda>x. tree_ok x \<and> as_value k x \<noteq> None) (arr @ [x])"
      using "2.prems" reads_okD x k by auto
    have to2: "advance (s, P) (s2, P2)"
      using reads_okD [OF "2.prems"(2) x] skip_advance [OF ws] trans by blast
    show ?thesis
    proof (cases "hd s2 = CHR '',''")
      case False
      then have "v = TArray (arr @ [x])" "r = tl s2" "P' = P2" using rest by auto
      then show ?thesis using hom [OF arr] trans [OF to2 tl_advance] by simp
    next
      case comma: True
      then obtain s3 P3 where ws3: "skip_whitespace_and_comments P2 (tl s2) = Inr (s3, P3)"
        and rec: "parse_value_array f reader k P3 s3 (arr @ [x]) = Some (Inr (v, r, P'))"
        using rest by (auto simp: bind_fuel_Inr)
      have "advance (s3, P3) (r, P') \<and> tree_ok v"
        using "2.IH" True k comma rec "2.prems"(2) arr by blast
      then show ?thesis using to2 tl_advance skip_advance [OF ws3] trans by blast
    qed
  qed
qed simp

lemma array_end_ok:
  "array_end mk arr s P = Some (Inr (v, r, P')) \<Longrightarrow> tree_ok (mk arr) \<Longrightarrow> advance (s, P) (r, P') \<and> tree_ok v"
  by (auto simp: array_end_def split: if_splits)

lemma parse_object_array_ok:
  assumes mk: "\<And>xs. xs \<noteq> [] \<Longrightarrow> list_all Q xs \<Longrightarrow> tree_ok (mk xs)"
    and Q: "\<And>P s v r P'. s \<noteq> [] \<Longrightarrow> hd s = delim \<Longrightarrow> reader P s = Some (Inr (v, r, P')) \<Longrightarrow>
      advance (s, P) (r, P') \<and> Q v"
  shows "parse_object_array f reader mk delim P s arr = Some (Inr (v, r, P')) \<Longrightarrow>
    arr \<noteq> [] \<or> starts (\<lambda>c. \<not> closes c) s \<Longrightarrow> list_all Q arr \<Longrightarrow> advance (s, P) (r, P') \<and> tree_ok v"
proof (induction f arbitrary: P s arr)
  case (Suc f)
  show ?case
  proof (cases "starts (\<lambda>c. \<not> closes c) s")
    case False
    then show ?thesis using Suc.prems mk [of arr] array_end_ok by auto
  next
    case True
    then obtain x s1 P1 s2 P2 where x: "reader P s = Some (Inr (x, s1, P1))" and "hd s = delim"
      and ws: "skip_whitespace_and_comments P1 s1 = Inr (s2, P2)"
      and rest: "(if \<not> starts (\<lambda>c. c = CHR '','') s2 then array_end mk (arr @ [x]) s2 P2
          else bind_fuel (Some (skip_whitespace_and_comments P2 (tl s2))) (\<lambda>(s3, P3).
            parse_object_array f reader mk delim P3 s3 (arr @ [x]))) = Some (Inr (v, r, P'))"
      using Suc.prems(1) by (auto simp: bind_fuel_Inr split: if_splits)
    have ax: "advance (s, P) (s1, P1)" and arr: "list_all Q (arr @ [x])"
      using Q [OF _ \<open>hd s = delim\<close> x] True Suc.prems(3) by (auto simp: starts_def)
    have to2: "advance (s, P) (s2, P2)" using ax skip_advance [OF ws] trans by blast
    show ?thesis
    proof (cases "starts (\<lambda>c. c = CHR '','') s2")
      case False
      then show ?thesis using rest array_end_ok [of mk "arr @ [x]"] mk [OF _ arr] to2 trans by auto
    next
      case comma: True
      then obtain s3 P3 where ws3: "skip_whitespace_and_comments P2 (tl s2) = Inr (s3, P3)"
        and rec: "parse_object_array f reader mk delim P3 s3 (arr @ [x]) = Some (Inr (v, r, P'))"
        using rest by (auto simp: bind_fuel_Inr)
      have "advance (s3, P3) (r, P') \<and> tree_ok v" using Suc.IH [OF rec _ arr] by simp
      then show ?thesis using to2 tl_advance skip_advance [OF ws3] trans by blast
    qed
  qed
qed simp

lemma parse_value_array_result:
  "parse_value_array f reader k P s arr = Some (Inr (v, r, P')) \<Longrightarrow> is_array v"
  by (induction f reader k P s arr rule: parse_value_array.induct)
     (auto simp: bind_fuel_Inr split: if_splits, blast)

lemma parse_object_array_result:
  "parse_object_array f reader mk delim P s arr = Some (Inr (v, r, P')) \<Longrightarrow> \<exists>xs. v = mk xs"
  by (induction f reader mk delim P s arr rule: parse_object_array.induct)
     (auto simp: bind_fuel_Inr array_end_def split: if_splits)

definition arrays_ok :: "value_reader \<Rightarrow> bool" where
  "arrays_ok reader \<longleftrightarrow> reads_ok reader \<and>
     (\<forall>P s v r P'. reader P s = Some (Inr (v, r, P')) \<longrightarrow> is_nested v)"

definition inlines_ok :: "value_reader \<Rightarrow> bool" where
  "inlines_ok reader \<longleftrightarrow> reads_ok reader \<and>
     (\<forall>P s v r P'. reader P s = Some (Inr (v, r, P')) \<longrightarrow> is_table v)"

lemma nested_array_tree_ok:
  "list_all (\<lambda>x. is_nested x \<and> tree_ok x) xs \<Longrightarrow> tree_ok (TArray xs)"
  by (auto simp: homogeneous_def list_all_iff)

lemma inline_tables_tree_ok:
  assumes "xs \<noteq> []" and "list_all (\<lambda>x. is_table x \<and> tree_ok x) xs"
  shows "tree_ok (inline_tables xs)"
proof -
  have "table_ok (as_entries x)" if "x \<in> set xs" for x
  proof -
    have "is_table x" and "tree_ok x" using assms(2) that by (auto simp: list_all_iff)
    then show ?thesis by (cases x) (simp_all del: tree_ok.simps(3))
  qed
  then show ?thesis using assms(1) unfolding inline_tables_def tables_ok by auto
qed

lemma array_body_ok:
  assumes "reads_ok reader" and "arrays_ok a" and "inlines_ok i"
  shows "arrays_ok (array_body f reader a i)"
  unfolding arrays_ok_def reads_ok_def
proof (intro conjI allI impI)
  fix P s v r P'
  assume res: "array_body f reader a i P s = Some (Inr (v, r, P'))"
  then obtain s1 P1 where ws: "skip_whitespace_and_comments P (tl s) = Inr (s1, P1)"
    by (auto simp: array_body_def bind_fuel_Inr)
  have to1: "advance (s, P) (s1, P1)" and ne: "s1 \<noteq> []"
    using skip_advance [OF ws] tl_advance trans by blast+
  have arr: "advance (s1, P1) (r, P') \<and> tree_ok v \<and> is_nested v"
  proof (cases "hd s1 = CHR '']''")
    case True
    then have "v = TArray []" "r = tl s1" "P' = P1" using res ws by (simp_all add: array_body_def)
    then show ?thesis by (simp add: homogeneous_def is_nested_def)
  next
    case False
    then have start: "starts (\<lambda>c. \<not> closes c) s1" using ne by (simp add: starts_def)
    obtain type where rest: "(if type = ARRAY then parse_object_array f a TArray CHR ''['' P1 s1 []
        else if type = INLINE_TABLE then parse_object_array f i inline_tables CHR ''{'' P1 s1 []
        else parse_value_array f reader (value_kind_of type) P1 s1 []) = Some (Inr (v, r, P'))"
      using res ws False by (auto simp: array_body_def bind_fuel_Inr)
    consider "parse_object_array f a TArray CHR ''['' P1 s1 [] = Some (Inr (v, r, P'))"
      | "parse_object_array f i inline_tables CHR ''{'' P1 s1 [] = Some (Inr (v, r, P'))"
      | "parse_value_array f reader (value_kind_of type) P1 s1 [] = Some (Inr (v, r, P'))"
      using rest by (auto split: if_splits)
    then show ?thesis
    proof cases
      case 1
      moreover have "is_nested v" using parse_object_array_result [OF 1] by (auto simp: is_nested_def)
      ultimately show ?thesis
        using parse_object_array_ok [of "\<lambda>x. is_nested x \<and> tree_ok x" TArray _ a] assms(2) start
          nested_array_tree_ok unfolding arrays_ok_def reads_ok_def by simp
    next
      case 2
      moreover have "is_nested v"
        using parse_object_array_result [OF 2] by (auto simp: is_nested_def inline_tables_def)
      ultimately show ?thesis
        using parse_object_array_ok [of "\<lambda>x. is_table x \<and> tree_ok x" inline_tables _ i] assms(3) start
          inline_tables_tree_ok unfolding inlines_ok_def reads_ok_def by simp
    next
      case 3
      then show ?thesis
        using parse_value_array_ok [OF 3 assms(1)] parse_value_array_result [OF 3] by (simp add: is_nested_def)
    qed
  qed
  show "advance (s, P) (r, P')" using to1 arr trans by blast
  show "tree_ok v" and "is_nested v" using arr by simp_all
qed

lemma inline_loop_ok:
  "inline_loop f reader P s tbl = Some (Inr (v, r, P')) \<Longrightarrow> enters_ok reader \<Longrightarrow> table_ok tbl \<Longrightarrow>
   advance (s, P) (r, P') \<and> tree_ok v \<and> is_table v"
proof (induction f reader P s tbl rule: inline_loop.induct)
  case (2 f reader P s tbl)
  let ?s2 = "consume_whitespace (tl s)"
  obtain tbl' s4 P1 where entry: "(if starts (\<lambda>c. c \<noteq> CHR ''}'') ?s2 then
        bind_fuel (reader P ?s2 tbl []) (\<lambda>(tbl', s3, P'). Some (Inr (tbl', consume_whitespace s3, P')))
      else Some (Inr (tbl, ?s2, P))) = Some (Inr (tbl', s4, P1))"
    and ne: "tl s \<noteq> []"
    and rest: "(if starts (\<lambda>c. c = CHR '','') s4 then inline_loop f reader P1 s4 tbl'
      else if starts (\<lambda>c. c = CHR ''}'') s4 then Some (Inr (TTable tbl', consume_whitespace (tl s4), P1))
      else Some (throw_parse_exception P1 ''Unterminated inline table'')) = Some (Inr (v, r, P'))"
    using "2.prems"(1) by (auto simp: bind_fuel_Inr Let_def split: if_splits)
  have step: "advance (?s2, P) (s4, P1) \<and> table_ok tbl'"
    using entry "2.prems"(2,3) unfolding enters_ok_def
    by (auto simp: bind_fuel_Inr simp del: tree_ok.simps(3) split: if_splits) (blast intro: trans consume_whitespace_advance)+
  have to4: "advance (s, P) (s4, P1)"
    using step trans [OF tl_advance consume_whitespace_advance] trans by blast
  show ?case
  proof (cases "starts (\<lambda>c. c = CHR '','') s4")
    case True
    then show ?thesis
      using "2.IH" [OF ne True _ "2.prems"(2)] rest step to4 trans by auto
  next
    case False
    then have "v = TTable tbl'" "r = consume_whitespace (tl s4)" "P' = P1"
      using rest by (auto split: if_splits)
    moreover have "advance (s, P) (consume_whitespace (tl s4), P1)"
      using to4 trans tl_advance consume_whitespace_advance by metis
    ultimately show ?thesis using step by (simp del: tree_ok.simps(3))
  qed
qed simp

lemma key_value_body_ok: "reads_ok reader \<Longrightarrow> enters_ok (key_value_body reader)"
  unfolding enters_ok_def
proof (intro allI impI conjI)
  fix P s tab cur tab' r P'
  assume "reads_ok reader" and res: "key_value_body reader P s tab cur = Some (Inr (tab', r, P'))"
  then obtain key s1 tab1 cur1 v s2 where
    key: "parse_key (line_number P) (\<lambda>c. c = CHR ''='') (key_part (line_number P)) s (tab, cur)
      = Inr (key, s1, tab1, cur1)"
    and v: "reader P (consume_whitespace (tl s1)) = Some (Inr (v, s2, P'))"
    and r: "r = consume_whitespace s2"
    and tab': "tab' = tab1 \<or> tab' = update_at cur1 (insert_value key v) tab1"
    by (auto simp: key_value_body_def bind_fuel_Inr Let_def split: if_splits)
  have val: "advance (consume_whitespace (tl s1), P) (s2, P')" "tree_ok v"
    using reads_okD [OF \<open>reads_ok reader\<close> v] by simp_all
  have "advance (s, P) (s1, P)"
    using parse_key_suffix [OF key] by (simp add: consume suffix_order.less_imp_le)
  then show "advance (s, P) (r, P')"
    using val(1) r tl_advance consume_whitespace_advance trans by metis
  show "table_ok tab'" if "table_ok tab"
  proof -
    have "case (tab1, cur1) of (t, _) \<Rightarrow> table_ok t"
      by (rule parse_key_inv [OF key]) (use that key_part_ok in \<open>auto simp del: tree_ok.simps\<close>)
    then show ?thesis using tab' val(2) update_at_ok table_ok_insert by auto
  qed
qed

lemma parse_value_ok: "reads_ok (parse_value f)"
  and parse_array_ok: "arrays_ok (parse_array f)"
  and parse_inline_table_ok: "inlines_ok (parse_inline_table f)"
  and parse_key_value_ok: "enters_ok (parse_key_value f)"
proof (induction f)
  case (Suc f)
  case 1
  have "reads_ok (value_body (parse_array f) (parse_inline_table f))"
    using Suc by (intro value_body_ok) (auto simp: arrays_ok_def inlines_ok_def)
  then show ?case by (simp add: reads_ok_def)
next
  case (Suc f)
  case 2
  have "arrays_ok (array_body f (parse_value f) (parse_array f) (parse_inline_table f))"
    using Suc by (intro array_body_ok)
  then show ?case by (simp add: arrays_ok_def reads_ok_def)
next
  case (Suc f)
  case 3
  show ?case using inline_loop_ok Suc by (auto simp: inlines_ok_def reads_ok_def) 
next
  case (Suc f)
  case 4
  have "enters_ok (key_value_body (parse_value f))" using Suc by (intro key_value_body_ok)
  then show ?case by (simp add: enters_ok_def)
qed (simp_all add: reads_ok_def arrays_ok_def inlines_ok_def enters_ok_def)

lemma header_ok:
  assumes "parse_key n closes (header_part n m1 m2) s (tab, [], False, []) = Inr (part, r, st)"
    and "header_part n m1 m2 part st = Inr (tab', rest) \<or> array_part n part st = Inr (tab', rest)"
    and "table_ok tab"
  shows "table_ok tab'"
proof -
  have key: "table_ok (fst st)"
    by (rule parse_key_inv [OF assms(1)]) (use assms(3) header_part_ok in \<open>auto simp del: tree_ok.simps\<close>)
  obtain t0 cur ins full where st: "st = (t0, cur, ins, full)" by (cases st)
  show ?thesis
    using assms(2) key header_part_ok array_part_ok unfolding st fst_conv by blast
qed

text \<open>A header is read by \<open>parse_key\<close> with a part handler, which then gets the last part.\<close>

lemma parse_table_cases:
  assumes "parse_table P s tab = Inr (tab', cur')"
  shows "\<exists>n m1 m2 s1 part r st rest.
    parse_key n closes (header_part n m1 m2) s1 (tab, [], False, []) = Inr (part, r, st) \<and>
    (header_part n m1 m2 part st = Inr (tab', rest) \<or> array_part n part st = Inr (tab', rest))"
proof (cases "parse_table P s tab = parse_single_table P (tl s) tab")
  case True
  then have "parse_single_table P (tl s) tab = Inr (tab', cur')" using assms(1) by simp
  then obtain part r st rest
    where "parse_key (line_number P) closes (header_part (line_number P)
        ''Empty component of table name'' ''already exists as a value'') (tl s) (tab, [], False, [])
      = Inr (part, r, st)"
    and "header_part (line_number P) ''Empty component of table name''
        ''already exists as a value'' part st = Inr (tab', rest)"
    by (auto simp: parse_single_table_def Let_def bind_result_Inr split: if_splits)
  then show ?thesis by blast
next
  case False
  then have "parse_table_array P (tl (tl s)) tab = Inr (tab', cur')"
    using assms(1) by (auto simp: parse_table_def Let_def split: if_splits)
  moreover from calculation have "starts (\<lambda>c. \<not> closes c) (tl (tl s))"
    by (simp add: parse_table_array_def Let_def) (rule ccontr, simp)
  ultimately obtain part r st rest
    where key: "parse_key (line_number P) closes (header_part (line_number P)
        ''Empty component of table array name'' '' already exists as a value'') (tl (tl s)) (tab, [], False, [])
      = Inr (part, r, st)"
    and last: "(if starts closes r then array_part (line_number P) part st
        else header_part (line_number P) ''Empty component of table array name''
          '' already exists as a value'' part st) = Inr (tab', rest)"
    by (auto simp: parse_table_array_def Let_def bind_result_Inr)
  have "header_part (line_number P) ''Empty component of table array name''
        '' already exists as a value'' part st = Inr (tab', rest)
      \<or> array_part (line_number P) part st = Inr (tab', rest)"
    using last by (simp split: if_splits)
  then show ?thesis using key by blast
qed

lemma parse_table_keeps:
  "parse_table P s tab = Inr (tab', cur') \<Longrightarrow> table_ok tab \<Longrightarrow> table_ok tab'"
  by (drule parse_table_cases) (elim exE conjE, rule header_ok)

lemma parse_lines_ok:
  "parse_lines f P tab cur = Some (Inr (tab', cur', P')) \<Longrightarrow> table_ok tab \<Longrightarrow> table_ok tab'"
proof (induction f P tab cur rule: parse_lines.induct)
  case (2 f P tab cur)
  show ?case
  proof (cases "getline (input P)")
    case None
    then show ?thesis using "2.prems" by simp
  next
    case (Some a)
    then obtain line i where line: "getline (input P) = Some (line, i)" by (cases a) auto
    let ?s = "consume_whitespace line"
    consider "?s = [] \<or> hd ?s = CHR ''#''" | "?s \<noteq> []" "hd ?s = CHR ''[''"
      | "?s \<noteq> []" "hd ?s \<noteq> CHR ''#''" "hd ?s \<noteq> CHR ''[''" by auto
    then show ?thesis
    proof cases
      case 1
      then show ?thesis using "2.IH"(1) [OF line refl refl refl 1] "2.prems" line by simp
    next
      case 2
      then obtain tab1 cur1 where t: "parse_table (next_line i P) ?s tab = Inr (tab1, cur1)"
        and rec: "parse_lines f (next_line i P) tab1 cur1 = Some (Inr (tab', cur', P'))"
        using "2.prems"(1) line by (auto simp: bind_fuel_Inr Let_def)
      show ?thesis
        using "2.IH"(2) [OF line refl refl refl] 2 rec parse_table_keeps [OF t "2.prems"(2)] by auto
    next
      case 3
      then obtain tab1 s1 P2 where t: "parse_key_value f (next_line i P) ?s tab cur = Some (Inr (tab1, s1, P2))"
        and rec: "parse_lines f P2 tab1 cur = Some (Inr (tab', cur', P'))"
        using "2.prems"(1) line by (auto simp: bind_fuel_Inr Let_def)
      have "table_ok tab1"
        using parse_key_value_ok [of f] t "2.prems"(2) unfolding enters_ok_def by blast
      then show ?thesis
        using "2.IH"(3) [OF line refl refl refl] 3 rec by auto
    qed
  qed
qed simp

section \<open>The fuel is enough\<close>

definition returned :: "'a option \<Rightarrow> bool" where
  "returned m \<longleftrightarrow> m \<noteq> None"

lemma returned_simps [simp]:
  "\<not> returned None" "returned (Some x)"
  by (simp_all add: returned_def)

lemma returned_bind:
  "returned (bind_fuel m g) \<longleftrightarrow> returned m \<and> (\<forall>x. m = Some (Inr x) \<longrightarrow> returned (g x))"
  by (auto simp: returned_def bind_fuel_def split: option.splits sum.splits)

definition returns :: "value_reader \<Rightarrow> nat \<Rightarrow> bool" where
  "returns reader m \<longleftrightarrow> (\<forall>P s. s \<noteq> [] \<longrightarrow> cursor_size (s, P) \<le> m \<longrightarrow> returned (reader P s))"

lemma returnsD: "returns reader m \<Longrightarrow> s \<noteq> [] \<Longrightarrow> cursor_size (s, P) \<le> m \<Longrightarrow> returned (reader P s)"
  by (simp add: returns_def)

lemma cursor_tl: "s \<noteq> [] \<Longrightarrow> cursor_size (tl s, P) < cursor_size (s, P)"
  by (cases s) (simp_all add: cursor_size_def)

lemma cursor_size_Suc: "s \<noteq> [] \<Longrightarrow> cursor_size (s, P) \<le> m \<Longrightarrow> \<exists>k. m = Suc k"
  by (cases m) (auto simp: cursor_size_def)

lemma determine_value_type_Nil [simp]: "determine_value_type n [] = throw_at n ''Failed to parse value type''"
  by (simp add: determine_value_type_def)

lemma value_body_returns:
  assumes "returns a m" and "returns i m" and "cursor_size (s, P) \<le> m"
  shows "returned (value_body a i P s)"
proof (cases "s = []")
  case False
  then show ?thesis
    using returnsD [OF assms(1) False assms(3)] returnsD [OF assms(2) False assms(3)]
    by (simp add: value_body_def returned_bind)
qed (simp add: value_body_def returned_bind)

lemma array_end_returns: "returned (array_end mk arr s P)"
  by (simp add: array_end_def)

text \<open>An element and the separator behind it take something off the cursor.\<close>

lemma separator_shrinks:
  assumes "reads_ok reader" and "reader P s = Some (Inr (v, s1, P1))"
    and "skip_whitespace_and_comments P1 s1 = Inr (s2, P2)"
    and "skip_whitespace_and_comments P2 (tl s2) = Inr (s3, P3)"
  shows "cursor_size (s3, P3) < cursor_size (s, P)"
proof -
  have "cursor_size (s1, P1) \<le> cursor_size (s, P)"
    using advance_size reads_okD [OF assms(1,2)] by blast
  moreover have "cursor_size (s2, P2) \<le> cursor_size (s1, P1)"
    using advance_size skip_advance [OF assms(3)] by blast
  moreover have "cursor_size (tl s2, P2) < cursor_size (s2, P2)"
    using skip_advance [OF assms(3)] cursor_tl by blast
  moreover have "cursor_size (s3, P3) \<le> cursor_size (tl s2, P2)"
    using advance_size skip_advance [OF assms(4)] by blast
  ultimately show ?thesis by linarith
qed

lemma parse_value_array_returns:
  "reads_ok reader \<Longrightarrow> returns reader m \<Longrightarrow> cursor_size (s, P) \<le> m \<Longrightarrow> cursor_size (s, P) < f \<Longrightarrow>
   returned (parse_value_array f reader k P s arr)"
proof (induction f arbitrary: P s arr)
  case (Suc f)
  have "returned (parse_value_array f reader k P3 s3 arr')"
    if "starts (\<lambda>c. \<not> closes c) s" "reader P s = Some (Inr (v, s1, P1))"
      "skip_whitespace_and_comments P1 s1 = Inr (s2, P2)"
      "skip_whitespace_and_comments P2 (tl s2) = Inr (s3, P3)" for v s1 P1 s2 P2 s3 P3 arr'
  proof -
    have "cursor_size (s3, P3) < cursor_size (s, P)"
      by (rule separator_shrinks [OF Suc.prems(1) that(2-4)])
    then have "cursor_size (s3, P3) \<le> m" and "cursor_size (s3, P3) < f" using Suc.prems(3,4) by linarith+
    then show ?thesis by (rule Suc.IH [OF Suc.prems(1,2)])
  qed
  moreover have "returned (reader P s)" if "starts (\<lambda>c. \<not> closes c) s"
    using Suc.prems(2,3) that by (auto simp: returns_def starts_def)
  ultimately show ?case by (auto simp: returned_bind)
qed simp

lemma parse_object_array_returns:
  "reads_ok reader \<Longrightarrow> returns reader m \<Longrightarrow> cursor_size (s, P) \<le> m \<Longrightarrow> cursor_size (s, P) < f \<Longrightarrow>
   returned (parse_object_array f reader mk delim P s arr)"
proof (induction f arbitrary: P s arr)
  case (Suc f)
  have "returned (parse_object_array f reader mk delim P3 s3 arr')"
    if "starts (\<lambda>c. \<not> closes c) s" "reader P s = Some (Inr (v, s1, P1))"
      "skip_whitespace_and_comments P1 s1 = Inr (s2, P2)"
      "skip_whitespace_and_comments P2 (tl s2) = Inr (s3, P3)" for v s1 P1 s2 P2 s3 P3 arr'
  proof -
    have "cursor_size (s3, P3) < cursor_size (s, P)"
      by (rule separator_shrinks [OF Suc.prems(1) that(2-4)])
    then have "cursor_size (s3, P3) \<le> m" and "cursor_size (s3, P3) < f" using Suc.prems(3,4) by linarith+
    then show ?thesis by (rule Suc.IH [OF Suc.prems(1,2)])
  qed
  moreover have "returned (reader P s)" if "starts (\<lambda>c. \<not> closes c) s"
    using Suc.prems(2,3) that by (auto simp: returns_def starts_def)
  ultimately show ?case by (auto simp: returned_bind array_end_returns)
qed simp

lemma array_body_returns:
  assumes "reads_ok reader" "reads_ok a" "reads_ok i"
    and "returns reader m" "returns a m" "returns i m"
    and "cursor_size (s, P) \<le> Suc m" "s \<noteq> []" "m < f"
  shows "returned (array_body f reader a i P s)"
proof -
  have "cursor_size (s1, P1) \<le> m" if "skip_whitespace_and_comments P (tl s) = Inr (s1, P1)" for s1 P1
    using advance_size [of "(tl s, P)" "(s1, P1)"] skip_advance [OF that] cursor_tl [OF assms(8), of P] assms(7)
    by simp
  then show ?thesis
    using parse_object_array_returns [OF assms(2,5)] parse_object_array_returns [OF assms(3,6)]
      parse_value_array_returns [OF assms(1,4)] assms(9)
    by (auto simp: array_body_def returned_bind)
qed

definition enters_returns :: "entry_reader \<Rightarrow> nat \<Rightarrow> bool" where
  "enters_returns reader m \<longleftrightarrow>
     (\<forall>P s t cur. s \<noteq> [] \<longrightarrow> cursor_size (s, P) \<le> m \<longrightarrow> returned (reader P s t cur))"

lemma enters_returnsD:
  "enters_returns reader m \<Longrightarrow> s \<noteq> [] \<Longrightarrow> cursor_size (s, P) \<le> m \<Longrightarrow> returned (reader P s t cur)"
  by (simp add: enters_returns_def)

lemma enters_okD:
  "enters_ok reader \<Longrightarrow> reader P s t cur = Some (Inr (t', r, P')) \<Longrightarrow> advance (s, P) (r, P')"
  by (simp add: enters_ok_def)

lemma inline_loop_returns:
  "enters_ok reader \<Longrightarrow> enters_returns reader m \<Longrightarrow> cursor_size (s, P) \<le> Suc m \<Longrightarrow> cursor_size (s, P) < f \<Longrightarrow>
   returned (inline_loop f reader P s tbl)"
proof (induction f arbitrary: P s tbl)
  case (Suc f)
  let ?s2 = "consume_whitespace (tl s)"
  have size2: "cursor_size (?s2, P) < cursor_size (s, P)" if "tl s \<noteq> []"
  proof -
    have "cursor_size (?s2, P) \<le> cursor_size (tl s, P)"
      by (rule advance_size) (rule consume_whitespace_advance)
    then show ?thesis using that cursor_tl [of s P] by fastforce
  qed
  have again: "returned (inline_loop f reader P3 s3 tbl3)"
    if "cursor_size (s3, P3) < cursor_size (s, P)" for s3 P3 tbl3
  proof -
    have "cursor_size (s3, P3) \<le> Suc m" and "cursor_size (s3, P3) < f" using that Suc.prems(3,4) by linarith+
    then show ?thesis by (rule Suc.IH [OF Suc.prems(1,2)])
  qed
  have after: "cursor_size (consume_whitespace s3, P3) < cursor_size (s, P)"
    if "tl s \<noteq> []" "reader P ?s2 tbl [] = Some (Inr (t3, s3, P3))" for t3 s3 P3
  proof -
    have "cursor_size (consume_whitespace s3, P3) \<le> cursor_size (s3, P3)"
      by (rule advance_size) (rule consume_whitespace_advance)
    also have "\<dots> \<le> cursor_size (?s2, P)"
      by (rule advance_size) (rule enters_okD [OF Suc.prems(1) that(2)])
    also have "\<dots> < cursor_size (s, P)" by (rule size2 [OF that(1)])
    finally show ?thesis .
  qed
  have "returned (reader P ?s2 tbl [])" if "tl s \<noteq> []" "starts (\<lambda>c. c \<noteq> CHR ''}'') ?s2"
    by (rule enters_returnsD [OF Suc.prems(2)])
      (use that size2 Suc.prems(3) in \<open>auto simp: starts_def\<close>)
  then show ?case
    using again size2 after
    by (auto simp: Let_def returned_bind bind_fuel_Inr split: if_splits)
qed simp

lemma key_value_body_returns:
  assumes "returns reader m" and "\<And>P. returned (reader P [])" and "cursor_size (s, P) \<le> Suc m"
  shows "returned (key_value_body reader P s t cur)"
proof -
  have "returned (reader P (consume_whitespace (tl s1)))"
    if "parse_key (line_number P) e h s st = Inr (key, s1, st')" for e h key s1 and st st' :: "table \<times> string list"
  proof (cases "consume_whitespace (tl s1) = []")
    case False
    have "length (consume_whitespace (tl s1)) \<le> length s1"
      using suffix_length_le [OF consume_whitespace_suffix [of "tl s1"]] by simp
    then have "cursor_size (consume_whitespace (tl s1), P) \<le> m"
      using suffix_length_less [OF parse_key_suffix [OF that]] assms(3) by (simp add: cursor_size_def)
    then show ?thesis by (rule returnsD [OF assms(1) False])
  qed (simp add: assms(2))
  then show ?thesis by (auto simp: key_value_body_def returned_bind Let_def)
qed

lemma parse_value_Nil: "0 < f \<Longrightarrow> returned (parse_value f P [])"
  by (cases f) (simp_all add: value_body_def returned_bind)

lemma parse_value_returns: "2 * m + 3 \<le> f \<Longrightarrow> returns (parse_value f) m"
  and parse_array_returns: "2 * m + 2 \<le> f \<Longrightarrow> returns (parse_array f) m"
  and parse_inline_table_returns: "2 * m + 2 \<le> f \<Longrightarrow> returns (parse_inline_table f) m"
  and parse_key_value_returns: "2 * m + 2 \<le> f \<Longrightarrow> enters_returns (parse_key_value f) m"
proof (induction f arbitrary: m)
  case (Suc f)
  case 1
  then show ?case
    using value_body_returns [OF Suc(2,3)] by (simp add: returns_def)
next
  case (Suc f)
  case 2
  have "returned (parse_array (Suc f) P s)" if ne: "s \<noteq> []" "cursor_size (s, P) \<le> m" for P s
  proof -
    obtain k where "m = Suc k" using cursor_size_Suc [OF ne] by blast
    then show ?thesis
      using 2 that parse_value_ok parse_array_ok parse_inline_table_ok Suc(1-3) [of k]
      by (auto simp: arrays_ok_def inlines_ok_def intro!: array_body_returns [of _ _ _ k])
  qed
  then show ?case by (simp add: returns_def)
next
  case (Suc f)
  case 3
  have "returned (parse_inline_table (Suc f) P s)" if ne: "s \<noteq> []" "cursor_size (s, P) \<le> m" for P s
  proof -
    obtain k where "m = Suc k" using cursor_size_Suc [OF ne] by blast
    then show ?thesis
      using 3 that parse_key_value_ok Suc(4) [of k] by (auto intro!: inline_loop_returns [of _ k])
  qed
  then show ?case by (simp add: returns_def)
next
  case (Suc f)
  case 4
  have "returned (parse_key_value (Suc f) P s t cur)" if ne: "s \<noteq> []" "cursor_size (s, P) \<le> m" for P s t cur
  proof -
    obtain k where "m = Suc k" using cursor_size_Suc [OF ne] by blast
    then show ?thesis
      using 4 that Suc(1) [of k] parse_value_Nil [of f] by (auto intro!: key_value_body_returns [of _ k])
  qed
  then show ?case by (simp add: enters_returns_def)
qed simp_all

lemma parse_lines_returns:
  "2 * stream_size (input P) + 2 \<le> f \<Longrightarrow> returned (parse_lines f P tab cur)"
proof (induction f P tab cur rule: parse_lines.induct)
  case (2 f P tab cur)
  show ?case
  proof (cases "getline (input P)")
    case (Some a)
    then obtain line i where line: "getline (input P) = Some (line, i)" by (cases a) auto
    let ?s = "consume_whitespace line" and ?P1 = "next_line i P"
    have size: "length line + stream_size i < stream_size (input P)" by (rule getline_size [OF line])
    then have more: "2 * stream_size i + 2 \<le> f" using "2.prems" by linarith
    have kv: "returned (parse_key_value f ?P1 ?s tab cur)" if "?s \<noteq> []"
    proof (rule enters_returnsD [OF parse_key_value_returns that])
      show "cursor_size (?s, ?P1) \<le> cursor_size (?s, ?P1)" by simp
      show "2 * cursor_size (?s, ?P1) + 2 \<le> f"
        using size "2.prems" suffix_length_le [OF consume_whitespace_suffix [of line]]
        by (simp add: cursor_size_def next_line_def)
    qed
    have more2: "2 * stream_size (input P2) + 2 \<le> f"
      if "parse_key_value f ?P1 ?s tab cur = Some (Inr (tab1, s1, P2))" for tab1 s1 P2
      using advance_size [OF enters_okD [OF parse_key_value_ok that]] size "2.prems"
        suffix_length_le [OF consume_whitespace_suffix [of line]]
      by (simp add: cursor_size_def next_line_def)
    show ?thesis
      using "2.IH" [OF line refl refl refl] more more2 kv line
      by (auto simp: returned_bind Let_def next_line_def)
  qed simp
qed simp

lemma parse_answers: "returned (parse s merge stringify)"
proof -
  have "returned (parse_lines (parse_fuel s) (parser_on s merge stringify) [] [])"
    by (rule parse_lines_returns) (simp add: parse_fuel_def parser_on_def stream_of_def stream_size_def)
  then show ?thesis by (simp add: parse_def returned_bind split_beta)
qed

lemma parse_table_ok:
  assumes "parse s merge stringify = Some (Inr t)"
  shows "table_ok t"
proof -
  obtain cur P where "parse_lines (parse_fuel s) (parser_on s merge stringify) [] [] = Some (Inr (t, cur, P))"
    using assms by (auto simp: parse_def bind_fuel_Inr)
  then show ?thesis using parse_lines_ok empty_ok(1) by blast
qed

section \<open>Properties\<close>

text \<open>
  C23: the parser returns on every text: its loops end and its recursion is finite, which is that
  the fuel \<open>parse_fuel\<close> is never used up.
\<close>

theorem parse_returns: "parse s merge stringify \<noteq> None"
  using parse_answers [of s merge stringify] by (simp add: returned_def)

text \<open>
  C24: the trees that the parser builds are well-formed: the keys of each table are distinct and in
  order, arrays are homogeneous, arrays of tables are not empty, and integers fit into 64 bits.
\<close>

theorem parse_well_formed:
  "parse s merge stringify = Some (Inr t) \<Longrightarrow> table_ok t"
  by (rule parse_table_ok)

theorem parse_well_formed_witness:
  "parse (''[a.b]'' @ [CHR 0x0A] @ ''k=[1, 2]'') Merge_none False
     = Some (Inr [(''a'', TTable [(''b'', TTable [(''k'', TArray [TInt 1, TInt 2])])])])
   \<and> table_ok [(''a'', TTable [(''b'', TTable [(''k'', TArray [TInt 1, TInt 2])])])]"
proof -
  have "parse (''[a.b]'' @ [CHR 0x0A] @ ''k=[1, 2]'') Merge_none False
      = Some (Inr [(''a'', TTable [(''b'', TTable [(''k'', TArray [TInt 1, TInt 2])])])])"
    by code_simp
  from this parse_well_formed [OF this] show ?thesis ..
qed

end
