(* ===== verification/Toml_Merge.thy ===== *)
theory Toml_Merge
  imports Toml_Total
begin

text \<open>
  What stands first wins: when two texts are parsed one behind the other in the merge mode
  \<open>ignore\<close>, the first one is read as it is alone (\<open>parse_lines_append\<close>), and no later line changes a
  value that it has set (\<open>parse_lines_leaf\<close>).
\<close>

section \<open>A longer input\<close>

definition more_input :: "string \<Rightarrow> istream \<Rightarrow> istream" where
  "more_input rest i = \<lparr>stream_buf = stream_buf i @ rest, eofbit = eofbit i\<rparr>"

definition more :: "string \<Rightarrow> parser \<Rightarrow> parser" where
  "more rest P = P\<lparr>input := more_input rest (input P)\<rparr>"

lemma more_simps [simp]:
  "input (more rest P) = more_input rest (input P)"
  "merge_mode (more rest P) = merge_mode P"
  "stringify_values (more rest P) = stringify_values P"
  "line_number (more rest P) = line_number P"
  "next_line (more_input rest i) (more rest P) = more rest (next_line i P)"
  "merge_mode (next_line i P) = merge_mode P"
  "throw_parse_exception (more rest P) err = throw_parse_exception P err"
  by (simp_all add: more_def next_line_def throw_parse_exception_def)

definition whole_lines :: "parser \<Rightarrow> bool" where
  "whole_lines P \<longleftrightarrow> \<not> eofbit (input P) \<and> nl_ended (stream_buf (input P))"

lemma advance_whole_lines: "advance (s, P) (s', P') \<Longrightarrow> whole_lines P \<Longrightarrow> whole_lines P'"
  using advance_nl advance_open unfolding whole_lines_def by fastforce

lemma getline_None: "getline i = None \<longleftrightarrow> eofbit i"
  by (auto simp: getline_def split: prod.splits option.splits)

lemma take_line_append: "take_line s = (l, Some r) \<Longrightarrow> take_line (s @ t) = (l, Some (r @ t))"
proof (induction s arbitrary: l rule: take_line.induct)
  case (2 c s)
  then show ?case by (cases s) (auto split: if_splits prod.splits)
qed simp

lemma getline_more:
  assumes "whole_lines P" and "getline (input P) = Some (line, i)" and "\<not> eofbit i"
  shows "getline (more_input rest (input P)) = Some (line, more_input rest i)" "whole_lines (next_line i P)"
proof -
  obtain l r where take: "take_line (stream_buf (input P)) = (l, r)" by (cases "take_line (stream_buf (input P))")
  have nl: "nl_ended (stream_buf (input P))" and opened: "\<not> eofbit (input P)"
    using assms(1) by (auto simp: whole_lines_def)
  have "r \<noteq> None"
  proof
    assume "r = None"
    then have "stream_buf (input P) = []" using take take_line_nl(2) nl by blast
    then show False using assms(2,3) opened by (auto simp: getline_def)
  qed
  then obtain r' where r: "r = Some r'" by blast
  then show "getline (more_input rest (input P)) = Some (line, more_input rest i)"
    using assms(2) take take_line_append [of "stream_buf (input P)" l r' rest] opened
    by (auto simp: getline_def more_input_def)
  show "whole_lines (next_line i P)"
    using getline_nl [OF assms(2,3) nl] assms(3) by (simp add: whole_lines_def next_line_def)
qed

lemma multiline_lines_more:
  "multiline_lines P delim c ss = Inr (v, r, P') \<Longrightarrow> whole_lines P \<Longrightarrow>
   multiline_lines (more rest P) delim c ss = Inr (v, r, more rest P')"
proof (induction P delim c ss rule: multiline_lines.induct)
  case (1 P delim c ss)
  obtain line i where line: "getline (input P) = Some (line, i)"
    using "1.prems" by (subst (asm) multiline_lines.simps) (auto split: option.splits)
  let ?P1 = "next_line i P"
  obtain ended c' ss' t where h: "handle_line (line_number ?P1) delim c ss line = Inr (ended, c', ss', t)"
    and last: "if ended then ss' = v \<and> t = r \<and> ?P1 = P'
      else multiline_lines ?P1 delim c' (if c' then ss' else ss' @ [CHR 0x0A]) = Inr (v, r, P')"
    using "1.prems" line
    by (subst (asm) multiline_lines.simps) (auto simp: bind_result_Inr Let_def split: if_splits)
  have "\<not> eofbit i"
  proof
    assume eof: "eofbit i"
    then have "multiline_lines ?P1 delim c' x \<noteq> Inr (v, r, P')" for x
      by (subst multiline_lines.simps) (simp add: next_line_def)
    then show False using h last getline_eof [OF line eof] by (auto split: if_splits)
  qed
  note more = getline_more [OF "1.prems"(2) line this]
  show ?case
  proof (cases ended)
    case True
    then show ?thesis using h last more(1) [of rest] by (subst multiline_lines.simps) simp
  next
    case False
    then have "multiline_lines (more rest ?P1) delim c' (if c' then ss' else ss' @ [CHR 0x0A])
        = Inr (v, r, more rest P')"
      using "1.IH" [OF line refl refl h refl refl refl False] last more(2) by simp
    then show ?thesis using h False more(1) [of rest] by (subst multiline_lines.simps) simp
  qed
qed

lemma skip_more:
  "skip_whitespace_and_comments P s = Inr (r, P') \<Longrightarrow> whole_lines P \<Longrightarrow>
   skip_whitespace_and_comments (more rest P) s = Inr (r, more rest P')"
proof (induction P s rule: skip_whitespace_and_comments.induct)
  case (1 P s)
  show ?case
  proof (cases "consume_whitespace s = [] \<or> hd (consume_whitespace s) = CHR ''#''")
    case False
    then show ?thesis
      using "1.prems" by (auto simp: skip_whitespace_and_comments.simps [of _ s])
  next
    case True
    then obtain line i where line: "getline (input P) = Some (line, i)"
      and rec: "skip_whitespace_and_comments (next_line i P) line = Inr (r, P')"
      using "1.prems" by (auto simp: skip_whitespace_and_comments.simps [of P s] split: option.splits)
    have "\<not> eofbit i"
    proof
      assume "eofbit i"
      then show False
        using rec getline_eof [OF line]
        by (simp add: skip_whitespace_and_comments.simps [of _ "[]"] consume_whitespace_def next_line_def)
    qed
    note more = getline_more [OF "1.prems"(2) line this]
    show ?thesis
      using "1.IH" [OF refl True line refl rec more(2)] True more(1) [of rest]
      by (simp add: skip_whitespace_and_comments.simps [of _ s])
  qed
qed

lemma parse_string_more:
  assumes "parse_string P s = Inr (v, r, P')" and "whole_lines P"
  shows "parse_string (more rest P) s = Inr (v, r, more rest P')"
proof -
  have lines: "multiline_lines (more rest P) delim c ss = Inr (x, r', more rest P1)"
    if "multiline_lines P delim c ss = Inr (x, r', P1)" for delim c ss x r' P1
    by (rule multiline_lines_more [OF that assms(2)])
  show ?thesis
    using assms(1) unfolding parse_string_def parse_multiline_string_def Let_def
    by (auto simp: bind_result_Inr lines split: if_splits)
qed

lemma parse_basic_more:
  "parse_basic P type s = Inr (v, r, P') \<Longrightarrow> whole_lines P \<Longrightarrow>
   parse_basic (more rest P) type s = Inr (v, r, more rest P')"
  by (cases type) (auto simp: parse_basic_def bind_result_Inr parse_string_more)

lemma parse_simple_value_more:
  assumes "parse_simple_value P type s = Inr (v, r, P')" and "whole_lines P"
  shows "parse_simple_value (more rest P) type s = Inr (v, r, more rest P')"
proof (cases "stringify_values P \<and> type \<noteq> STRING")
  case False
  then show ?thesis using assms parse_basic_more by (auto simp: parse_simple_value_def)
next
  case True
  then obtain w P1 x where basic: "parse_basic P type s = Inr (w, r, P1)"
    and quoted: "parse_string P1 ([CHR 0x22] @ s @ [CHR 0x22]) = Inr (v, x, P')"
    using assms(1) by (auto simp: parse_simple_value_def bind_result_Inr)
  have "whole_lines P1" using parse_basic_advance [OF basic] advance_whole_lines assms(2) by blast
  then show ?thesis
    using True parse_basic_more [OF basic assms(2)] parse_string_more [OF quoted]
    by (simp add: parse_simple_value_def)
qed

section \<open>The readers on a longer input and with more fuel\<close>

definition reads_more :: "string \<Rightarrow> value_reader \<Rightarrow> value_reader \<Rightarrow> bool" where
  "reads_more rest reader reader' \<longleftrightarrow> reads_ok reader \<and>
     (\<forall>P s v r P'. whole_lines P \<longrightarrow> reader P s = Some (Inr (v, r, P')) \<longrightarrow>
        reader' (more rest P) s = Some (Inr (v, r, more rest P')))"

lemma reads_moreD:
  assumes "reads_more rest reader reader'" and "whole_lines P" and "reader P s = Some (Inr (v, r, P'))"
  shows "reader' (more rest P) s = Some (Inr (v, r, more rest P'))" "whole_lines P'"
proof -
  have "advance (s, P) (r, P')"
    using assms(1) reads_okD [of reader P s v r P'] assms(3) unfolding reads_more_def by blast
  then show "whole_lines P'" using advance_whole_lines assms(2) by blast
  show "reader' (more rest P) s = Some (Inr (v, r, more rest P'))"
    using assms unfolding reads_more_def by blast
qed

lemma skip_moreD:
  assumes "whole_lines P" and "skip_whitespace_and_comments P s = Inr (r, P')"
  shows "skip_whitespace_and_comments (more rest P) s = Inr (r, more rest P')" "whole_lines P'"
  using assms skip_more skip_advance [OF assms(2)] advance_whole_lines by blast+

lemma value_body_more:
  assumes "reads_more rest a a'" and "reads_more rest i i'"
  shows "reads_more rest (value_body a i) (value_body a' i')"
proof -
  have "reads_ok (value_body a i)"
    using assms value_body_ok unfolding reads_more_def by blast
  moreover have "value_body a' i' (more rest P) s = Some (Inr (v, r, more rest P'))"
    if "whole_lines P" and "value_body a i P s = Some (Inr (v, r, P'))" for P s v r P'
    using that reads_moreD(1) [OF assms(1) that(1)] reads_moreD(1) [OF assms(2) that(1)]
      parse_simple_value_more
    by (auto simp: value_body_def bind_fuel_Inr split: if_splits)
  ultimately show ?thesis unfolding reads_more_def by blast
qed

lemma parse_value_array_more:
  "parse_value_array f reader k P s arr = Some (Inr (v, r, P')) \<Longrightarrow> whole_lines P \<Longrightarrow>
   reads_more rest reader reader' \<Longrightarrow> f \<le> f' \<Longrightarrow>
   parse_value_array f' reader' k (more rest P) s arr = Some (Inr (v, r, more rest P'))"
proof (induction f arbitrary: f' P s arr)
  case (Suc f)
  obtain g where f': "f' = Suc g" and "f \<le> g" using Suc.prems(4) by (cases f') auto
  show ?case
  proof (cases "starts (\<lambda>c. \<not> closes c) s")
    case False
    then show ?thesis using Suc.prems(1) f' by simp
  next
    case True
    then obtain x s1 P1 s2 P2 where x: "reader P s = Some (Inr (x, s1, P1))" and k: "as_value k x \<noteq> None"
      and ws: "skip_whitespace_and_comments P1 s1 = Inr (s2, P2)"
      and last: "(if hd s2 \<noteq> CHR '','' then Some (Inr (TArray (arr @ [x]), tl s2, P2))
          else bind_fuel (Some (skip_whitespace_and_comments P2 (tl s2))) (\<lambda>(s3, P3).
            parse_value_array f reader k P3 s3 (arr @ [x]))) = Some (Inr (v, r, P'))"
      using Suc.prems(1) by (auto simp: bind_fuel_Inr split: if_splits)
    note x' = reads_moreD [OF Suc.prems(3,2) x]
    note ws' = skip_moreD [OF x'(2) ws]
    show ?thesis
    proof (cases "hd s2 = CHR '',''")
      case False
      then show ?thesis using True k x' ws'(1) [of rest] last f' by simp
    next
      case comma: True
      then obtain s3 P3 where ws3: "skip_whitespace_and_comments P2 (tl s2) = Inr (s3, P3)"
        and rec: "parse_value_array f reader k P3 s3 (arr @ [x]) = Some (Inr (v, r, P'))"
        using last by (auto simp: bind_fuel_Inr)
      note ws3' = skip_moreD [OF ws'(2) ws3]
      show ?thesis
        using Suc.IH [OF rec ws3'(2) Suc.prems(3) \<open>f \<le> g\<close>] True k comma x'(1) ws'(1) [of rest]
          ws3'(1) [of rest] f' by simp
    qed
  qed
qed simp

lemma array_end_more:
  "array_end mk arr s P = Some (Inr (v, r, P')) \<Longrightarrow>
   array_end mk arr s (more rest P) = Some (Inr (v, r, more rest P'))"
  by (auto simp: array_end_def split: if_splits)

lemma parse_object_array_more:
  "parse_object_array f reader mk delim P s arr = Some (Inr (v, r, P')) \<Longrightarrow> whole_lines P \<Longrightarrow>
   reads_more rest reader reader' \<Longrightarrow> f \<le> f' \<Longrightarrow>
   parse_object_array f' reader' mk delim (more rest P) s arr = Some (Inr (v, r, more rest P'))"
proof (induction f arbitrary: f' P s arr)
  case (Suc f)
  obtain g where f': "f' = Suc g" and "f \<le> g" using Suc.prems(4) by (cases f') auto
  show ?case
  proof (cases "starts (\<lambda>c. \<not> closes c) s")
    case False
    then show ?thesis using Suc.prems(1) array_end_more f' by simp
  next
    case True
    then obtain x s1 P1 s2 P2 where x: "reader P s = Some (Inr (x, s1, P1))" and d: "hd s = delim"
      and ws: "skip_whitespace_and_comments P1 s1 = Inr (s2, P2)"
      and last: "(if \<not> starts (\<lambda>c. c = CHR '','') s2 then array_end mk (arr @ [x]) s2 P2
          else bind_fuel (Some (skip_whitespace_and_comments P2 (tl s2))) (\<lambda>(s3, P3).
            parse_object_array f reader mk delim P3 s3 (arr @ [x]))) = Some (Inr (v, r, P'))"
      using Suc.prems(1) by (auto simp: bind_fuel_Inr split: if_splits)
    note x' = reads_moreD [OF Suc.prems(3,2) x]
    note ws' = skip_moreD [OF x'(2) ws]
    show ?thesis
    proof (cases "starts (\<lambda>c. c = CHR '','') s2")
      case False
      then show ?thesis using True d x' ws'(1) [of rest] last array_end_more f' by simp
    next
      case comma: True
      then obtain s3 P3 where ws3: "skip_whitespace_and_comments P2 (tl s2) = Inr (s3, P3)"
        and rec: "parse_object_array f reader mk delim P3 s3 (arr @ [x]) = Some (Inr (v, r, P'))"
        using last by (auto simp: bind_fuel_Inr)
      note ws3' = skip_moreD [OF ws'(2) ws3]
      show ?thesis
        using Suc.IH [OF rec ws3'(2) Suc.prems(3) \<open>f \<le> g\<close>] True d comma x'(1) ws'(1) [of rest]
          ws3'(1) [of rest] f' by simp
    qed
  qed
qed simp

lemma array_body_more:
  assumes "reads_more rest reader reader'" "reads_more rest a a'" "reads_more rest i i'" "f \<le> f'"
    and "whole_lines P" and "array_body f reader a i P s = Some (Inr (v, r, P'))"
  shows "array_body f' reader' a' i' (more rest P) s = Some (Inr (v, r, more rest P'))"
proof -
  obtain s1 P1 where ws: "skip_whitespace_and_comments P (tl s) = Inr (s1, P1)"
    using assms(6) by (auto simp: array_body_def bind_fuel_Inr)
  note ws' = skip_moreD [OF assms(5) ws]
  show ?thesis
    using assms(6) ws ws'(1) [of rest] parse_object_array_more [OF _ ws'(2) assms(2,4)]
      parse_object_array_more [OF _ ws'(2) assms(3,4)] parse_value_array_more [OF _ ws'(2) assms(1,4)]
    by (auto simp: array_body_def bind_fuel_Inr split: if_splits)
qed

definition enters_more :: "string \<Rightarrow> entry_reader \<Rightarrow> entry_reader \<Rightarrow> bool" where
  "enters_more rest reader reader' \<longleftrightarrow> enters_ok reader \<and>
     (\<forall>P s t cur t' r P'. whole_lines P \<longrightarrow> reader P s t cur = Some (Inr (t', r, P')) \<longrightarrow>
        reader' (more rest P) s t cur = Some (Inr (t', r, more rest P')))"

lemma enters_moreD:
  assumes "enters_more rest reader reader'" and "whole_lines P"
    and "reader P s t cur = Some (Inr (t', r, P'))"
  shows "reader' (more rest P) s t cur = Some (Inr (t', r, more rest P'))" "whole_lines P'"
proof -
  have "advance (s, P) (r, P')"
    using assms(1) enters_okD [of reader P s t cur t' r P'] assms(3) unfolding enters_more_def by blast
  then show "whole_lines P'" using advance_whole_lines assms(2) by blast
  show "reader' (more rest P) s t cur = Some (Inr (t', r, more rest P'))"
    using assms unfolding enters_more_def by blast
qed

lemma inline_loop_more:
  "inline_loop f reader P s tbl = Some (Inr (v, r, P')) \<Longrightarrow> whole_lines P \<Longrightarrow>
   enters_more rest reader reader' \<Longrightarrow> f \<le> f' \<Longrightarrow>
   inline_loop f' reader' (more rest P) s tbl = Some (Inr (v, r, more rest P'))"
proof (induction f arbitrary: f' P s tbl)
  case (Suc f)
  obtain g where f': "f' = Suc g" and "f \<le> g" using Suc.prems(4) by (cases f') auto
  let ?s2 = "consume_whitespace (tl s)"
  define entry where "entry \<equiv> \<lambda>reader :: entry_reader. \<lambda>P.
    (if starts (\<lambda>c. c \<noteq> CHR ''}'') ?s2 then
        bind_fuel (reader P ?s2 tbl []) (\<lambda>(tbl', s3, P'). Some (Inr (tbl', consume_whitespace s3, P')))
      else Some (Inr (tbl, ?s2, P)))"
  obtain tbl' s4 P1 where e: "entry reader P = Some (Inr (tbl', s4, P1))"
    and ne: "tl s \<noteq> []"
    and last: "(if starts (\<lambda>c. c = CHR '','') s4 then inline_loop f reader P1 s4 tbl'
      else if starts (\<lambda>c. c = CHR ''}'') s4 then Some (Inr (TTable tbl', consume_whitespace (tl s4), P1))
      else Some (throw_parse_exception P1 ''Unterminated inline table'')) = Some (Inr (v, r, P'))"
    using Suc.prems(1) by (auto simp: entry_def bind_fuel_Inr Let_def split: if_splits)
  have e': "entry reader' (more rest P) = Some (Inr (tbl', s4, more rest P1)) \<and> whole_lines P1"
    using e Suc.prems(2) enters_moreD [OF Suc.prems(3,2)]
    by (auto simp: entry_def bind_fuel_Inr split: if_splits)
  have unfold: "inline_loop f' reader' (more rest P) s tbl =
    (if starts (\<lambda>c. c = CHR '','') s4 then inline_loop g reader' (more rest P1) s4 tbl'
      else if starts (\<lambda>c. c = CHR ''}'') s4
      then Some (Inr (TTable tbl', consume_whitespace (tl s4), more rest P1))
      else Some (throw_parse_exception P1 ''Unterminated inline table''))"
    using e' ne f' by (simp add: entry_def Let_def)
  show ?case
    unfolding unfold using last Suc.IH [OF _ _ Suc.prems(3) \<open>f \<le> g\<close>, of P1 s4 tbl'] e'
    by (auto split: if_splits)
qed simp

lemma key_value_body_more:
  assumes "reads_more rest reader reader'"
  shows "enters_more rest (key_value_body reader) (key_value_body reader')"
  unfolding enters_more_def
proof (intro conjI allI impI)
  show "enters_ok (key_value_body reader)"
    using assms key_value_body_ok unfolding reads_more_def by blast
  fix P s t cur t' r P'
  assume "whole_lines P" and res: "key_value_body reader P s t cur = Some (Inr (t', r, P'))"
  then obtain key s1 tab1 cur1 where key: "parse_key (line_number P) (\<lambda>c. c = CHR ''='')
      (key_part (line_number P)) s (t, cur) = Inr (key, s1, tab1, cur1)"
    by (auto simp: key_value_body_def bind_fuel_Inr)
  show "key_value_body reader' (more rest P) s t cur = Some (Inr (t', r, more rest P'))"
    using res key reads_moreD(1) [OF assms \<open>whole_lines P\<close>]
    by (auto simp: key_value_body_def bind_fuel_Inr Let_def split: if_splits)
qed

lemma parse_value_more: "f \<le> f' \<Longrightarrow> reads_more rest (parse_value f) (parse_value f')"
  and parse_array_more: "f \<le> f' \<Longrightarrow> reads_more rest (parse_array f) (parse_array f')"
  and parse_inline_table_more: "f \<le> f' \<Longrightarrow> reads_more rest (parse_inline_table f) (parse_inline_table f')"
  and parse_key_value_more: "f \<le> f' \<Longrightarrow> enters_more rest (parse_key_value f) (parse_key_value f')"
proof (induction f arbitrary: f')
  case (Suc f)
  case 1
  then obtain g where f': "f' = Suc g" and "f \<le> g" by (cases f') auto
  then show ?case
    using value_body_more [OF Suc(2,3)] by (simp add: reads_more_def reads_ok_def)
next
  case (Suc f)
  case 2
  then obtain g where f': "f' = Suc g" and g: "f \<le> g" by (cases f') auto
  show ?case
    unfolding reads_more_def
  proof (intro conjI allI impI)
    show "reads_ok (parse_array (Suc f))" using parse_array_ok unfolding arrays_ok_def by blast
    show "parse_array f' (more rest P) s = Some (Inr (v, r, more rest P'))"
      if "whole_lines P" and "parse_array (Suc f) P s = Some (Inr (v, r, P'))" for P s v r P'
      using array_body_more [OF Suc(1) [OF g] Suc(2) [OF g] Suc(3) [OF g] g that(1)] that(2) f' by simp
  qed
next
  case (Suc f)
  case 3
  then obtain g where f': "f' = Suc g" and g: "f \<le> g" by (cases f') auto
  show ?case
    unfolding reads_more_def
  proof (intro conjI allI impI)
    show "reads_ok (parse_inline_table (Suc f))" using parse_inline_table_ok unfolding inlines_ok_def by blast
    show "parse_inline_table f' (more rest P) s = Some (Inr (v, r, more rest P'))"
      if "whole_lines P" and "parse_inline_table (Suc f) P s = Some (Inr (v, r, P'))" for P s v r P'
      using inline_loop_more [OF _ that(1) Suc(4) [OF g] g] that(2) f' by simp
  qed
next
  case (Suc f)
  case 4
  then obtain g where f': "f' = Suc g" and "f \<le> g" by (cases f') auto
  then show ?case
    using key_value_body_more [OF Suc(1)] by (simp add: enters_more_def enters_ok_def)
next
  case 0
  { case 1 show ?case by (simp add: reads_more_def reads_ok_def) }
  { case 2 show ?case by (simp add: reads_more_def reads_ok_def) }
  { case 3 show ?case by (simp add: reads_more_def reads_ok_def) }
  { case 4 show ?case by (simp add: enters_more_def enters_ok_def) }
qed

lemma parse_table_more [simp]: "parse_table (more rest P) s tab = parse_table P s tab"
  unfolding parse_table_def parse_single_table_def parse_table_array_def more_simps ..

text \<open>
  The lines of the first text are read as they are alone; what follows starts from the tables they
  leave, with some parser and some fuel.
\<close>

lemma parse_lines_append:
  "parse_lines f P tab cur = Some (Inr (tab', cur', P')) \<Longrightarrow> whole_lines P \<Longrightarrow> f \<le> f' \<Longrightarrow>
   \<exists>f'' P''. parse_lines f' (more rest P) tab cur = parse_lines f'' P'' tab' cur' \<and>
     merge_mode P'' = merge_mode P"
proof (induction f P tab cur arbitrary: f' rule: parse_lines.induct)
  case (2 f P tab cur)
  obtain g where f': "f' = Suc g" and "f \<le> g" using "2.prems"(3) by (cases f') auto
  obtain line i where line: "getline (input P) = Some (line, i)"
    using "2.prems"(2) getline_None by (cases "getline (input P)") (auto simp: whole_lines_def)
  let ?P1 = "next_line i P" and ?s = "consume_whitespace line"
  show ?case
  proof (cases "eofbit i")
    case True
    then have "line = []" by (rule getline_eof [OF line])
    then have "tab' = tab \<and> cur' = cur"
      using "2.prems"(1) line True
      by (cases f) (simp_all add: consume_whitespace_def next_line_def)
    then show ?thesis by (intro exI [of _ f'] exI [of _ "more rest P"]) simp
  next
    case False
    note more = getline_more [OF "2.prems"(2) line False]
    consider "?s = [] \<or> hd ?s = CHR ''#''" | "?s \<noteq> []" "hd ?s = CHR ''[''"
      | "?s \<noteq> []" "hd ?s \<noteq> CHR ''#''" "hd ?s \<noteq> CHR ''[''" by auto
    then show ?thesis
    proof cases
      case 1
      then have "\<exists>f'' P''. parse_lines g (more rest ?P1) tab cur = parse_lines f'' P'' tab' cur' \<and>
          merge_mode P'' = merge_mode ?P1"
        using "2.IH"(1) [OF line refl refl refl 1 _ more(2) \<open>f \<le> g\<close>] "2.prems"(1) line by auto
      then show ?thesis using 1 f' more(1) [of rest] by (auto simp: Let_def)
    next
      case 2
      then obtain tab1 cur1 where t: "parse_table ?P1 ?s tab = Inr (tab1, cur1)"
        and rec: "parse_lines f ?P1 tab1 cur1 = Some (Inr (tab', cur', P'))"
        using "2.prems"(1) line by (auto simp: bind_fuel_Inr Let_def)
      have "\<exists>f'' P''. parse_lines g (more rest ?P1) tab1 cur1 = parse_lines f'' P'' tab' cur' \<and>
          merge_mode P'' = merge_mode ?P1"
        using "2.IH"(2) [OF line refl refl refl] 2 rec more(2) \<open>f \<le> g\<close> by auto
      then show ?thesis using t 2 f' more(1) [of rest] by (simp add: Let_def)
    next
      case 3
      then obtain tab1 s1 P2 where t: "parse_key_value f ?P1 ?s tab cur = Some (Inr (tab1, s1, P2))"
        and eol: "eol_or_comment (line_number P2) (consume_whitespace s1) = Inr ()"
        and rec: "parse_lines f P2 tab1 cur = Some (Inr (tab', cur', P'))"
        using "2.prems"(1) line by (auto simp: bind_fuel_Inr Let_def)
      note t' = enters_moreD [OF parse_key_value_more [OF \<open>f \<le> g\<close>] more(2) t]
      have "merge_mode P2 = merge_mode P"
        using advance_options [OF enters_okD [OF parse_key_value_ok t]] by (simp add: next_line_def)
      moreover have "\<exists>f'' P''. parse_lines g (more rest P2) tab1 cur = parse_lines f'' P'' tab' cur' \<and>
          merge_mode P'' = merge_mode P2"
        using "2.IH"(3) [OF line refl refl refl] 3 rec t'(2) \<open>f \<le> g\<close> by auto
      ultimately show ?thesis
        using t'(1) [of rest] eol 3 f' more(1) [of rest] by (simp add: Let_def)
    qed
  qed
qed simp

section \<open>The first value of a key wins\<close>

text \<open>\<open>keeps f t\<close>: a change of one table that leaves its values and inner tables as they are.\<close>

definition keeps :: "(table \<Rightarrow> table) \<Rightarrow> table \<Rightarrow> bool" where
  "keeps f t \<longleftrightarrow> (\<forall>k x. map_of t k = Some x \<longrightarrow> is_value x \<or> (\<exists>s. x = TTable s) \<longrightarrow>
     map_of (f t) k = Some x)"

lemma keeps_insert_new: "map_of t k = None \<Longrightarrow> keeps (insert_value k x) t"
  by (auto simp: keeps_def)

lemma keeps_append_array:
  "map_of t k = Some (TTableArray i ts) \<Longrightarrow> keeps (insert_value k x) t"
  by (auto simp: keeps_def)

lemma leaf_at_keeps:
  assumes "leaf_at p t = Some v" and "is_value v" and "keeps f t"
  shows "leaf_at p (f t) = Some v"
proof (cases p)
  case (Cons k ks)
  show ?thesis
  proof (cases "ks = []")
    case True
    then show ?thesis using Cons assms by (auto simp: keeps_def)
  next
    case False
    then show ?thesis using Cons assms
      by (auto simp: keeps_def leaf_at_Cons split: option.splits toml.splits)
  qed
qed (use assms in simp)

lemma leaf_at_update_at:
  "leaf_at p t = Some v \<Longrightarrow> is_value v \<Longrightarrow> keeps f (table_at cur t) \<Longrightarrow>
   leaf_at p (update_at cur f t) = Some v"
proof (induction cur arbitrary: p t)
  case Nil
  then show ?case by (simp add: leaf_at_keeps)
next
  case (Cons c cs)
  obtain k ks where p: "p = k # ks" using Cons.prems(1) by (cases p) auto
  show ?case
  proof (cases "k = c")
    case False
    then show ?thesis using Cons.prems p
      by (cases ks) (auto split: option.splits toml.splits)
  next
    case True
    show ?thesis
    proof (cases "ks = []")
      case ks: True
      then have "map_of t c = Some v" using Cons.prems(1) p True by simp
      then have "update_at (c # cs) f t = t" using \<open>is_value v\<close> by (cases v) auto
      then show ?thesis using Cons.prems(1) by simp
    next
      case False
      then obtain s where s: "map_of t c = Some (TTable s)" and leaf: "leaf_at ks s = Some v"
        using Cons.prems(1) p True by (auto simp: leaf_at_Cons split: option.splits toml.splits)
      then have "leaf_at ks (update_at cs f s) = Some v" using Cons by auto
      then show ?thesis using s p True False by (simp add: leaf_at_Cons)
    qed
  qed
qed

lemma header_part_leaf:
  "header_part n m1 m2 part (tab, cur, ins, full) = Inr (tab', st) \<Longrightarrow>
   leaf_at p tab = Some v \<Longrightarrow> is_value v \<Longrightarrow> leaf_at p tab' = Some v"
  by (auto simp: header_part_def Let_def leaf_at_update_at keeps_insert_new
      split: if_splits option.splits toml.splits)

lemma array_part_leaf:
  "array_part n part (tab, cur, ins, full) = Inr (tab', st) \<Longrightarrow>
   leaf_at p tab = Some v \<Longrightarrow> is_value v \<Longrightarrow> leaf_at p tab' = Some v"
  by (auto simp: array_part_def Let_def leaf_at_update_at keeps_insert_new keeps_append_array
      split: if_splits option.splits toml.splits)

lemma key_part_leaf:
  "key_part n part (tab, cur) = Inr (tab', cur') \<Longrightarrow>
   leaf_at p tab = Some v \<Longrightarrow> is_value v \<Longrightarrow> leaf_at p tab' = Some v"
  by (auto simp: key_part_def leaf_at_update_at keeps_insert_new split: option.splits toml.splits)

lemma parse_table_leaf:
  assumes "parse_table P s tab = Inr (tab', cur')" and "leaf_at p tab = Some v" and "is_value v"
  shows "leaf_at p tab' = Some v"
proof -
  obtain n m1 m2 s1 part r st rest
    where key: "parse_key n closes (header_part n m1 m2) s1 (tab, [], False, []) = Inr (part, r, st)"
      and last: "header_part n m1 m2 part st = Inr (tab', rest) \<or> array_part n part st = Inr (tab', rest)"
    using parse_table_cases [OF assms(1)] by blast
  have "leaf_at p (fst st) = Some v"
    by (rule parse_key_inv [OF key]) (use assms(2,3) header_part_leaf in auto)
  moreover obtain t0 cur ins full where st: "st = (t0, cur, ins, full)" by (cases st)
  ultimately have t0: "leaf_at p t0 = Some v" by simp
  from last show ?thesis
    unfolding st using header_part_leaf [OF _ t0 assms(3)] array_part_leaf [OF _ t0 assms(3)]
    by (elim disjE) auto
qed

lemma key_value_body_leaf:
  assumes "key_value_body reader P s tab cur = Some (Inr (tab', r, P'))" and "merge_mode P = Merge_ignore"
    and "leaf_at p tab = Some v" and "is_value v"
  shows "leaf_at p tab' = Some v"
proof -
  obtain key s1 tab1 cur1 where key: "parse_key (line_number P) (\<lambda>c. c = CHR ''='')
      (key_part (line_number P)) s (tab, cur) = Inr (key, s1, tab1, cur1)"
    and tab': "tab' = tab1 \<or> \<not> contains (table_at cur1 tab1) key \<and>
      (\<exists>x. tab' = update_at cur1 (insert_value key x) tab1)"
    using assms(1,2) by (auto simp: key_value_body_def bind_fuel_Inr Let_def split: if_splits)
  have "leaf_at p (fst (tab1, cur1)) = Some v"
    by (rule parse_key_inv [OF key]) (use assms(3,4) key_part_leaf in auto)
  then show ?thesis
    using tab' assms(4) by (auto simp: leaf_at_update_at keeps_insert_new contains_def)
qed

lemma parse_lines_leaf:
  "parse_lines f P tab cur = Some (Inr (tab', cur', P')) \<Longrightarrow> merge_mode P = Merge_ignore \<Longrightarrow>
   leaf_at p tab = Some v \<Longrightarrow> is_value v \<Longrightarrow> leaf_at p tab' = Some v"
proof (induction f P tab cur rule: parse_lines.induct)
  case (2 f P tab cur)
  show ?case
  proof (cases "getline (input P)")
    case None
    then show ?thesis using "2.prems" by simp
  next
    case (Some a)
    then obtain line i where line: "getline (input P) = Some (line, i)" by (cases a) auto
    let ?s = "consume_whitespace line"
    consider "?s = [] \<or> hd ?s = CHR ''#''" | "?s \<noteq> []" "hd ?s = CHR ''[''"
      | "?s \<noteq> []" "hd ?s \<noteq> CHR ''#''" "hd ?s \<noteq> CHR ''[''" by auto
    then show ?thesis
    proof cases
      case 1
      then show ?thesis using "2.IH"(1) [OF line refl refl refl 1] "2.prems" line by simp
    next
      case 2
      then obtain tab1 cur1 where t: "parse_table (next_line i P) ?s tab = Inr (tab1, cur1)"
        and rec: "parse_lines f (next_line i P) tab1 cur1 = Some (Inr (tab', cur', P'))"
        using "2.prems"(1) line by (auto simp: bind_fuel_Inr Let_def)
      show ?thesis
        using "2.IH"(2) [OF line refl refl refl] 2 rec parse_table_leaf [OF t] "2.prems"(2-4) by auto
    next
      case 3
      then obtain tab1 s1 P2 where t: "parse_key_value f (next_line i P) ?s tab cur = Some (Inr (tab1, s1, P2))"
        and rec: "parse_lines f P2 tab1 cur = Some (Inr (tab', cur', P'))"
        using "2.prems"(1) line by (auto simp: bind_fuel_Inr Let_def)
      have "merge_mode P2 = Merge_ignore"
        using advance_options [OF enters_okD [OF parse_key_value_ok t]] "2.prems"(2) by simp
      moreover have "leaf_at p tab1 = Some v"
        using t "2.prems"(2-4) key_value_body_leaf by (cases f) auto
      ultimately show ?thesis
        using "2.IH"(3) [OF line refl refl refl] 3 rec "2.prems"(4) by auto
    qed
  qed
qed simp

text \<open>Two texts, the first made of whole lines: its values are found in the result.\<close>

lemma parse_append_leaf:
  assumes "parse first Merge_ignore stringify = Some (Inr tab)" and "nl_ended first"
    and "parse (first @ later) Merge_ignore stringify = Some (Inr tab')"
    and "leaf_at p tab = Some v" and "is_value v"
  shows "leaf_at p tab' = Some v"
proof -
  let ?P = "parser_on first Merge_ignore stringify"
  obtain cur P1 where first: "parse_lines (parse_fuel first) ?P [] [] = Some (Inr (tab, cur, P1))"
    using assms(1) by (auto simp: parse_def bind_fuel_Inr)
  have "whole_lines ?P" and fuel: "parse_fuel first \<le> parse_fuel (first @ later)"
    using assms(2) by (simp_all add: whole_lines_def parser_on_def stream_of_def parse_fuel_def)
  then obtain f'' P'' where rest: "parse_lines (parse_fuel (first @ later)) (more later ?P) [] []
      = parse_lines f'' P'' tab cur" and mode: "merge_mode P'' = Merge_ignore"
    using parse_lines_append [OF first _ fuel, of later] by (auto simp: parser_on_def)
  have "more later ?P = parser_on (first @ later) Merge_ignore stringify"
    by (simp add: more_def more_input_def parser_on_def stream_of_def)
  then obtain cur' P' where "parse_lines f'' P'' tab cur = Some (Inr (tab', cur', P'))"
    using assms(3) rest by (auto simp: parse_def bind_fuel_Inr)
  then show ?thesis using mode assms(4,5) by (rule parse_lines_leaf)
qed

text \<open>\<open>parse_base_and_override_files\<close> always returns, and keeps the values of the base.\<close>

lemma parse_base_returns: "parse_base_and_override_files base override merge stringify \<noteq> None"
proof -
  have "returned (parse_base_and_override_files base override merge stringify)"
    by (simp add: parse_base_and_override_files_def returned_bind parse_answers)
  then show ?thesis by (simp add: returned_def)
qed

lemma parse_base_leaf:
  assumes "parse base Merge_ignore stringify = Some (Inr tab)" and "nl_ended base" and "base \<noteq> []"
    and "parse_base_and_override_files base override Merge_ignore stringify = Some (Inr tab')"
    and "leaf_at p tab = Some v" and "is_value v"
  shows "leaf_at p tab' = Some v"
proof -
  have "parse (base @ override) Merge_ignore stringify = Some (Inr tab')"
    using assms(3,4) by (auto simp: parse_base_and_override_files_def bind_fuel_Inr)
  then show ?thesis using parse_append_leaf assms by blast
qed

end
