(* ===== verification/Toml_Writer.thy ===== *)
theory Toml_Writer
  imports Toml_Total
begin

text \<open>
  \<open>cpptoml::toml_writer\<close> and the output operators: values, tables with their documentation, arrays
  and arrays of tables.

  The writer is the record \<open>toml_writer\<close>; the stream it writes to is the text written so far. The
  documentation of the tables (\<open>table::document\<close>) stands beside the tree: it is found by the place
  of the table in the tree (keys and indices from the root) and the key.
\<close>

section \<open>Documentation\<close>

type_synonym place = "(string + nat) list"
type_synonym docs = "place \<Rightarrow> string \<Rightarrow> string option"

definition no_docs :: docs where
  "no_docs = (\<lambda>_ _. None)"

definition document :: "place \<Rightarrow> string \<Rightarrow> string \<Rightarrow> docs \<Rightarrow> docs" where
  "document pl key doc docs = docs(pl := (docs pl)(key \<mapsto> doc))"

definition has_doc :: "docs \<Rightarrow> place \<Rightarrow> string \<Rightarrow> bool" where
  "has_doc docs pl key \<longleftrightarrow> docs pl key \<noteq> None"

definition doc_of :: "docs \<Rightarrow> place \<Rightarrow> string \<Rightarrow> string" where
  "doc_of docs pl key = the (docs pl key)"

section \<open>Text of the values\<close>

text \<open>\<open>replace_all\<close> goes on behind the text it has put in; the text to find is never empty.\<close>

fun replace_all :: "string \<Rightarrow> string \<Rightarrow> string \<Rightarrow> string" where
  "replace_all search replace [] = []"
| "replace_all search replace (c # s) =
     (if search \<noteq> [] \<and> take (length search) (c # s) = search
      then replace @ replace_all search replace (drop (length search - 1) s)
      else c # replace_all search replace s)"

fun replace_first :: "string \<Rightarrow> string \<Rightarrow> string \<Rightarrow> string" where
  "replace_first search replace [] = []"
| "replace_first search replace (c # s) =
     (if take (length search) (c # s) = search then replace @ drop (length search) (c # s)
      else c # replace_first search replace s)"

text \<open>
  A character is compared as a signed number cast to 32 bits, so only the control characters are
  at most 31. The number behind \<open>u\<close> is not padded to four digits.
\<close>

definition escape_char :: "char \<Rightarrow> string" where
  "escape_char c =
     (if c = CHR 0x08 then [CHR 0x5C] @ ''b''
      else if c = CHR 0x09 then [CHR 0x5C] @ ''t''
      else if c = CHR 0x0A then [CHR 0x5C] @ ''n''
      else if c = CHR 0x0C then [CHR 0x5C] @ ''f''
      else if c = CHR 0x0D then [CHR 0x5C] @ ''r''
      else if c = CHR 0x22 then [CHR 0x5C, CHR 0x22]
      else if c = CHR 0x5C then [CHR 0x5C, CHR 0x5C]
      else if of_char c \<le> (31 :: nat)
      then [CHR 0x5C] @ ''u'' @ (if c = CHR 0x00 then ''0'' else map (lower_hex \<circ> hex_char) (rev (le_digits 16 (of_char c))))
      else [c])"

definition escape_string :: "string \<Rightarrow> string" where
  "escape_string s = concat (map escape_char s)"

definition quoted :: "string \<Rightarrow> string" where
  "quoted s = [CHR 0x22] @ escape_string s @ [CHR 0x22]"

definition write_double_text :: "double \<Rightarrow> string" where
  "write_double_text d = replace_first ''e-0'' ''e-'' (replace_first ''e0'' ''e'' (double_text d))"

text \<open>What \<open>write\<close> puts out for a \<open>value<T>\<close>.\<close>

fun value_text :: "toml \<Rightarrow> string" where
  "value_text (TString s) = quoted s"
| "value_text (TInt n) = int_string n"
| "value_text (TFloat d) = write_double_text d"
| "value_text (TBool b) = (if b then ''true'' else ''false'')"
| "value_text (TLocalDate d) = date_text d"
| "value_text (TLocalTime t) = time_text t"
| "value_text (TLocalDatetime dt) = local_datetime_text dt"
| "value_text (TOffsetDatetime dt) = offset_datetime_text dt"
| "value_text _ = []"

section \<open>The writer\<close>

record toml_writer =
  out :: string
  indent_text :: string
  key_path :: "string list"
  has_naked_endline :: bool
  skip_empty_tables :: bool

definition toml_writer_on :: "string \<Rightarrow> toml_writer" where
  "toml_writer_on indent_space =
     \<lparr>out = [], indent_text = indent_space, key_path = [], has_naked_endline = False,
      skip_empty_tables = True\<rparr>"

definition set_skip_empty_tables :: "bool \<Rightarrow> toml_writer \<Rightarrow> toml_writer" where
  "set_skip_empty_tables enable w = w\<lparr>skip_empty_tables := enable\<rparr>"

definition write_text :: "string \<Rightarrow> toml_writer \<Rightarrow> toml_writer" where
  "write_text s w = w\<lparr>out := out w @ s, has_naked_endline := False\<rparr>"

definition endline :: "toml_writer \<Rightarrow> toml_writer" where
  "endline w =
     (if has_naked_endline w then w else w\<lparr>out := out w @ [CHR 0x0A], has_naked_endline := True\<rparr>)"

definition push_key :: "string \<Rightarrow> toml_writer \<Rightarrow> toml_writer" where
  "push_key k w = w\<lparr>key_path := key_path w @ [k]\<rparr>"

definition pop_key :: "toml_writer \<Rightarrow> toml_writer" where
  "pop_key w = w\<lparr>key_path := butlast (key_path w)\<rparr>"

definition indent :: "toml_writer \<Rightarrow> toml_writer" where
  "indent w = (write_text (indent_text w) ^^ (length (key_path w) - 1)) w"

definition bare_chars :: string where
  "bare_chars = ''ABCDEFGHIJKLMNOPQRSTUVWXYZabcdefghijklmnopqrstuvwxyz0123456789_-''"

definition key_text :: "string \<Rightarrow> string" where
  "key_text k = (if list_all (\<lambda>c. c \<in> set bare_chars) k then k else quoted k)"

fun path_text :: "string list \<Rightarrow> string" where
  "path_text [] = []"
| "path_text [k] = key_text k"
| "path_text (k # ks) = key_text k @ ''.'' @ path_text ks"

definition write_table_header :: "bool \<Rightarrow> toml_writer \<Rightarrow> toml_writer" where
  "write_table_header in_array w =
     (if key_path w = [] then w
      else endline (write_text
        ([CHR 0x0A] @ ''['' @ (if in_array then ''['' else []) @ path_text (key_path w)
          @ (if in_array then '']'' else []) @ '']'') (indent w)))"

definition write_table_item_header :: "toml \<Rightarrow> toml_writer \<Rightarrow> toml_writer" where
  "write_table_item_header b w =
     (if is_table b \<or> is_table_array b then w
      else write_text '' = '' (write_text (key_text (last (key_path w))) (indent w)))"

definition write_doc :: "docs \<Rightarrow> place \<Rightarrow> string \<Rightarrow> toml_writer \<Rightarrow> toml_writer" where
  "write_doc docs pl key w =
     (if has_doc docs pl key then
        write_text [CHR 0x0A]
          (write_text (replace_all [CHR 0x0A] ([CHR 0x0A] @ ''# '') (doc_of docs pl key))
            (write_text ([CHR 0x0A] @ ''# '') w))
      else w)"

section \<open>Visiting the tree\<close>

text \<open>A loop with an index.\<close>

fun for_each :: "(nat \<Rightarrow> 'a \<Rightarrow> 's \<Rightarrow> 's) \<Rightarrow> nat \<Rightarrow> 'a list \<Rightarrow> 's \<Rightarrow> 's" where
  "for_each f i [] s = s"
| "for_each f i (x # xs) s = for_each f (i + 1) xs (f i x s)"

lemma for_each_cong [fundef_cong]:
  assumes "xs = ys" and "i = j" and "s = t" and "\<And>i x s. x \<in> set ys \<Longrightarrow> f i x s = g i x s"
  shows "for_each f i xs s = for_each g j ys t"
proof -
  have "for_each f j ys t = for_each g j ys t"
    using assms(4) by (induction ys arbitrary: j t) auto
  then show ?thesis using assms(1-3) by simp
qed

abbreviation is_section :: "toml \<Rightarrow> bool" where
  "is_section v \<equiv> is_table v \<or> is_table_array v"

text \<open>
  \<open>accept\<close> with the \<open>visit\<close> of each class: tables, arrays, arrays of tables, and values.
\<close>

function (sequential) accept :: "docs \<Rightarrow> place \<Rightarrow> bool \<Rightarrow> toml \<Rightarrow> toml_writer \<Rightarrow> toml_writer" where
  "accept docs pl in_array (TTable t) w =
     (let all_children_tables = list_all (\<lambda>(k, v). is_table v) t;
          w1 = (if \<not> skip_empty_tables w \<or> \<not> all_children_tables
                then write_table_header in_array w else w);
          values = filter (\<lambda>(k, v). \<not> is_section v) t;
          tables = filter (\<lambda>(k, v). is_section v) t;
          w2 = for_each (\<lambda>i (k, v) w.
                 let wa = push_key k w;
                     wb = (if i > 0 then endline wa else wa);
                     wc = write_table_item_header v (write_doc docs pl k wb)
                 in pop_key (accept docs (pl @ [Inl k]) False v wc)) 0 values w1;
          w3 = for_each (\<lambda>i (k, v) w.
                 let wa = push_key k w;
                     wb = (if values \<noteq> [] \<or> i > 0 then endline wa else wa);
                     wc = write_table_item_header v wb
                 in pop_key (accept docs (pl @ [Inl k]) False v wc)) 0 tables w2
      in endline w3)"
| "accept docs pl in_array (TArray xs) w =
     write_text '']''
       (for_each (\<lambda>i x w. accept docs (pl @ [Inr i]) True x (if i > 0 then write_text '', '' w else w))
          0 xs (write_text ''['' w))"
| "accept docs pl in_array (TTableArray inl ts) w =
     endline (for_each (\<lambda>j t w. accept docs (pl @ [Inr j]) True (TTable t) (if j > 0 then endline w else w))
                0 ts w)"
| "accept docs pl in_array v w = write_text (value_text v) w"
  by pat_completeness auto

lemma size_entry: "(k, v) \<in> set t \<Longrightarrow> size v < size (TTable t)"
  by (induction t) auto

lemma size_element: "x \<in> set xs \<Longrightarrow> size x < size (TArray xs)"
  by (induction xs) auto

lemma size_table: "t \<in> set ts \<Longrightarrow> size (TTable t) < size (TTableArray i ts)"
  by (induction ts) auto

termination accept
  by (relation "measure (\<lambda>(docs, pl, b, v, w). size v)")
     (auto dest: size_entry size_element size_table simp del: toml.size)

declare accept.simps [simp del]

text \<open>The output operators.\<close>

definition to_text :: "toml \<Rightarrow> string" where
  "to_text v = out (accept no_docs [] False v (toml_writer_on [CHR 0x09]))"

end
