(* ===== verification/Config.thy ===== *)
theory Config
  imports Toml_Merge Toml_Writer "HOL-Library.AList"
begin

text \<open>
  \<open>src/workserver/config.hpp\<close>: the configuration classes with their defaults, the constructor
  that reads the TOML tree, the reading of the file and of the command line overrides, and the
  export of a documented sample.

  Parameters: the file system (\<open>fs\<close>, the contents of the files that exist), the number of hardware
  threads, and Boost's text for the IPv6 loopback address.
\<close>

section \<open>The configuration classes\<close>

datatype device_type = cpu | gpu

record server_config =
  bind_address :: string
  port :: u16
  threads :: u16
  request_limit :: u32
  allow_prioritization :: bool
  allow_control :: bool
  log_to_stderr :: bool

record device_config =
  dev_type :: device_type
  platform_id :: u64
  device_id :: u64
  dev_threads :: u64
  memory :: u64

record work_config =
  base_difficulty :: "u8 list"
  mock_work_generation_delay :: u16

record admin_config =
  doc_root :: string
  admin_enable :: bool
  allow_remote :: bool

record config =
  server :: server_config
  devices :: "device_config list"
  work :: work_config
  admin :: admin_config

definition BASE_DIFFICULTY :: string where
  "BASE_DIFFICULTY = ''2000000000000000''"

fun type_as_string :: "device_type \<Rightarrow> string" where
  "type_as_string cpu = ''cpu''"
| "type_as_string gpu = ''gpu''"

text \<open>\<open>hardware_concurrency\<close> is cast to 16 bits.\<close>

definition default_server :: "string \<Rightarrow> nat \<Rightarrow> server_config" where
  "default_server loopback hardware_concurrency =
     \<lparr>bind_address = loopback, port = 8076, threads = of_nat hardware_concurrency,
      request_limit = 1024 * 16, allow_prioritization = False, allow_control = False,
      log_to_stderr = False\<rparr>"

definition default_device :: device_config where
  "default_device = \<lparr>dev_type = cpu, platform_id = 0, device_id = 0, dev_threads = 0, memory = 1024 * 2\<rparr>"

definition default_work :: "128 mp_ops \<Rightarrow> work_config result" where
  "default_work M = bind_result (bi_of_string M BASE_DIFFICULTY) (\<lambda>b.
     Inr \<lparr>base_difficulty = b, mock_work_generation_delay = 0\<rparr>)"

definition default_admin :: admin_config where
  "default_admin = \<lparr>doc_root = ''public'', admin_enable = False, allow_remote = False\<rparr>"

section \<open>Reading the tree\<close>

text \<open>
  The constructor either throws or dereferences the null pointer that \<open>get_table\<close> returns for a
  key that is not a table; the second is undefined behaviour.
\<close>

datatype config_error = Throws string | Null_dereference

type_synonym 'a config_result = "config_error + 'a"

definition bind_config :: "'a config_result \<Rightarrow> ('a \<Rightarrow> 'b config_result) \<Rightarrow> 'b config_result" where
  "bind_config r f = (case r of Inl e \<Rightarrow> Inl e | Inr x \<Rightarrow> f x)"

definition throwing :: "'a result \<Rightarrow> 'a config_result" where
  "throwing r = (case r of Inl what \<Rightarrow> Inl (Throws what) | Inr x \<Rightarrow> Inr x)"

definition uint_value_or :: "table \<Rightarrow> string \<Rightarrow> ('w::len) word \<Rightarrow> 'w word config_result" where
  "uint_value_or t key alternative =
     bind_config (throwing (get_as_unsigned t key)) (\<lambda>v. Inr (value_or v alternative))"

definition read_server :: "table \<Rightarrow> server_config \<Rightarrow> server_config config_result" where
  "read_server server_l srv =
     (let bind = value_or (get_as_string server_l ''bind'') (bind_address srv) in
      bind_config (uint_value_or server_l ''port'' (port srv)) (\<lambda>prt.
      bind_config (uint_value_or server_l ''threads'' (threads srv)) (\<lambda>thr.
      let prio = value_or (get_as_bool server_l ''allow_prioritization'') (allow_prioritization srv);
          control = value_or (get_as_bool server_l ''allow_control'') (allow_control srv) in
      bind_config (uint_value_or server_l ''request_limit'' (request_limit srv)) (\<lambda>limit.
      let to_stderr = value_or (get_as_bool server_l ''log_to_stderr'') (log_to_stderr srv) in
      Inr \<lparr>bind_address = bind, port = prt, threads = thr, request_limit = limit,
           allow_prioritization = prio, allow_control = control, log_to_stderr = to_stderr\<rparr>))))"

definition read_work :: "128 mp_ops \<Rightarrow> table \<Rightarrow> work_config \<Rightarrow> work_config config_result" where
  "read_work M work_l wrk =
     (let base_hex_l = value_or (get_as_string work_l ''base_difficulty'') BASE_DIFFICULTY in
      case bi_from_hex M (base_difficulty wrk) base_hex_l of
        (b, Some what) \<Rightarrow> Inl (Throws what)
      | (b, None) \<Rightarrow>
          bind_config (uint_value_or work_l ''mock_work_generation_delay''
                         (mock_work_generation_delay wrk))
            (\<lambda>delay. Inr \<lparr>base_difficulty = b, mock_work_generation_delay = delay\<rparr>))"

text \<open>The lambda \<open>get_device\<close>.\<close>

definition get_device :: "table \<Rightarrow> device_config config_result" where
  "get_device dev_a =
     bind_config (uint_value_or dev_a ''platform'' (platform_id default_device)) (\<lambda>platform.
     bind_config (uint_value_or dev_a ''device'' (device_id default_device)) (\<lambda>device.
     bind_config (uint_value_or dev_a ''threads'' (dev_threads default_device)) (\<lambda>thr.
     bind_config (uint_value_or dev_a ''memory'' (memory default_device)) (\<lambda>mem.
     let type_l = value_or (get_as_string dev_a ''type'') ''cpu'' in
     if type_l = ''cpu'' then
       Inr \<lparr>dev_type = cpu, platform_id = platform, device_id = device, dev_threads = thr,
            memory = mem\<rparr>
     else if type_l = ''gpu'' then
       Inr \<lparr>dev_type = gpu, platform_id = platform, device_id = device, dev_threads = thr,
            memory = mem\<rparr>
     else Inl (Throws ''config: invalid device type (must be \"cpu\" or \"gpu\")'')))))"

fun get_devices :: "table list \<Rightarrow> device_config list config_result" where
  "get_devices [] = Inr []"
| "get_devices (t # ts) =
     bind_config (get_device t) (\<lambda>dev. bind_config (get_devices ts) (\<lambda>devs. Inr (dev # devs)))"

definition read_devices :: "table \<Rightarrow> device_config list config_result" where
  "read_devices tree =
     (case map_of tree ''device'' of
        None \<Rightarrow> Inr []
      | Some (TTable t) \<Rightarrow> bind_config (get_device t) (\<lambda>dev. Inr [dev])
      | Some (TTableArray _ ts) \<Rightarrow> get_devices ts
      | Some _ \<Rightarrow> Inl (Throws ''device must be a table or table array''))"

definition read_admin :: "table \<Rightarrow> admin_config \<Rightarrow> admin_config" where
  "read_admin admin_l adm =
     \<lparr>doc_root = value_or (get_as_string admin_l ''path'') (doc_root adm),
      admin_enable = value_or (get_as_bool admin_l ''enable'') (admin_enable adm),
      allow_remote = value_or (get_as_bool admin_l ''allow_remote'') (allow_remote adm)\<rparr>"

text \<open>\<open>if (tree->contains (key)) \<dots> get_table (key)\<close>: the section, its default when it is absent.\<close>

definition read_section ::
  "table \<Rightarrow> string \<Rightarrow> 'a \<Rightarrow> (table \<Rightarrow> 'a \<Rightarrow> 'a config_result) \<Rightarrow> 'a config_result" where
  "read_section tree key dflt read =
     (if contains tree key then
        (case get_table tree key of None \<Rightarrow> Inl Null_dereference | Some t \<Rightarrow> read t dflt)
      else Inr dflt)"

text \<open>The body of the constructor once \<open>tree\<close> has been read.\<close>

definition config_of_tree :: "128 mp_ops \<Rightarrow> string \<Rightarrow> nat \<Rightarrow> table \<Rightarrow> config config_result" where
  "config_of_tree M loopback hardware_concurrency tree =
     bind_config (throwing (default_work M)) (\<lambda>work0.
     bind_config (read_section tree ''server'' (default_server loopback hardware_concurrency)
                    read_server) (\<lambda>srv.
     bind_config (read_section tree ''work'' work0 (read_work M)) (\<lambda>wrk.
     bind_config (read_devices tree) (\<lambda>devs.
     bind_config (read_section tree ''admin'' default_admin (\<lambda>t a. Inr (read_admin t a))) (\<lambda>adm.
       Inr \<lparr>server = srv, devices = devs, work = wrk, admin = adm\<rparr>)))))"

section \<open>Reading the file and the overrides\<close>

definition overrides_text :: "string list \<Rightarrow> string" where
  "overrides_text config_overrides =
     concat (map (\<lambda>entry. entry @ [CHR 0x0A]) config_overrides) @ [CHR 0x0A]"

definition config_file_exists :: "(string \<Rightarrow> string option) \<Rightarrow> string \<Rightarrow> bool" where
  "config_file_exists fs toml_config_path \<longleftrightarrow> fs toml_config_path \<noteq> None"

definition config_input :: "(string \<Rightarrow> string option) \<Rightarrow> string \<Rightarrow> string" where
  "config_input fs toml_config_path =
     (if toml_config_path \<noteq> [] \<and> config_file_exists fs toml_config_path
      then the (fs toml_config_path) else [CHR 0x0A])"

text \<open>The parser always returns (\<open>parse_base_returns\<close>), so \<open>the\<close> applies to a value.\<close>

definition read_config :: "(string \<Rightarrow> string option) \<Rightarrow> string \<Rightarrow> string list \<Rightarrow> table result" where
  "read_config fs toml_config_path config_overrides =
     (case the (parse_base_and_override_files (overrides_text config_overrides)
                  (config_input fs toml_config_path) Merge_ignore False)
      of Inl what \<Rightarrow> Inl (''TOML config error: '' @ what)
       | Inr tree \<Rightarrow> Inr tree)"

definition config_ctor ::
  "128 mp_ops \<Rightarrow> string \<Rightarrow> nat \<Rightarrow> (string \<Rightarrow> string option) \<Rightarrow> string \<Rightarrow> string list
    \<Rightarrow> config config_result" where
  "config_ctor M loopback hardware_concurrency fs toml_config_path config_overrides =
     bind_config (throwing (read_config fs toml_config_path config_overrides))
       (config_of_tree M loopback hardware_concurrency)"

section \<open>The documented sample\<close>

text \<open>
  \<open>put\<close> inserts a value and documents it. A section is its table together with the documentation of
  all tables; \<open>pl\<close> is its place in the tree.
\<close>

type_synonym doc_table = "table \<times> docs"

definition put :: "place \<Rightarrow> string \<Rightarrow> toml \<Rightarrow> string \<Rightarrow> doc_table \<Rightarrow> doc_table" where
  "put pl key v doc = (\<lambda>(t, d). (insert_value key v t, document pl key doc d))"

definition nl :: string where
  "nl = [CHR 0x0A]"

definition export_server :: "server_config \<Rightarrow> docs \<Rightarrow> doc_table" where
  "export_server s d =
     (let pl = [Inl ''server''] in
     put pl ''log_to_stderr'' (TBool (log_to_stderr s))
       (''Log to standard error in addition to file.'' @ nl @ ''type:bool'')
    (put pl ''request_limit'' (TInt (uint (request_limit s)))
       (''The maximum number of queued work requests. If the queue is full, work requests will result in an error.'' @ nl @ ''type:uint32'')
    (put pl ''allow_control'' (TBool (allow_control s))
       (''Administriative REST requests requires this to be true, otherwise an error is returned.'' @ nl @ ''type:bool'')
    (put pl ''allow_prioritization'' (TBool (allow_prioritization s))
       (''If true, work requests may contain a numeric \"priority\" property to move ahead in the queue.'' @ nl @ ''type:bool'')
    (put pl ''threads'' (TInt (uint (threads s)))
       (''Number of IO threads used by the web server.'' @ nl @ ''type:uint16'')
    (put pl ''port'' (TInt (uint (port s)))
       (''Listening port for HTTP and WebSocket connections.'' @ nl @ ''type:uint16'')
    (put pl ''bind'' (TString (bind_address s))
       (''Listening address for HTTP and WebSocket connections.'' @ nl @ ''type:string,ip'') ([], d))))))))"

definition export_work :: "128 mp_ops \<Rightarrow> work_config \<Rightarrow> docs \<Rightarrow> doc_table" where
  "export_work M w d =
     (let pl = [Inl ''work''] in
     put pl ''mock_work_generation_delay'' (TInt (uint (mock_work_generation_delay w)))
       (''If non-zero, the server simulates generating work for N seconds instead of'' @ nl @
        ''using a work device. Useful during testing of initial setup and debugging.'' @ nl @ ''type:uint16'')
    (put pl ''base_difficulty'' (TString (bi_to_hex M (base_difficulty w)))
       (''Base work difficulty'' @ nl @ ''type:string,hex'') ([], d)))"

definition export_admin :: "admin_config \<Rightarrow> docs \<Rightarrow> doc_table" where
  "export_admin a d =
     (let pl = [Inl ''admin''] in
     put pl ''path'' (TString (doc_root a))
       (''Path to static files, by default ''  @ [CHR 0x27] @ ''public'' @ [CHR 0x27] @
        '' relative to working directory'' @ nl @ ''type:string,path'')
    (put pl ''enable'' (TBool (admin_enable a))
       (''Enable or disable serving static files.'' @ nl @ ''type:bool'')
    (put pl ''allow_remote'' (TBool (allow_remote a))
       (''If true, static files are available remotely, otherwise only to loopback.'' @ nl @ ''type:bool'') ([], d))))"

definition export_device :: "docs \<Rightarrow> doc_table" where
  "export_device d =
     (let pl = [Inl ''device''] in
     put pl ''threads'' (TInt 0) (''Number of CPU or GPU threads'' @ nl @ ''type:uint64_t'')
    (put pl ''memory'' (TInt 0) (''Maximum memory to allocate in MB'' @ nl @ ''type:uint64_t'')
    (put pl ''platform_id'' (TInt 0) (''Platform ID (gpu only)'' @ nl @ ''type:uint64_t'')
    (put pl ''device_id'' (TInt 0) (''Device ID (gpu only)'' @ nl @ ''type:uint64_t'')
    (put pl ''type'' (TString ''gpu'') (''Device type'' @ nl @ ''type:string,[\"cpu\"|\"gpu\"]'') ([], d))))))"

text \<open>The sections are inserted empty and filled afterwards, through the same pointers.\<close>

definition export_tree :: "128 mp_ops \<Rightarrow> config \<Rightarrow> table \<times> docs" where
  "export_tree M c =
     (let (server_l, d1) = export_server (server c) no_docs;
          (work_l, d2) = export_work M (work c) d1;
          (admin_l, d3) = export_admin (admin c) d2;
          (device_gpu_l, d4) = export_device d3
      in (insert_value ''admin'' (TTable admin_l)
           (insert_value ''device'' (TTable device_gpu_l)
             (insert_value ''work'' (TTable work_l)
               (insert_value ''server'' (TTable server_l) []))), d4))"

text \<open>\<open>std::getline\<close> until it fails: a last line without a newline counts when it is not empty.\<close>

fun getlines :: "string \<Rightarrow> string \<Rightarrow> string list" where
  "getlines cur [] = (if cur = [] then [] else [cur])"
| "getlines cur (c # cs) = (if c = CHR 0x0A then cur # getlines [] cs else getlines (cur @ [c]) cs)"

definition comment_line :: "string \<Rightarrow> string" where
  "comment_line line =
     (if line \<noteq> [] \<and> hd line \<noteq> CHR ''#'' \<and> hd line \<noteq> CHR ''['' then ''#'' @ line else line)"

definition export_documented :: "128 mp_ops \<Rightarrow> config \<Rightarrow> string" where
  "export_documented M c =
     (let (root, docs) = export_tree M c in
      concat (map (\<lambda>line. comment_line line @ nl)
        (getlines [] (out (accept docs [] False (TTable root) (toml_writer_on []))))))"

section \<open>Lemmas\<close>

lemma bind_config_simps [simp]:
  "bind_config (Inl e) f = Inl e"
  "bind_config (Inr x) f = f x"
  by (simp_all add: bind_config_def)

lemma bind_config_Inr: "bind_config r f = Inr y \<longleftrightarrow> (\<exists>x. r = Inr x \<and> f x = Inr y)"
  by (cases r) auto

lemma bind_config_Inl: "bind_config r f = Inl e \<longleftrightarrow> r = Inl e \<or> (\<exists>x. r = Inr x \<and> f x = Inl e)"
  by (cases r) auto

lemma throwing_simps [simp]: "throwing (Inl what) = Inl (Throws what)" "throwing (Inr x) = Inr x"
  by (simp_all add: throwing_def)

lemma throwing_Inr: "throwing r = Inr x \<longleftrightarrow> r = Inr x"
  by (cases r) (auto simp: throwing_def)

lemma throwing_not_null [simp]: "throwing r \<noteq> Inl Null_dereference"
  by (cases r) (auto simp: throwing_def)

lemma uint_value_or_not_null [simp]: "uint_value_or t k a \<noteq> Inl Null_dereference"
  by (auto simp: uint_value_or_def bind_config_Inl)

lemma uint_value_or_int:
  assumes "uint_value_or t k a = Inr (w :: 'w::len word)" and "map_of t k = Some (TInt n)"
  shows "uint w = n"
proof -
  have "0 \<le> n \<and> n < 2 ^ LENGTH('w) \<and> w = word_of_int n"
    using assms
    by (simp add: uint_value_or_def get_as_unsigned_def get_impl_unsigned_def value_or_def split: if_splits)
  then show ?thesis by (simp add: uint_word_of_int_eq take_bit_int_eq_self)
qed

lemma uint_value_or_absent:
  "map_of t k = None \<Longrightarrow> uint_value_or t k a = Inr a"
  by (simp add: uint_value_or_def get_as_unsigned_def throwing_def value_or_def)

lemma get_device_not_null [simp]: "get_device t \<noteq> Inl Null_dereference"
  by (auto simp: get_device_def bind_config_Inl Let_def split: if_splits)

lemma get_devices_not_null [simp]: "get_devices ts \<noteq> Inl Null_dereference"
  by (induction ts) (auto simp: bind_config_Inl)

lemma read_devices_not_null [simp]: "read_devices tree \<noteq> Inl Null_dereference"
  by (auto simp: read_devices_def bind_config_Inl split: option.splits toml.splits)

lemma read_server_not_null [simp]: "read_server t s \<noteq> Inl Null_dereference"
  by (auto simp: read_server_def bind_config_Inl Let_def)

lemma read_work_not_null [simp]: "read_work M t w \<noteq> Inl Null_dereference"
  by (auto simp: read_work_def bind_config_Inl Let_def split: prod.splits option.splits)

lemma read_section_null:
  "(\<And>t d. read t d \<noteq> Inl Null_dereference) \<Longrightarrow>
   read_section tree key dflt read = Inl Null_dereference \<longleftrightarrow>
   contains tree key \<and> get_table tree key = None"
  by (auto simp: read_section_def split: option.splits)

lemma getlines_append_nl: "CHR 0x0A \<notin> set l \<Longrightarrow> getlines cur (l @ nl @ rest) = (cur @ l) # getlines [] rest"
  by (induction l arbitrary: cur) (auto simp: nl_def)

lemma getlines_lines:
  "\<forall>l \<in> set ls. CHR 0x0A \<notin> set l \<Longrightarrow> getlines [] (concat (map (\<lambda>l. l @ nl) ls)) = ls"
  using getlines_append_nl [of _ "[]"] by (induction ls) auto

lemma getlines_no_nl: "l \<in> set (getlines cur s) \<Longrightarrow> CHR 0x0A \<notin> set cur \<Longrightarrow> CHR 0x0A \<notin> set l"
  by (induction cur s rule: getlines.induct) (auto split: if_splits)

lemma comment_line_no_nl: "CHR 0x0A \<notin> set l \<Longrightarrow> CHR 0x0A \<notin> set (comment_line l)"
  by (auto simp: comment_line_def)

lemma keys_export_device:
  "fst ` set (fst (export_device d)) = {''threads'', ''memory'', ''platform_id'', ''device_id'', ''type''}"
  by (auto simp: export_device_def put_def Let_def)

lemma overrides_text_lines: "nl_ended (overrides_text ovs)" "overrides_text ovs \<noteq> []"
  by (simp_all add: overrides_text_def nl_ended_def)

lemma read_config_Inr:
  assumes "read_config fs path ovs = Inr tree"
  shows "parse_base_and_override_files (overrides_text ovs) (config_input fs path) Merge_ignore False
    = Some (Inr tree)"
  using assms parse_base_returns [of "overrides_text ovs" "config_input fs path" Merge_ignore False]
  by (auto simp: read_config_def split: sum.splits)

lemma read_config_leaf:
  assumes "parse (overrides_text ovs) Merge_ignore False = Some (Inr tab)"
    and "read_config fs path ovs = Inr tree"
    and "leaf_at p tab = Some v" and "is_value v"
  shows "leaf_at p tree = Some v"
  using parse_base_leaf [OF assms(1) overrides_text_lines read_config_Inr [OF assms(2)] assms(3,4)] .

lemma leaf_at_section:
  "leaf_at [sec, key] tree = Some v \<Longrightarrow> \<exists>t. get_table tree sec = Some t \<and> contains tree sec \<and> map_of t key = Some v"
  by (auto simp: get_table_def contains_def split: option.splits toml.splits)

section \<open>What a setting comes to\<close>

text \<open>
  What a field of the configuration is when the tree has the value \<open>v\<close> for its setting: the value, if
  it has the type of the setting, and otherwise the default, as \<open>get_as\<close> then gives none.
\<close>

definition text_field :: "string \<Rightarrow> toml \<Rightarrow> string \<Rightarrow> bool" where
  "text_field dflt v x = (case v of TString s \<Rightarrow> x = s | _ \<Rightarrow> x = dflt)"

definition bool_field :: "bool \<Rightarrow> toml \<Rightarrow> bool \<Rightarrow> bool" where
  "bool_field dflt v x = (case v of TBool b \<Rightarrow> x = b | _ \<Rightarrow> x = dflt)"

definition uint_field :: "('w::len) word \<Rightarrow> toml \<Rightarrow> 'w word \<Rightarrow> bool" where
  "uint_field dflt v x = (case v of TInt n \<Rightarrow> uint x = n | _ \<Rightarrow> x = dflt)"

definition server_setting :: "server_config \<Rightarrow> server_config \<Rightarrow> string \<Rightarrow> toml \<Rightarrow> bool" where
  "server_setting s0 s key v \<longleftrightarrow>
     (key = ''bind'' \<longrightarrow> text_field (bind_address s0) v (bind_address s))
   \<and> (key = ''port'' \<longrightarrow> uint_field (port s0) v (port s))
   \<and> (key = ''threads'' \<longrightarrow> uint_field (threads s0) v (threads s))
   \<and> (key = ''allow_prioritization'' \<longrightarrow> bool_field (allow_prioritization s0) v (allow_prioritization s))
   \<and> (key = ''allow_control'' \<longrightarrow> bool_field (allow_control s0) v (allow_control s))
   \<and> (key = ''request_limit'' \<longrightarrow> uint_field (request_limit s0) v (request_limit s))
   \<and> (key = ''log_to_stderr'' \<longrightarrow> bool_field (log_to_stderr s0) v (log_to_stderr s))"

definition work_setting :: "128 mp_ops \<Rightarrow> work_config \<Rightarrow> string \<Rightarrow> toml \<Rightarrow> bool" where
  "work_setting M w key v \<longleftrightarrow>
     (key = ''base_difficulty'' \<longrightarrow>
        (\<exists>w0 hex. default_work M = Inr w0 \<and> text_field BASE_DIFFICULTY v hex
           \<and> bi_from_hex M (base_difficulty w0) hex = (base_difficulty w, None)))
   \<and> (key = ''mock_work_generation_delay'' \<longrightarrow> uint_field 0 v (mock_work_generation_delay w))"

definition admin_setting :: "admin_config \<Rightarrow> admin_config \<Rightarrow> string \<Rightarrow> toml \<Rightarrow> bool" where
  "admin_setting a0 a key v \<longleftrightarrow>
     (key = ''path'' \<longrightarrow> text_field (doc_root a0) v (doc_root a))
   \<and> (key = ''enable'' \<longrightarrow> bool_field (admin_enable a0) v (admin_enable a))
   \<and> (key = ''allow_remote'' \<longrightarrow> bool_field (allow_remote a0) v (allow_remote a))"

definition device_setting :: "device_config \<Rightarrow> device_config \<Rightarrow> string \<Rightarrow> toml \<Rightarrow> bool" where
  "device_setting d0 d key v \<longleftrightarrow>
     (key = ''type'' \<longrightarrow> text_field ''cpu'' v (type_as_string (dev_type d)))
   \<and> (key = ''platform'' \<longrightarrow> uint_field (platform_id d0) v (platform_id d))
   \<and> (key = ''device'' \<longrightarrow> uint_field (device_id d0) v (device_id d))
   \<and> (key = ''threads'' \<longrightarrow> uint_field (dev_threads d0) v (dev_threads d))
   \<and> (key = ''memory'' \<longrightarrow> uint_field (memory d0) v (memory d))"

text \<open>A section \<open>device\<close> that is a table gives the only device.\<close>

definition setting_taken ::
  "128 mp_ops \<Rightarrow> string \<Rightarrow> nat \<Rightarrow> config \<Rightarrow> string \<Rightarrow> string \<Rightarrow> toml \<Rightarrow> bool" where
  "setting_taken M loopback hw c sec key v \<longleftrightarrow>
     (sec = ''server'' \<longrightarrow> server_setting (default_server loopback hw) (server c) key v)
   \<and> (sec = ''work'' \<longrightarrow> work_setting M (work c) key v)
   \<and> (sec = ''admin'' \<longrightarrow> admin_setting default_admin (admin c) key v)
   \<and> (sec = ''device'' \<longrightarrow> (\<exists>d. devices c = [d] \<and> device_setting default_device d key v))"

lemma text_field_read: "map_of t key = Some v \<Longrightarrow> text_field dflt v (value_or (get_as_string t key) dflt)"
  by (cases v) (simp_all add: text_field_def get_as_string_def value_or_def)

lemma bool_field_read: "map_of t key = Some v \<Longrightarrow> bool_field dflt v (value_or (get_as_bool t key) dflt)"
  by (cases v) (simp_all add: bool_field_def get_as_bool_def value_or_def)

lemma uint_field_read:
  assumes "uint_value_or t key dflt = Inr x" and "map_of t key = Some v"
  shows "uint_field dflt v x"
proof (cases "\<exists>n. v = TInt n")
  case True
  then show ?thesis using uint_value_or_int [OF assms(1)] assms(2) by (auto simp: uint_field_def)
next
  case False
  then show ?thesis using assms
    by (cases v) (auto simp: uint_field_def uint_value_or_def get_as_unsigned_def get_impl_unsigned_def value_or_def)
qed

lemma read_server_taken:
  "read_server t s0 = Inr s \<Longrightarrow> map_of t key = Some v \<Longrightarrow> server_setting s0 s key v"
  by (auto simp: server_setting_def read_server_def Let_def bind_config_Inr
      intro: text_field_read bool_field_read uint_field_read)

lemma read_work_taken:
  assumes "read_work M t w0 = Inr w" and "default_work M = Inr w0" and "map_of t key = Some v"
  shows "work_setting M w key v"
proof -
  let ?hex = "value_or (get_as_string t ''base_difficulty'') BASE_DIFFICULTY"
  have w: "bi_from_hex M (base_difficulty w0) ?hex = (base_difficulty w, None)"
      "uint_value_or t ''mock_work_generation_delay'' (mock_work_generation_delay w0) = Inr (mock_work_generation_delay w)"
    using assms(1) by (auto simp: read_work_def Let_def bind_config_Inr split: prod.splits option.splits)
  have "mock_work_generation_delay w0 = 0"
    using assms(2) by (auto simp: default_work_def bind_result_Inr)
  then show ?thesis
    using w assms(2,3) text_field_read [of t _ v BASE_DIFFICULTY] uint_field_read [OF w(2)]
    by (auto simp: work_setting_def)
qed

lemma read_admin_taken: "map_of t key = Some v \<Longrightarrow> admin_setting a0 (read_admin t a0) key v"
  by (auto simp: admin_setting_def read_admin_def intro: text_field_read bool_field_read)

lemma get_device_taken:
  "get_device t = Inr d \<Longrightarrow> map_of t key = Some v \<Longrightarrow> device_setting default_device d key v"
  using text_field_read [of t "''type''" v "''cpu''"]
  by (auto simp: device_setting_def get_device_def Let_def bind_config_Inr split: if_splits
      intro: uint_field_read)

lemma config_of_tree_taken:
  assumes ctor: "config_of_tree M loopback hw tree = Inr c" and leaf: "leaf_at [sec, key] tree = Some v"
  shows "setting_taken M loopback hw c sec key v"
proof -
  obtain t where t: "get_table tree sec = Some t" "contains tree sec" "map_of t key = Some v"
    using leaf_at_section [OF leaf] by blast
  obtain w0 where parts: "default_work M = Inr w0"
      "read_section tree ''server'' (default_server loopback hw) read_server = Inr (server c)"
      "read_section tree ''work'' w0 (read_work M) = Inr (work c)"
      "read_devices tree = Inr (devices c)"
      "read_section tree ''admin'' default_admin (\<lambda>t a. Inr (read_admin t a)) = Inr (admin c)"
    using ctor by (auto simp: config_of_tree_def bind_config_Inr throwing_Inr)
  have "server_setting (default_server loopback hw) (server c) key v" if "sec = ''server''"
    using parts(2) t that by (auto simp: read_section_def intro: read_server_taken)
  moreover have "work_setting M (work c) key v" if "sec = ''work''"
    using parts(1,3) t that by (auto simp: read_section_def intro: read_work_taken)
  moreover have "admin_setting default_admin (admin c) key v" if "sec = ''admin''"
    using parts(5) t that read_admin_taken [OF t(3), of default_admin] by (simp add: read_section_def)
  moreover have "\<exists>d. devices c = [d] \<and> device_setting default_device d key v" if "sec = ''device''"
  proof -
    have "map_of tree ''device'' = Some (TTable t)"
      using t(1) that by (auto simp: get_table_def split: option.splits toml.splits)
    then have "\<exists>d. get_device t = Inr d \<and> devices c = [d]"
      using parts(4) by (auto simp: read_devices_def bind_config_Inr)
    then show ?thesis using get_device_taken [OF _ t(3)] by blast
  qed
  ultimately show ?thesis by (simp add: setting_taken_def)
qed

section \<open>Properties\<close>

text \<open>
  C21: what the command line sets, the file cannot change. When the overrides alone parse to a tree
  with a value for some setting of some section, then in every configuration that is constructed,
  whatever the file contains, the field of that setting is the value given on the command line, or
  the default if that value does not have the type of the setting. This covers every field of
  \<open>server\<close>, \<open>work\<close> and \<open>admin\<close> and of a \<open>device\<close> that is a table.
\<close>

theorem override_wins:
  assumes "parse (overrides_text ovs) Merge_ignore False = Some (Inr tab)"
    and "leaf_at [sec, key] tab = Some v" and "is_value v"
    and "config_ctor M loopback hw fs path ovs = Inr c"
  shows "setting_taken M loopback hw c sec key v"
proof -
  obtain tree where read: "read_config fs path ovs = Inr tree"
    and ctor: "config_of_tree M loopback hw tree = Inr c"
    using assms(4) by (auto simp: config_ctor_def bind_config_Inr throwing_Inr)
  show ?thesis
    by (rule config_of_tree_taken [OF ctor read_config_leaf [OF assms(1) read assms(2,3)]])
qed

text \<open>An override of both keys, and a file that contradicts it.\<close>

definition demo_overrides :: "string list" where
  "demo_overrides = [''server.port=9000'', ''server.allow_control=false'']"

definition demo_file :: string where
  "demo_file = ''[server]'' @ [CHR 0x0A] @ ''port = 1'' @ [CHR 0x0A] @ ''allow_control = true''"

definition demo_tree :: table where
  "demo_tree = [(''server'', TTable [(''allow_control'', TBool False), (''port'', TInt 9000)])]"

theorem override_wins_witness:
  "\<exists>c. config_ctor ref128 ''::1'' 8 (\<lambda>_. Some demo_file) ''x.toml'' demo_overrides = Inr c
     \<and> uint (port (server c)) = 9000 \<and> allow_control (server c) = False"
proof -
  let ?fs = "\<lambda>_ :: string. Some demo_file"
  have parse: "parse (overrides_text demo_overrides) Merge_ignore False = Some (Inr demo_tree)"
    by code_simp
  have both: "parse_base_and_override_files (overrides_text demo_overrides) demo_file Merge_ignore False
      = Some (Inr demo_tree)"
    by code_simp
  have read: "read_config ?fs ''x.toml'' demo_overrides = Inr demo_tree"
    by (simp add: read_config_def config_input_def config_file_exists_def both)
  obtain w where "default_work ref128 = Inr w"
    using u128.from_hex_digits [of BASE_DIFFICULTY]
    by (auto simp: default_work_def bi_of_string_def BASE_DIFFICULTY_def is_hex_def)
  then obtain c where ctor: "config_ctor ref128 ''::1'' 8 ?fs ''x.toml'' demo_overrides = Inr c"
    using read by (auto simp: config_ctor_def config_of_tree_def read_section_def contains_def
        get_table_def read_server_def get_as_string_def get_as_bool_def uint_value_or_def
        get_as_unsigned_def get_impl_unsigned_def value_or_def read_devices_def demo_tree_def)
  moreover from ctor have "setting_taken ref128 ''::1'' 8 c ''server'' ''port'' (TInt 9000)"
    by (rule override_wins [OF parse, rotated 2]) (simp_all add: demo_tree_def)
  moreover from ctor have "setting_taken ref128 ''::1'' 8 c ''server'' ''allow_control'' (TBool False)"
    by (rule override_wins [OF parse, rotated 2]) (simp_all add: demo_tree_def)
  ultimately show ?thesis
    by (auto simp: setting_taken_def server_setting_def uint_field_def bool_field_def)
qed

text \<open>
  The sample documents the keys \<open>device_id\<close> and \<open>platform_id\<close> of a device, but the
  constructor reads \<open>device\<close> and \<open>platform\<close>: a device section that uses only documented keys
  always gets device 0 on platform 0.
\<close>

theorem documented_device_ids_ignored:
  assumes "fst ` set t \<subseteq> fst ` set (fst (export_device d0))" and "get_device t = Inr d"
  shows "platform_id d = 0 \<and> device_id d = 0"
proof -
  have "map_of t ''platform'' = None" and "map_of t ''device'' = None"
    using assms(1) unfolding keys_export_device by (auto simp: map_of_eq_None_iff)
  then show ?thesis using assms(2)
    by (auto simp: get_device_def bind_config_Inr uint_value_or_absent default_device_def Let_def
        split: if_splits)
qed

theorem documented_device_ids_ignored_witness:
  "get_device [(''type'', TString ''gpu''), (''device_id'', TInt 1), (''platform_id'', TInt 2)]
     = Inr \<lparr>dev_type = gpu, platform_id = 0, device_id = 0, dev_threads = 0, memory = 2048\<rparr>
   \<and> platform_id \<lparr>dev_type = gpu, platform_id = 0, device_id = 0, dev_threads = 0, memory = 2048\<rparr> = 0"
proof -
  let ?t = "[(''type'', TString ''gpu''), (''device_id'', TInt 1), (''platform_id'', TInt 2)]"
  let ?d = "\<lparr>dev_type = gpu, platform_id = 0, device_id = 0, dev_threads = 0, memory = 2048\<rparr>"
  have get: "get_device ?t = Inr ?d"
    by (simp add: get_device_def uint_value_or_absent get_as_string_def value_or_def default_device_def)
  have "fst ` set ?t \<subseteq> fst ` set (fst (export_device no_docs))"
    unfolding keys_export_device by simp
  from documented_device_ids_ignored [OF this get] get show ?thesis by simp
qed

text \<open>
  The constructor dereferences a null pointer only for a tree in which \<open>server\<close>, \<open>work\<close> or
  \<open>admin\<close> is present without being a table; every other malformed tree is a thrown error.
\<close>

theorem config_null_dereference:
  assumes "config_of_tree M loopback hw tree = Inl Null_dereference"
  shows "\<exists>key \<in> {''server'', ''work'', ''admin''}. contains tree key \<and> get_table tree key = None"
  using assms by (auto simp: config_of_tree_def bind_config_Inl read_section_null)

theorem config_null_dereference_witness:
  "config_of_tree ref128 ''::1'' 8 [(''server'', TInt 1)] = Inl Null_dereference \<and>
   (\<exists>key \<in> {''server'', ''work'', ''admin''}.
      contains [(''server'', TInt 1)] key \<and> get_table [(''server'', TInt 1)] key = None)"
proof -
  have "throwing (default_work ref128) \<noteq> Inl e" for e
    using u128.from_hex_digits [of BASE_DIFFICULTY]
    by (simp add: default_work_def bi_of_string_def BASE_DIFFICULTY_def is_hex_def throwing_def)
  then obtain w where "throwing (default_work ref128) = Inr w"
    by (cases "throwing (default_work ref128)") auto
  then have "config_of_tree ref128 ''::1'' 8 [(''server'', TInt 1)] = Inl Null_dereference"
    by (simp add: config_of_tree_def read_section_def contains_def get_table_def)
  from this config_null_dereference [OF this] show ?thesis ..
qed

end
