(* ===== verification/Toml_Text.thy ===== *)
theory Toml_Text
  imports Toml_Writer
begin

text \<open>
  What the writer writes for a value, the parser reads back: strings, integers, booleans, dates,
  times and arrays of them. Excluded are doubles (their decimal text is not shown to be exact) and
  the characters that the writer does not escape correctly.
\<close>

section \<open>Strings\<close>

definition plain_char :: "char \<Rightarrow> bool" where
  "plain_char c \<longleftrightarrow> 32 \<le> (of_char c :: nat) \<or> c \<in> {CHR 0x08, CHR 0x09, CHR 0x0A, CHR 0x0C, CHR 0x0D}"

definition plain :: "string \<Rightarrow> bool" where
  "plain s = list_all plain_char s"

lemma escape_char_cases:
  assumes "plain_char c"
  obtains e where "escape_char c = [CHR 0x5C, e]"
      "\<And>n t. parse_escape_code n (CHR 0x5C # e # t) = Inr ([c], t)" "e \<noteq> CHR 0x0A" "e \<noteq> CHR 0x0D"
    | "escape_char c = [c]" "c \<noteq> CHR 0x5C" "c \<noteq> CHR 0x22" "c \<noteq> CHR 0x0A" "c \<noteq> CHR 0x0D"
proof -
  consider "c = CHR 0x08" | "c = CHR 0x09" | "c = CHR 0x0A" | "c = CHR 0x0C" | "c = CHR 0x0D"
    | "c = CHR 0x22" | "c = CHR 0x5C"
    | "c \<notin> {CHR 0x08, CHR 0x09, CHR 0x0A, CHR 0x0C, CHR 0x0D, CHR 0x22, CHR 0x5C}" "32 \<le> (of_char c :: nat)"
    using assms unfolding plain_char_def by blast
  then show thesis
  proof cases
    case 1
    then show thesis by (intro that(1) [of "CHR ''b''"]) (simp_all add: escape_char_def parse_escape_code_def)
  next
    case 2
    then show thesis by (intro that(1) [of "CHR ''t''"]) (simp_all add: escape_char_def parse_escape_code_def)
  next
    case 3
    then show thesis by (intro that(1) [of "CHR ''n''"]) (simp_all add: escape_char_def parse_escape_code_def)
  next
    case 4
    then show thesis by (intro that(1) [of "CHR ''f''"]) (simp_all add: escape_char_def parse_escape_code_def)
  next
    case 5
    then show thesis by (intro that(1) [of "CHR ''r''"]) (simp_all add: escape_char_def parse_escape_code_def)
  next
    case 6
    then show thesis by (intro that(1) [of "CHR 0x22"]) (simp_all add: escape_char_def parse_escape_code_def)
  next
    case 7
    then show thesis by (intro that(1) [of "CHR 0x5C"]) (simp_all add: escape_char_def parse_escape_code_def)
  next
    case 8
    then show thesis by (intro that(2)) (simp_all add: escape_char_def)
  qed
qed

lemma escape_string_simps [simp]:
  "escape_string [] = []" "escape_string (c # s) = escape_char c @ escape_string s"
  by (simp_all add: escape_string_def)

lemma string_body_escaped:
  "plain s \<Longrightarrow> string_body n CHR 0x22 (escape_string s @ CHR 0x22 # r) val = Inr (val @ s, consume_whitespace r)"
proof (induction s arbitrary: val)
  case (Cons c s)
  have "plain_char c" and plain: "plain s" using Cons.prems by (simp_all add: plain_def)
  from this(1) show ?case
  proof (cases rule: escape_char_cases)
    case (1 e)
    then show ?thesis using Cons.IH [OF plain] by simp
  next
    case 2
    then show ?thesis using Cons.IH [OF plain] by simp
  qed
qed simp

lemma string_literal_quoted:
  "plain s \<Longrightarrow> string_literal n (quoted s @ r) CHR 0x22 = Inr (s, consume_whitespace r)"
  by (simp add: string_literal_def quoted_def string_body_escaped)

lemma escape_char_first: "plain_char c \<Longrightarrow> \<exists>d t. escape_char c = d # t \<and> d \<noteq> CHR 0x22"
  by (cases rule: escape_char_cases [of c]) auto

lemma escaped_no_newline: "plain s \<Longrightarrow> c \<in> set (escape_string s) \<Longrightarrow> c \<noteq> CHR 0x0A \<and> c \<noteq> CHR 0x0D"
proof (induction s)
  case (Cons d s)
  have "plain_char d" and plain: "plain s" using Cons.prems by (simp_all add: plain_def)
  from this(1) show ?case
    by (cases rule: escape_char_cases) (use Cons plain in auto)
qed simp

text \<open>A quoted text is not taken for the start of a multi-line string, whatever follows.\<close>

lemma parse_string_quoted:
  assumes "plain s" and "ends_value r"
  shows "parse_string P (quoted s @ r) = Inr (TString s, consume_whitespace r, P)"
proof -
  have "\<not> (starts (\<lambda>c. c = CHR 0x22) (tl (quoted s @ r)) \<and> starts (\<lambda>c. c = CHR 0x22) (tl (tl (quoted s @ r))))"
  proof (cases s)
    case Nil
    then show ?thesis using assms(2) by (auto simp: quoted_def starts_def ends_value_def)
  next
    case (Cons c t)
    then obtain d u where "escape_char c = d # u" "d \<noteq> CHR 0x22"
      using assms(1) escape_char_first [of c] by (auto simp: plain_def)
    then show ?thesis by (simp add: Cons quoted_def starts_def)
  qed
  moreover have "hd (quoted s @ r) = CHR 0x22" by (simp add: quoted_def)
  ultimately show ?thesis
    using string_literal_quoted [OF assms(1)] by (auto simp: parse_string_def Let_def)
qed

section \<open>The type of a value from its text\<close>

lemma not_is_time: "length (between s (find_end_of_time s)) < 8 \<Longrightarrow> \<not> is_time s"
  by (simp add: is_time_def)

lemma not_is_time_start: "\<not> starts is_time_char s \<Longrightarrow> \<not> is_time s"
  by (rule not_is_time) (cases s; simp add: find_end_of_time_def starts_def between_def)

lemma find_end_of_date_run:
  assumes "\<forall>c \<in> set x. is_number c \<or> c = CHR ''-''" and "ends_value r"
  shows "find_end_of_date (x @ r) = r"
proof -
  have "\<not> starts (\<lambda>c. is_number c \<or> c = CHR ''-'') r"
    using assms(2) by (rule ends_value_not) (auto simp: is_number_def less_eq_char_def)
  moreover have "\<not> (starts (\<lambda>c. c = CHR '' '') r \<and> starts is_number (tl r))"
    using assms(2) by (auto simp: ends_value_def starts_def)
  moreover have "dropWhile is_date_char r = r"
    using ends_date_char [OF assms(2)] by (cases r) (simp_all add: starts_def)
  moreover from calculation have "dropWhile (\<lambda>c. is_number c \<or> c = CHR ''-'') (x @ r) = r"
    using assms(1) by (intro dropWhile_run)
  ultimately show ?thesis
    unfolding find_end_of_date_def by (auto simp: Let_def)
qed

lemma date_type_start:
  "\<not> starts (\<lambda>c. is_date_char c \<or> c = CHR '' '') s \<Longrightarrow> date_type s = None"
proof -
  assume "\<not> starts (\<lambda>c. is_date_char c \<or> c = CHR '' '') s"
  then have "find_end_of_date s = s"
    by (cases s) (auto simp: find_end_of_date_def starts_def is_date_char_def)
  then show ?thesis by (simp add: date_type_def between_def)
qed

lemma int_string_digit:
  assumes "0 < i" and "i < length (int_string v)"
  shows "is_number (int_string v ! i)"
proof -
  have "is_number (dec_string k ! j)" if "j < length (dec_string k)" for k j
    using dec_string_number [of k] nth_mem [OF that] by blast
  then show ?thesis using assms by (auto simp: int_string_def nth_Cons' split: if_splits)
qed

lemma int_string_run: "\<forall>c \<in> set (int_string v). is_number c \<or> c = CHR ''-''"
  by (auto simp: int_string_def)

lemma int_is_no_time:
  assumes "ends_value r"
  shows "\<not> is_time (int_string v @ r)"
proof (cases "v < 0")
  case True
  then show ?thesis
    by (intro not_is_time_start) (auto simp: int_string_def starts_def is_time_char_def is_number_def less_eq_char_def)
next
  case False
  then have e: "find_end_of_time (int_string v @ r) = r"
    unfolding find_end_of_time_def
    by (intro dropWhile_run) (auto simp: int_string_def is_time_char_def ends_time_char [OF assms])
  have colon: "\<not> is_number CHR '':''" by (simp add: is_number_def less_eq_char_def)
  show ?thesis
  proof
    assume "is_time (int_string v @ r)"
    then have "8 \<le> length (int_string v)" and "(int_string v @ r) ! 2 = CHR '':''"
      unfolding is_time_def e between_append by (auto simp: Let_def split: if_splits)
    then show False using int_string_digit [of 2 v] colon by (simp add: nth_append)
  qed
qed

lemma int_is_no_date:
  assumes "ends_value r"
  shows "date_type (int_string v @ r) = None"
proof -
  have e: "find_end_of_date (int_string v @ r) = r"
    by (rule find_end_of_date_run [OF int_string_run assms])
  have "\<not> is_number CHR ''-''" by (simp add: is_number_def less_eq_char_def)
  then have "(int_string v @ r) ! 4 \<noteq> CHR ''-''" if "10 \<le> length (int_string v)"
    using int_string_digit [of 4 v] that by (auto simp: nth_append)
  then show ?thesis unfolding date_type_def e between_append by (simp add: Let_def)
qed

lemma date_is_no_time: "date_ok d \<Longrightarrow> \<not> is_time (date_text d @ r)"
proof -
  assume d: "date_ok d"
  have "find_end_of_time (date_text d @ r) = ''-'' @ setw 2 (month d) @ ''-'' @ setw 2 (day d) @ r"
    unfolding find_end_of_time_def date_text_def append_assoc using d setw_number
    by (intro dropWhile_run) (auto simp: date_ok_def is_time_char_def starts_def is_number_def less_eq_char_def)
  then have "between (date_text d @ r) (find_end_of_time (date_text d @ r)) = setw 4 (year d)"
    using between_append [of "setw 4 (year d)"] by (simp add: date_text_def)
  then show ?thesis
    using setw_digits(1) [of "year d" 4] d by (intro not_is_time) (simp add: date_ok_def)
qed

text \<open>The type that stands for a value in the parser.\<close>

fun type_of_value :: "toml \<Rightarrow> parse_type" where
  "type_of_value (TString _) = STRING"
| "type_of_value (TInt _) = INT64"
| "type_of_value (TFloat _) = FLOAT"
| "type_of_value (TBool _) = BOOL"
| "type_of_value (TLocalDate _) = LOCAL_DATE"
| "type_of_value (TLocalTime _) = LOCAL_TIME"
| "type_of_value (TLocalDatetime _) = LOCAL_DATETIME"
| "type_of_value (TOffsetDatetime _) = OFFSET_DATETIME"
| "type_of_value (TArray _) = ARRAY"
| "type_of_value _ = INLINE_TABLE"

text \<open>The values whose text is read back, arrays included: an array needs elements of one kind.\<close>

definition one_kind :: "toml list \<Rightarrow> bool" where
  "one_kind xs \<longleftrightarrow> list_all is_array xs \<or> xs \<noteq> [] \<and> kind_of (hd xs) \<noteq> None
     \<and> list_all (\<lambda>x. kind_of x = kind_of (hd xs)) xs"

fun writable :: "toml \<Rightarrow> bool" where
  "writable (TString s) \<longleftrightarrow> plain s"
| "writable (TInt v) \<longleftrightarrow> - (2 ^ 63) \<le> v \<and> v < 2 ^ 63"
| "writable (TBool b) \<longleftrightarrow> True"
| "writable (TLocalDate d) \<longleftrightarrow> date_ok d"
| "writable (TLocalTime t) \<longleftrightarrow> time_ok t"
| "writable (TLocalDatetime dt) \<longleftrightarrow> datetime_ok dt"
| "writable (TOffsetDatetime dt) \<longleftrightarrow>
     datetime_ok (local_part dt) \<and> zone_ok (offset_part dt) \<and> zone_back (offset_part dt) = offset_part dt"
| "writable (TArray xs) \<longleftrightarrow> one_kind xs \<and> list_all writable xs"
| "writable _ \<longleftrightarrow> False"

lemma determine_quoted [simp]: "determine_value_type n (CHR 0x22 # s) = Inr STRING"
  by (simp add: determine_value_type_def)

lemma determine_bracket [simp]: "determine_value_type n (CHR ''['' # s) = Inr ARRAY"
proof -
  have "\<not> is_time (CHR ''['' # s)" and "date_type (CHR ''['' # s) = None"
    by (rule not_is_time_start date_type_start;
        simp add: starts_def is_time_char_def is_date_char_def is_number_def less_eq_char_def)+
  then show ?thesis
    by (simp add: determine_value_type_def is_number_def is_sign_def less_eq_char_def)
qed

lemma determine_number_start:
  assumes "is_number (hd s) \<or> is_sign (hd s)" and "s \<noteq> []"
  shows "determine_value_type n s =
    (if is_time s then Inr LOCAL_TIME
     else case date_type s of Some dtype \<Rightarrow> Inr dtype | None \<Rightarrow> determine_number_type n s)"
proof -
  have "hd s \<noteq> CHR 0x22" "hd s \<noteq> CHR 0x27"
    using assms(1) digit_char [of "hd s"] unfolding is_sign_def by auto
  with assms(1) show ?thesis
    using assms(2) by (elim disjE) (simp_all add: determine_value_type_def split: option.split)
qed

section \<open>Arrays\<close>

fun commas :: "string list \<Rightarrow> string" where
  "commas [] = []"
| "commas [t] = t"
| "commas (t # ts) = t @ '', '' @ commas ts"

fun inline_text :: "toml \<Rightarrow> string" where
  "inline_text (TArray xs) = ''['' @ commas (map inline_text xs) @ '']''"
| "inline_text v = value_text v"

lemma setw_start: "0 \<le> v \<Longrightarrow> \<exists>c t. setw w v = c # t \<and> is_number c"
proof -
  assume "0 \<le> v"
  then have "\<forall>c \<in> set (setw w v). is_number c" using setw_number by blast
  moreover have "setw w v \<noteq> []" by (simp add: setw_def int_string_def Let_def)
  ultimately show ?thesis by (cases "setw w v") auto
qed

lemma date_text_start: "date_ok d \<Longrightarrow> \<exists>c t. date_text d = c # t \<and> is_number c"
  using setw_start [of "year d" 4] by (auto simp: date_text_def date_ok_def)

lemma time_text_start: "time_ok d \<Longrightarrow> \<exists>c t. time_text d = c # t \<and> is_number c"
  using setw_start [of "hour d" 2] by (auto simp: time_text_def time_ok_def)

lemma determine_date:
  assumes "date_ok d"
  shows "determine_value_type n (date_text d @ x) =
    (case date_type (date_text d @ x) of Some dtype \<Rightarrow> Inr dtype
     | None \<Rightarrow> determine_number_type n (date_text d @ x))"
proof -
  have "is_number (hd (date_text d @ x))" and "date_text d @ x \<noteq> []" using date_text_start [OF assms] by auto
  then show ?thesis
    using determine_number_start [of "date_text d @ x" n] date_is_no_time [OF assms, of x] by simp
qed

lemma determine_int:
  assumes "ends_value r"
  shows "determine_value_type n (int_string v @ r) = Inr INT64"
proof -
  have "int_string v \<noteq> []" by (simp add: int_string_def)
  then obtain c t where ct: "int_string v = c # t" by (cases "int_string v") auto
  then have c: "is_number c \<or> is_sign c" using int_string_run [of v] by (auto simp: is_sign_def)
  then have "determine_value_type n (c # t @ r) =
      (if is_time (c # t @ r) then Inr LOCAL_TIME
       else case date_type (c # t @ r) of Some dtype \<Rightarrow> Inr dtype | None \<Rightarrow> determine_number_type n (c # t @ r))"
    using determine_number_start [of "c # t @ r" n] by simp
  then show ?thesis
    using int_is_no_time [OF assms, of v] int_is_no_date [OF assms, of v] determine_int_string [OF assms, of n v]
    unfolding ct by simp
qed

lemma determine_bool:
  assumes "c = CHR ''t'' \<or> c = CHR ''f''"
  shows "determine_value_type n (c # s) = Inr BOOL"
proof -
  have "\<not> starts is_time_char (c # s)" and "\<not> starts (\<lambda>c. is_date_char c \<or> c = CHR '' '') (c # s)"
    and "\<not> is_number c"
    using assms by (auto simp: starts_def is_time_char_def is_date_char_def is_number_def less_eq_char_def)
  then have "\<not> is_time (c # s)" "date_type (c # s) = None" "\<not> is_number c"
    using not_is_time_start date_type_start by blast+
  then show ?thesis
    using assms by (auto simp: determine_value_type_def is_sign_def)
qed

lemma determine_text:
  assumes "writable v" and "ends_value r"
  shows "determine_value_type n (inline_text v @ r) = Inr (type_of_value v)"
proof (cases v)
  case (TString s)
  then show ?thesis by (simp add: quoted_def)
next
  case (TInt k)
  then show ?thesis using determine_int assms(2) by simp
next
  case (TBool b)
  then show ?thesis by (simp add: determine_bool)
next
  case (TLocalDate d)
  then show ?thesis using assms date_type_date determine_date by simp
next
  case (TLocalTime t)
  then obtain c u where "time_text t = c # u" "is_number c" using time_text_start assms(1) by fastforce
  then show ?thesis
    using TLocalTime assms is_time_text [of t r] ends_time_char [OF assms(2)]
      determine_number_start [of "time_text t @ r" n] by simp
next
  case (TLocalDatetime dt)
  then have "date_type (local_datetime_text dt @ r) = Some LOCAL_DATETIME"
    using date_type_datetime [of dt r "[]"] assms by (simp add: starts_def)
  then show ?thesis
    using TLocalDatetime assms determine_date [of "date_part dt" n "''T'' @ time_text (time_part dt) @ r"]
    by (simp add: local_datetime_text_def datetime_ok_def)
next
  case (TOffsetDatetime dt)
  let ?l = "local_part dt" and ?z = "offset_part dt"
  have "date_type (local_datetime_text ?l @ zone_text ?z @ r) = Some OFFSET_DATETIME"
    using TOffsetDatetime date_type_datetime [of ?l r "zone_text ?z"] assms zone_text_chars [of ?z] zone_not_time_char
    by simp
  then show ?thesis
    using TOffsetDatetime assms
      determine_date [of "date_part ?l" n "''T'' @ time_text (time_part ?l) @ zone_text ?z @ r"]
    by (simp add: offset_datetime_text_def local_datetime_text_def datetime_ok_def)
next
  case (TArray xs)
  then show ?thesis by simp
qed (use assms(1) in simp_all)

text \<open>The first element of an array, up to a comma or a bracket, tells its type.\<close>

abbreviation ends_element :: "char \<Rightarrow> bool" where
  "ends_element c \<equiv> c = CHR '','' \<or> c = CHR '']'' \<or> c = CHR ''#''"

lemma date_char_element: "is_date_char c \<Longrightarrow> \<not> ends_element c"
  by (auto simp: is_date_char_def is_number_def less_eq_char_def)

lemma number_date_char: "is_number c \<or> c = CHR ''-'' \<Longrightarrow> is_date_char c"
  by (auto simp: is_date_char_def)

lemma local_datetime_chars: "datetime_ok dt \<Longrightarrow> \<forall>c \<in> set (local_datetime_text dt). is_date_char c"
  using date_text_chars [of "date_part dt"] time_text_chars [of "time_part dt"] time_char_date number_date_char
  by (auto simp: local_datetime_text_def datetime_ok_def is_date_char_def)

lemma value_text_chars:
  assumes "writable v" and "\<not> is_array v" and "\<forall>s. v \<noteq> TString s"
  shows "(\<exists>b. v = TBool b) \<or> (\<forall>c \<in> set (inline_text v). is_date_char c)"
proof (cases v)
  case (TInt k)
  then show ?thesis using int_string_run [of k] number_date_char by auto
next
  case (TLocalDate d)
  then show ?thesis using date_text_chars [of d] number_date_char assms by auto
next
  case (TLocalTime t)
  then show ?thesis using time_text_chars [of t] time_char_date assms by auto
next
  case (TLocalDatetime dt)
  then show ?thesis using local_datetime_chars assms by auto
next
  case (TOffsetDatetime dt)
  then show ?thesis
    using local_datetime_chars zone_text_chars assms by (auto simp: offset_datetime_text_def)
qed (use assms in auto)

lemma value_text_element:
  assumes "writable v" and "\<not> is_array v" and "\<forall>s. v \<noteq> TString s"
  shows "\<forall>c \<in> set (inline_text v). \<not> ends_element c"
  using value_text_chars [OF assms]
proof (elim disjE exE)
  assume "\<forall>c \<in> set (inline_text v). is_date_char c"
  then show ?thesis using date_char_element by blast
qed simp

lemma determine_first_element:
  assumes "writable v" and "ends_element c"
  shows "determine_value_type n (first_element (inline_text v @ c # x)) = Inr (type_of_value v)"
proof -
  consider s where "v = TString s" | xs where "v = TArray xs" | "\<not> is_array v" "\<forall>s. v \<noteq> TString s"
    by (cases v) auto
  then show ?thesis
  proof cases
    case 1
    then show ?thesis by (simp add: first_element_def quoted_def)
  next
    case 2
    then show ?thesis by (simp add: first_element_def)
  next
    case 3
    then have "takeWhile (\<lambda>c. c \<noteq> CHR '','' \<and> c \<noteq> CHR '']'' \<and> c \<noteq> CHR ''#'') (inline_text v @ c # x) = inline_text v"
      using value_text_element [OF assms(1)] assms(2) by (subst takeWhile_append2) auto
    then show ?thesis
      using determine_text [OF assms(1), of "[]"] by (simp add: first_element_def ends_value_def)
  qed
qed

section \<open>Values are read back\<close>

text \<open>The rest of the line, up to white space.\<close>

definition same_rest :: "string \<Rightarrow> string \<Rightarrow> bool" where
  "same_rest r' r \<longleftrightarrow> consume_whitespace r' = consume_whitespace r"

lemma same_rest_simps [simp]: "same_rest r r" "same_rest (consume_whitespace r) r"
  by (simp_all add: same_rest_def consume_whitespace_def dropWhile_idem)

definition solid :: "string \<Rightarrow> bool" where
  "solid s \<longleftrightarrow> starts (\<lambda>c. \<not> is_ws c \<and> c \<noteq> CHR ''#'') s"

lemma solid_consume: "solid s \<Longrightarrow> consume_whitespace s = s"
  by (cases s) (simp_all add: solid_def starts_def consume_whitespace_def)

lemma skip_solid:
  "same_rest r s \<Longrightarrow> solid s \<Longrightarrow> skip_whitespace_and_comments P r = Inr (s, P)"
  using solid_consume [of s]
  by (simp add: skip_whitespace_and_comments.simps [of P r] same_rest_def solid_def starts_def)

lemma skip_blank_solid: "solid s \<Longrightarrow> skip_whitespace_and_comments P (CHR '' '' # s) = Inr (s, P)"
  by (rule skip_solid) (simp_all add: same_rest_def consume_whitespace_def is_ws_def)

lemma inline_text_solid:
  assumes "writable v"
  shows "solid (inline_text v @ r)" "starts (\<lambda>c. \<not> closes c) (inline_text v @ r)"
    "hd (inline_text v @ r) = CHR ''['' \<or> \<not> is_array v" "hd (inline_text v @ r) \<noteq> CHR '']''"
proof -
  have "\<exists>c t. inline_text v = c # t \<and> \<not> is_ws c \<and> c \<noteq> CHR ''#'' \<and> c \<noteq> CHR '']'' \<and> (c = CHR ''['' \<or> \<not> is_array v)"
  proof (cases v)
    case (TInt k)
    have "int_string k \<noteq> []" by (simp add: int_string_def)
    then obtain c t where "int_string k = c # t" "is_number c \<or> c = CHR ''-''"
      using int_string_run [of k] by (cases "int_string k") auto
    then show ?thesis using TInt by (auto simp: is_ws_def is_number_def less_eq_char_def)
  next
    case (TLocalDate d)
    then show ?thesis
      using date_text_start [of d] assms by (auto simp: is_ws_def is_number_def less_eq_char_def)
  next
    case (TLocalTime t)
    then show ?thesis
      using time_text_start [of t] assms by (auto simp: is_ws_def is_number_def less_eq_char_def)
  next
    case (TLocalDatetime dt)
    then show ?thesis
      using date_text_start [of "date_part dt"] assms
      by (auto simp: is_ws_def is_number_def less_eq_char_def local_datetime_text_def datetime_ok_def)
  next
    case (TOffsetDatetime dt)
    then show ?thesis
      using date_text_start [of "date_part (local_part dt)"] assms
      by (auto simp: is_ws_def is_number_def less_eq_char_def offset_datetime_text_def
          local_datetime_text_def datetime_ok_def)
  qed (use assms in \<open>auto simp: quoted_def is_ws_def\<close>)
  then show "solid (inline_text v @ r)" "starts (\<lambda>c. \<not> closes c) (inline_text v @ r)"
    "hd (inline_text v @ r) = CHR ''['' \<or> \<not> is_array v" "hd (inline_text v @ r) \<noteq> CHR '']''"
    by (auto simp: solid_def starts_def)
qed

lemma ends_value_simps [simp]: "ends_value (CHR '','' # s)" "ends_value (CHR '']'' # s)" "ends_value []"
  by (simp_all add: ends_value_def)

lemma eat_text_run: "eat_text n err cs (cs @ r) = Inr r"
  by (induction cs) (simp_all add: eat_def starts_def)

lemma parse_bool_text: "parse_bool n ((if b then ''true'' else ''false'') @ r) = Inr (TBool b, r)"
  using eat_text_run [of n "''Attempted to parse invalid boolean value''" "''true''" r]
    eat_text_run [of n "''Attempted to parse invalid boolean value''" "''false''" r]
  by (cases b) (simp_all add: parse_bool_def starts_def Let_def del: eat_text.simps)

lemma parse_basic_text:
  assumes "writable v" and "\<not> is_array v" and "ends_value r"
  shows "\<exists>r'. parse_basic P (type_of_value v) (inline_text v @ r) = Inr (v, r', P) \<and> same_rest r' r"
proof (cases v)
  case (TBool b)
  have "parse_bool (line_number P) (inline_text v @ r) = Inr (TBool b, r)"
    using parse_bool_text [of _ b r] TBool by simp
  then show ?thesis using TBool by (simp add: parse_basic_def)
next
  case (TOffsetDatetime dt)
  then show ?thesis
    using assms parse_offset_datetime_text [of "local_part dt" "offset_part dt" r "line_number P"]
    by (simp add: parse_basic_def offset_datetime_text_def)
qed (use assms in \<open>auto simp: parse_basic_def parse_string_quoted parse_number_int_string parse_date_text
      parse_time_text parse_local_datetime_text\<close>)

lemma value_kind_text: "kind_of v = Some k \<Longrightarrow> writable v \<Longrightarrow> value_kind_of (type_of_value v) = k"
  by (cases v) auto

lemma kind_not_array: "kind_of v \<noteq> None \<Longrightarrow> \<not> is_array v"
  by (cases v) simp_all

definition reads_text :: "value_reader \<Rightarrow> parser \<Rightarrow> toml \<Rightarrow> bool" where
  "reads_text reader P x \<longleftrightarrow>
     (\<forall>r. ends_value r \<longrightarrow> (\<exists>r'. reader P (inline_text x @ r) = Some (Inr (x, r', P)) \<and> same_rest r' r))"

lemma reads_textD:
  assumes "reads_text reader P x" and "ends_value r"
  obtains r' where "reader P (inline_text x @ r) = Some (Inr (x, r', P))" "same_rest r' r"
  using assms unfolding reads_text_def by blast

lemma commas_Cons: "\<exists>z. commas (t # ts) = t @ z"
  by (cases ts) simp_all

lemma commas_solid:
  assumes "writable x"
  shows "solid (commas (map inline_text (x # xs)) @ r)"
proof -
  obtain z where "commas (map inline_text (x # xs)) = inline_text x @ z"
    using commas_Cons [of "inline_text x" "map inline_text xs"] by auto
  then show ?thesis using inline_text_solid(1) [OF assms] by simp
qed

lemma solid_separator [simp]: "solid (CHR '']'' # s)" "solid (CHR '','' # s)"
  by (simp_all add: solid_def starts_def is_ws_def)

lemma parse_value_array_text:
  "xs \<noteq> [] \<Longrightarrow> \<forall>x \<in> set xs. writable x \<and> kind_of x = Some k \<and> reads_text reader P x \<Longrightarrow> length xs \<le> f \<Longrightarrow>
   parse_value_array f reader k P (commas (map inline_text xs) @ CHR '']'' # r) arr
     = Some (Inr (TArray (arr @ xs), r, P))"
proof (induction xs arbitrary: f arr)
  case (Cons x xs)
  then obtain g where f: "f = Suc g" and g: "length xs \<le> g" by (cases f) auto
  have x: "writable x" "reads_text reader P x" and k: "as_value k x \<noteq> None"
    using Cons.prems(2) by (auto simp: as_value_def)
  show ?case
  proof (cases xs)
    case Nil
    obtain r' where r': "reader P (inline_text x @ CHR '']'' # r) = Some (Inr (x, r', P))"
      "same_rest r' (CHR '']'' # r)"
      by (rule reads_textD [OF x(2), of "CHR '']'' # r"]) simp_all
    show ?thesis
      using Nil f k r'(1) inline_text_solid(2) [OF x(1)] skip_solid [OF r'(2)] by simp
  next
    case (Cons y ys)
    let ?rest = "commas (map inline_text xs) @ CHR '']'' # r"
    obtain r' where r': "reader P (inline_text x @ '', '' @ ?rest) = Some (Inr (x, r', P))"
      "same_rest r' ('', '' @ ?rest)"
      by (rule reads_textD [OF x(2), of "'', '' @ ?rest"]) simp_all
    have "solid ?rest" using Cons Cons.prems(2) commas_solid by simp
    then have skip: "skip_whitespace_and_comments P (CHR '' '' # ?rest) = Inr (?rest, P)"
      by (rule skip_blank_solid)
    have "parse_value_array g reader k P ?rest (arr @ [x]) = Some (Inr (TArray ((arr @ [x]) @ xs), r, P))"
      using Cons.IH [of g] Cons Cons.prems(2) g by simp
    moreover have "commas (map inline_text (x # xs)) @ CHR '']'' # r = inline_text x @ '', '' @ ?rest"
      by (simp add: Cons)
    ultimately show ?thesis
      using f k r'(1) inline_text_solid(2) [OF x(1)] skip_solid [OF r'(2)] skip by simp
  qed
qed simp

lemma parse_object_array_text:
  "xs \<noteq> [] \<Longrightarrow> \<forall>x \<in> set xs. writable x \<and> is_array x \<and> reads_text reader P x \<Longrightarrow> length xs \<le> f \<Longrightarrow>
   parse_object_array f reader TArray CHR ''['' P (commas (map inline_text xs) @ CHR '']'' # r) arr
     = Some (Inr (TArray (arr @ xs), r, P))"
proof (induction xs arbitrary: f arr)
  case (Cons x xs)
  then obtain g where f: "f = Suc g" and g: "length xs \<le> g" by (cases f) auto
  have x: "writable x" "is_array x" "reads_text reader P x" using Cons.prems(2) by auto
  note start = inline_text_solid(2) [OF x(1)] inline_text_solid(3) [OF x(1)]
  show ?case
  proof (cases xs)
    case Nil
    obtain r' where r': "reader P (inline_text x @ CHR '']'' # r) = Some (Inr (x, r', P))"
      "same_rest r' (CHR '']'' # r)"
      by (rule reads_textD [OF x(3), of "CHR '']'' # r"]) simp_all
    show ?thesis
      using Nil f r'(1) start x(2) skip_solid [OF r'(2)] by (simp add: array_end_def starts_def)
  next
    case (Cons y ys)
    let ?rest = "commas (map inline_text xs) @ CHR '']'' # r"
    obtain r' where r': "reader P (inline_text x @ '', '' @ ?rest) = Some (Inr (x, r', P))"
      "same_rest r' ('', '' @ ?rest)"
      by (rule reads_textD [OF x(3), of "'', '' @ ?rest"]) simp_all
    have "solid ?rest" using Cons Cons.prems(2) commas_solid by simp
    then have skip: "skip_whitespace_and_comments P (CHR '' '' # ?rest) = Inr (?rest, P)"
      by (rule skip_blank_solid)
    have "parse_object_array g reader TArray CHR ''['' P ?rest (arr @ [x])
        = Some (Inr (TArray ((arr @ [x]) @ xs), r, P))"
      using Cons.IH [of g] Cons Cons.prems(2) g by simp
    moreover have "commas (map inline_text (x # xs)) @ CHR '']'' # r = inline_text x @ '', '' @ ?rest"
      by (simp add: Cons)
    moreover have "starts (\<lambda>c. c = CHR '','') (CHR '','' # CHR '' '' # ?rest)" by (simp add: starts_def)
    ultimately show ?thesis
      using f r'(1) start x(2) skip_solid [OF r'(2)] skip by simp
  qed
qed simp

lemma length_commas: "x \<in> set ts \<Longrightarrow> length x \<le> length (commas ts)"
  by (induction ts rule: commas.induct) auto

lemma count_commas: "\<forall>t \<in> set ts. t \<noteq> [] \<Longrightarrow> length ts \<le> length (commas ts)"
  by (induction ts rule: commas.induct) (auto simp: Suc_le_eq)

text \<open>The readers with enough fuel.\<close>

lemma parse_simple_text:
  assumes "writable v" and "\<not> is_array v" and "\<not> stringify_values P" and "0 < f"
  shows "reads_text (parse_value f) P v"
  unfolding reads_text_def
proof (intro allI impI)
  fix r assume r: "ends_value r"
  obtain g where f: "f = Suc g" using assms(4) by (cases f) auto
  have "type_of_value v \<noteq> ARRAY" "type_of_value v \<noteq> INLINE_TABLE" using assms(1,2) by (cases v; simp)+
  then show "\<exists>r'. parse_value f P (inline_text v @ r) = Some (Inr (v, r', P)) \<and> same_rest r' r"
    using determine_text [OF assms(1) r, of "line_number P"] parse_basic_text [OF assms(1,2) r, of P] assms(3) f
    by (auto simp: value_body_def parse_simple_value_def)
qed

lemma parse_text:
  "writable v \<Longrightarrow> \<not> stringify_values P \<Longrightarrow>
   (2 * length (inline_text v) + 3 \<le> f \<longrightarrow> reads_text (parse_value f) P v) \<and>
   (is_array v \<longrightarrow> 2 * length (inline_text v) + 2 \<le> f \<longrightarrow> reads_text (parse_array f) P v)"
proof (induction v arbitrary: f rule: inline_text.induct)
  case (1 xs)
  let ?text = "commas (map inline_text xs)"
  have ok: "one_kind xs" "\<forall>x \<in> set xs. writable x" using "1.prems"(1) by (simp_all add: list_all_iff)
  have arr: "parse_array f P (inline_text (TArray xs) @ r) = Some (Inr (TArray xs, r, P))"
    if f: "2 * length (inline_text (TArray xs)) + 2 \<le> f" for f r
  proof (cases xs)
    case Nil
    obtain g where "f = Suc g" using f by (cases f) auto
    then show ?thesis
      using Nil skip_solid [of "CHR '']'' # r" "CHR '']'' # r" P] by (simp add: array_body_def)
  next
    case (Cons y ys)
    obtain g where g: "f = Suc g" using f by (cases f) auto
    have fuel: "2 * length (inline_text x) + 3 \<le> g" if "x \<in> set xs" for x
      using length_commas [of "inline_text x" "map inline_text xs"] that f g by simp
    have "\<forall>t \<in> set (map inline_text xs). t \<noteq> []"
      using ok(2) inline_text_solid(1) [of _ "[]"] by (auto simp: solid_def starts_def)
    then have count: "length xs \<le> g" using count_commas [of "map inline_text xs"] f g by simp
    have y: "writable y" using ok(2) Cons by simp
    have skip: "skip_whitespace_and_comments P (?text @ CHR '']'' # r) = Inr (?text @ CHR '']'' # r, P)"
      using commas_solid [OF y, of ys "CHR '']'' # r"] Cons by (intro skip_solid) simp_all
    obtain c z where c: "?text @ CHR '']'' # r = inline_text y @ c # z" "ends_element c"
      using Cons by (cases ys) auto
    have type: "determine_value_type (line_number P) (first_element (?text @ CHR '']'' # r)) = Inr (type_of_value y)"
      unfolding c(1) by (rule determine_first_element [OF y c(2)])
    have not_end: "hd (?text @ CHR '']'' # r) \<noteq> CHR '']''"
      unfolding c(1) using inline_text_solid(4) [OF y] .
    have unfold: "parse_array f P (inline_text (TArray xs) @ r) =
      (if type_of_value y = ARRAY
       then parse_object_array g (parse_array g) TArray CHR ''['' P (?text @ CHR '']'' # r) []
       else if type_of_value y = INLINE_TABLE
       then parse_object_array g (parse_inline_table g) inline_tables CHR ''{'' P (?text @ CHR '']'' # r) []
       else parse_value_array g (parse_value g) (value_kind_of (type_of_value y)) P (?text @ CHR '']'' # r) [])"
      using skip type not_end g by (simp add: array_body_def)
    show ?thesis
    proof (cases "is_array y")
      case True
      then have arrays: "\<forall>x \<in> set xs. is_array x"
        using ok(1) Cons kind_not_array [of y] by (auto simp: one_kind_def list_all_iff)
      have each: "\<forall>x \<in> set xs. writable x \<and> is_array x \<and> reads_text (parse_array g) P x"
      proof
        fix x assume x: "x \<in> set xs"
        then have "2 * length (inline_text x) + 2 \<le> g" using fuel [OF x] by linarith
        then show "writable x \<and> is_array x \<and> reads_text (parse_array g) P x"
          using "1.IH" [OF x, of g] ok(2) arrays x "1.prems"(2) by blast
      qed
      have "type_of_value y = ARRAY" using True by (cases y) simp_all
      then show ?thesis
        unfolding unfold using parse_object_array_text [OF _ each count] Cons by simp
    next
      case False
      then obtain k where k: "\<forall>x \<in> set xs. kind_of x = Some k"
        using ok(1) Cons by (auto simp: one_kind_def list_all_iff)
      have each: "\<forall>x \<in> set xs. writable x \<and> kind_of x = Some k \<and> reads_text (parse_value g) P x"
      proof
        fix x assume x: "x \<in> set xs"
        then show "writable x \<and> kind_of x = Some k \<and> reads_text (parse_value g) P x"
          using "1.IH" [OF x, of g] ok(2) k "1.prems"(2) fuel [OF x] by blast
      qed
      have ky: "kind_of y = Some k" using k Cons by simp
      then have "type_of_value y \<noteq> ARRAY" "type_of_value y \<noteq> INLINE_TABLE" using y by (cases y; simp)+
      then show ?thesis
        unfolding unfold value_kind_text [OF ky y] using parse_value_array_text [OF _ each count] Cons by simp
    qed
  qed
  have "reads_text (parse_array f) P (TArray xs)" if "2 * length (inline_text (TArray xs)) + 2 \<le> f"
    using arr [OF that] unfolding reads_text_def by (metis same_rest_simps(1))
  moreover have "reads_text (parse_value f) P (TArray xs)" if f: "2 * length (inline_text (TArray xs)) + 3 \<le> f"
  proof -
    obtain g where "f = Suc g" using f by (cases f) auto
    then show ?thesis
      using arr [of g] f unfolding reads_text_def by (auto simp: value_body_def)
  qed
  ultimately show ?case by blast
qed (auto intro!: parse_simple_text)

end
