(* ===== verification/Toml_Document.thy ===== *)
theory Toml_Document
  imports Toml_Text
begin

text \<open>
  What the parser does with the lines that the writer writes: blank lines, headers of tables and of
  arrays of tables, and keys with values.

  \<open>store p s tab\<close> puts the table \<open>s\<close> under the path \<open>p\<close>, which is what a header and the lines
  behind it achieve together. \<open>runs s (tab, cur) (tab', cur')\<close> says what the parser does with the
  lines of \<open>s\<close>, whatever follows.
\<close>

section \<open>Tables under a path\<close>

fun exists_path :: "string list \<Rightarrow> table \<Rightarrow> bool" where
  "exists_path [] t = True"
| "exists_path (k # ks) t =
     (case map_of t k of
        Some (TTable s) \<Rightarrow> exists_path ks s
      | Some (TTableArray i ts) \<Rightarrow> ts \<noteq> [] \<and> exists_path ks (last ts)
      | _ \<Rightarrow> False)"

text \<open>A path is open when a header can lead to it: what exists of it are tables.\<close>

fun open_path :: "string list \<Rightarrow> table \<Rightarrow> bool" where
  "open_path [] t = True"
| "open_path (k # ks) t =
     (case map_of t k of
        None \<Rightarrow> True
      | Some (TTable s) \<Rightarrow> open_path ks s
      | Some (TTableArray i ts) \<Rightarrow> ts \<noteq> [] \<and> open_path ks (last ts)
      | _ \<Rightarrow> False)"

fun store :: "string list \<Rightarrow> table \<Rightarrow> table \<Rightarrow> table" where
  "store [] s t = s"
| "store (k # ks) s t =
     insert_value k
       (case map_of t k of
          Some (TTable u) \<Rightarrow> TTable (store ks s u)
        | Some (TTableArray i ts) \<Rightarrow> TTableArray i (butlast ts @ [store ks s (last ts)])
        | _ \<Rightarrow> TTable (store ks s [])) t"

lemma insert_value_again [simp]: "insert_value k v (insert_value k x t) = insert_value k v t"
  by (induction k x t rule: insert_value.induct) auto

lemma open_path_Nil [simp]: "open_path p []"
  by (cases p) simp_all

lemma table_at_Nil [simp]: "table_at p [] = []"
  by (cases p) simp_all

lemma exists_open: "exists_path p t \<Longrightarrow> open_path p t"
  by (induction p t rule: exists_path.induct) (auto split: option.splits toml.splits)

lemma update_at_store: "exists_path p t \<Longrightarrow> update_at p f t = store p (f (table_at p t)) t"
  by (induction p t rule: exists_path.induct) (auto split: option.splits toml.splits)

lemma store_store: "open_path p t \<Longrightarrow> store p s' (store p s t) = store p s' t"
proof (induction p arbitrary: t)
  case (Cons k ks)
  have "store ks s' (store ks s []) = store ks s' []" using Cons.IH [of "[]"] by simp
  then show ?case using Cons by (auto split: option.splits toml.splits)
qed simp

lemma table_at_store: "open_path p t \<Longrightarrow> table_at p (store p s t) = s \<and> exists_path p (store p s t)"
proof (induction p arbitrary: t)
  case (Cons k ks)
  have "table_at ks (store ks s []) = s \<and> exists_path ks (store ks s [])" using Cons.IH [of "[]"] by simp
  then show ?case using Cons by (auto split: option.splits toml.splits)
qed simp

lemma table_at_append: "table_at (p @ q) t = table_at q (table_at p t)"
  by (induction p arbitrary: t) (auto split: option.splits toml.splits)

lemma open_path_append: "open_path (p @ q) t \<longleftrightarrow> open_path p t \<and> open_path q (table_at p t)"
  by (induction p arbitrary: t) (auto split: option.splits toml.splits)

lemma exists_path_append: "exists_path (p @ q) t \<longleftrightarrow> exists_path p t \<and> exists_path q (table_at p t)"
  by (induction p arbitrary: t) (auto split: option.splits toml.splits)

lemma store_append: "open_path p t \<Longrightarrow> store (p @ q) s t = store p (store q s (table_at p t)) t"
  by (induction p arbitrary: t) (auto split: option.splits toml.splits)

text \<open>Two states that differ only in which tables on the way to \<open>p\<close> have been created.\<close>

definition same_at :: "string list \<Rightarrow> table \<Rightarrow> table \<Rightarrow> bool" where
  "same_at p a b \<longleftrightarrow> (\<forall>s. store p s a = store p s b) \<and> table_at p a = table_at p b"

lemma same_at_refl [simp]: "same_at p a a"
  by (simp add: same_at_def)

lemma same_at_trans: "same_at p a b \<Longrightarrow> same_at p b c \<Longrightarrow> same_at p a c"
  by (simp add: same_at_def)

lemma same_at_create:
  assumes "open_path p t" and "table_at p t = []"
  shows "same_at (p @ q) (store p [] t) t"
  using assms store_append [of p t q] store_append [of p "store p [] t" q] table_at_store [of p t "[]"]
  by (auto simp: same_at_def table_at_append store_store intro: exists_open)

text \<open>The tables that a header creates on its way from \<open>cur\<close>.\<close>

definition create_step :: "string list \<Rightarrow> string \<Rightarrow> table \<Rightarrow> table" where
  "create_step cur k tab =
     (if map_of (table_at cur tab) k = None then update_at cur (insert_value k (TTable [])) tab else tab)"

fun create :: "string list \<Rightarrow> string list \<Rightarrow> table \<Rightarrow> table" where
  "create cur [] tab = tab"
| "create cur (k # ks) tab = create (cur @ [k]) ks (create_step cur k tab)"

lemma create_append: "create cur (ps @ [k]) tab = create_step (cur @ ps) k (create cur ps tab)"
  by (induction ps arbitrary: cur tab) simp_all

lemma create_step:
  assumes "exists_path cur tab" and "open_path (cur @ [k]) tab"
  shows "exists_path (cur @ [k]) (create_step cur k tab)" "same_at (cur @ [k] @ q) (create_step cur k tab) tab"
proof -
  have "exists_path (cur @ [k]) (create_step cur k tab) \<and> (\<forall>q. same_at (cur @ [k] @ q) (create_step cur k tab) tab)"
  proof (cases "map_of (table_at cur tab) k")
    case None
    then have fresh: "table_at (cur @ [k]) tab = []" by (simp add: table_at_append)
    have e: "create_step cur k tab = store (cur @ [k]) [] tab"
      using None update_at_store [OF assms(1)] store_append [OF exists_open [OF assms(1)]]
      by (simp add: create_step_def)
    have "same_at (cur @ [k] @ q) (store (cur @ [k]) [] tab) tab" for q
      using same_at_create [OF assms(2) fresh, of q] by simp
    then show ?thesis unfolding e using table_at_store [OF assms(2)] by blast
  next
    case (Some v)
    then show ?thesis
      using assms by (cases v) (auto simp: create_step_def open_path_append exists_path_append)
  qed
  then show "exists_path (cur @ [k]) (create_step cur k tab)" "same_at (cur @ [k] @ q) (create_step cur k tab) tab"
    by blast+
qed

lemma header_part_step:
  assumes "open_path (cur @ [k]) tab" and "k \<noteq> []"
  shows "header_part n m1 m2 k (tab, cur, ins, full) =
    Inr (create_step cur k tab, cur @ [k], ins \<or> map_of (table_at cur tab) k = None, dotted full k)"
proof (cases "map_of (table_at cur tab) k")
  case None
  then show ?thesis using assms(2) by (simp add: header_part_def create_step_def Let_def)
next
  case (Some v)
  then show ?thesis
    using assms by (cases v) (simp_all add: header_part_def create_step_def open_path_append Let_def)
qed

section \<open>Keys and paths of keys\<close>

text \<open>The keys whose text is read back: not empty, and of characters that are escaped correctly.\<close>

definition key_ok :: "string \<Rightarrow> bool" where
  "key_ok k \<longleftrightarrow> k \<noteq> [] \<and> plain k"

lemma bare_char:
  "c \<in> set bare_chars \<Longrightarrow> \<not> is_ws c \<and> \<not> ends_bare_key c \<and> c \<notin> {CHR 0x22, CHR 0x27, CHR ''#'', CHR ''['', CHR '']''}
     \<and> c \<notin> {CHR 0x0A, CHR 0x0D, CHR ''='', CHR ''.''}"
  by (auto simp: bare_chars_def is_ws_def ends_bare_key_def)

lemma consume_backwards_blank:
  assumes "k \<noteq> []" and "\<not> is_ws (last k)"
  shows "consume_backwards_whitespace k = k" "consume_backwards_whitespace (k @ '' '') = k"
proof -
  show k: "consume_backwards_whitespace k = k"
    using assms by (simp add: consume_backwards_whitespace.simps [of k])
  have "is_ws CHR '' ''" by (simp add: is_ws_def)
  then show "consume_backwards_whitespace (k @ '' '') = k"
    using assms(1) k by (simp add: consume_backwards_whitespace.simps [of "k @ '' ''"])
qed

lemma parse_bare_key_text:
  assumes "k \<noteq> []" and "list_all (\<lambda>c. c \<in> set bare_chars) k"
  shows "parse_bare_key n k = Inr k" "parse_bare_key n (k @ '' '') = Inr k"
proof -
  have chars: "\<forall>c \<in> set k. \<not> is_ws c \<and> c \<notin> {CHR ''#'', CHR ''['', CHR '']''}"
    using assms(2) bare_char by (auto simp: list_all_iff)
  then have "\<not> is_ws (last k)" using assms(1) last_in_set by blast
  note trimmed = consume_backwards_blank [OF assms(1) this]
  show "parse_bare_key n k = Inr k" "parse_bare_key n (k @ '' '') = Inr k"
    using chars assms(1) trimmed by (auto simp: parse_bare_key_def Let_def list_ex_iff)
qed

text \<open>What the writer puts behind a key.\<close>

definition ends_key :: "string \<Rightarrow> bool" where
  "ends_key r \<longleftrightarrow> starts (\<lambda>c. c = CHR ''.'' \<or> c = CHR '']'') r \<or> take 3 r = '' = ''"

lemma parse_simple_key_text:
  assumes "key_ok k" and "ends_key r"
  shows "\<exists>r'. parse_simple_key n (key_text k @ r) = Inr (k, r') \<and> same_rest r' r"
proof (cases "list_all (\<lambda>c. c \<in> set bare_chars) k")
  case False
  then show ?thesis
    using assms(1) string_literal_quoted [of k n r]
    by (auto simp: key_text_def key_ok_def parse_simple_key_def consume_whitespace_def is_ws_def quoted_def
        same_rest_def dropWhile_idem)
next
  case True
  then have k: "k \<noteq> []" and chars: "\<forall>c \<in> set k. \<not> ends_bare_key c"
    and first: "\<not> is_ws (hd k)" "hd k \<noteq> CHR 0x22" "hd k \<noteq> CHR 0x27"
    using assms(1) bare_char [of "hd k"] bare_char by (auto simp: list_all_iff key_ok_def)
  have "consume_whitespace (k @ r) = k @ r"
    using k first by (cases k) (simp_all add: consume_whitespace_def)
  then have key: "parse_simple_key n (key_text k @ r) =
      bind_result (parse_bare_key n (takeWhile (\<lambda>c. \<not> ends_bare_key c) (k @ r)))
        (\<lambda>key. Inr (key, dropWhile (\<lambda>c. \<not> ends_bare_key c) (k @ r)))"
    using True k first by (simp add: parse_simple_key_def key_text_def Let_def)
  consider c x where "r = c # x" "ends_bare_key c" | x where "r = CHR '' '' # CHR ''='' # x"
    using assms(2) by (cases r rule: remdups_adj.cases)
      (auto simp: ends_key_def starts_def ends_bare_key_def take_Cons' split: if_splits)
  then show ?thesis
  proof cases
    case 1
    then show ?thesis
      unfolding key using chars parse_bare_key_text(1) [OF k True, of n] by simp
  next
    case 2
    have "\<not> ends_bare_key CHR '' ''" "ends_bare_key CHR ''=''" by (simp_all add: ends_bare_key_def)
    then show ?thesis
      unfolding key using chars parse_bare_key_text(2) [OF k True, of n] 2
      by (simp add: same_rest_def consume_whitespace_def is_ws_def)
  qed
qed

lemma key_text_first:
  assumes "key_ok k"
  shows "\<exists>c u. key_text k = c # u \<and> \<not> is_ws c \<and> c \<notin> {CHR ''#'', CHR ''['', CHR '']'', CHR ''='', CHR ''.''}"
proof (cases "list_all (\<lambda>c. c \<in> set bare_chars) k")
  case True
  then show ?thesis using assms bare_char [of "hd k"] by (cases k) (auto simp: key_text_def key_ok_def)
qed (auto simp: key_text_def quoted_def is_ws_def)

lemma key_text_no_newline:
  "key_ok k \<Longrightarrow> c \<in> set (key_text k) \<Longrightarrow> c \<noteq> CHR 0x0A \<and> c \<noteq> CHR 0x0D"
  using bare_char [of c] escaped_no_newline [of k c]
  by (auto simp: key_text_def quoted_def list_all_iff key_ok_def split: if_splits)

lemma path_text_Cons [simp]: "ks \<noteq> [] \<Longrightarrow> path_text (k # ks) = key_text k @ CHR ''.'' # path_text ks"
  by (cases ks) simp_all

lemma path_text_no_newline:
  "list_all key_ok ks \<Longrightarrow> c \<in> set (path_text ks) \<Longrightarrow> c \<noteq> CHR 0x0A \<and> c \<noteq> CHR 0x0D"
  by (induction ks rule: path_text.induct) (auto dest: key_text_no_newline)

text \<open>A whole key: the handler is called with all parts but the last one.\<close>

fun handle_parts :: "(string \<Rightarrow> 'st \<Rightarrow> 'st result) \<Rightarrow> string list \<Rightarrow> 'st \<Rightarrow> 'st result" where
  "handle_parts h [] st = Inr st"
| "handle_parts h (k # ks) st = bind_result (h k st) (handle_parts h ks)"

lemma parse_key_path:
  assumes "\<And>c. key_end c \<Longrightarrow> c = CHR '']'' \<or> c = CHR ''=''"
    and "ends_key r" and "starts key_end (consume_whitespace r)"
  shows "list_all key_ok (qs @ [k]) \<Longrightarrow> handle_parts h qs st = Inr st' \<Longrightarrow>
    parse_key n key_end h (path_text (qs @ [k]) @ r) st = Inr (k, consume_whitespace r, st')"
proof (induction qs arbitrary: st)
  case Nil
  then have k: "key_ok k" by simp
  obtain r' where "parse_simple_key n (key_text k @ r) = Inr (k, r')" "consume_whitespace r' = consume_whitespace r"
    using parse_simple_key_text [OF k assms(2), of n] by (auto simp: same_rest_def)
  moreover have "starts (\<lambda>c. \<not> key_end c) (key_text k @ r)"
    using key_text_first [OF k] assms(1) by (fastforce simp: starts_def)
  moreover have "\<not> starts (\<lambda>c. \<not> key_end c) (consume_whitespace r)"
    using assms(3) by (simp add: starts_def)
  ultimately show ?case
    using Nil by (subst parse_key.simps) simp
next
  case (Cons q qs)
  then have q: "key_ok q" by simp
  let ?rest = "path_text (qs @ [k]) @ r"
  obtain st1 where st1: "h q st = Inr st1" "handle_parts h qs st1 = Inr st'"
    using Cons.prems(2) by (auto simp: bind_result_Inr)
  have dot: "consume_whitespace (CHR ''.'' # ?rest) = CHR ''.'' # ?rest"
    by (simp add: consume_whitespace_def is_ws_def)
  obtain r' where r': "parse_simple_key n (key_text q @ CHR ''.'' # ?rest) = Inr (q, r')"
    "consume_whitespace r' = CHR ''.'' # ?rest"
    using parse_simple_key_text [OF q, of "CHR ''.'' # ?rest" n] dot
    by (auto simp: same_rest_def ends_key_def starts_def)
  have "starts (\<lambda>c. \<not> key_end c) (key_text q @ CHR ''.'' # ?rest)"
    using key_text_first [OF q] assms(1) by (fastforce simp: starts_def)
  moreover have "starts (\<lambda>c. \<not> key_end c) (CHR ''.'' # ?rest)"
    using assms(1) [of "CHR ''.''"] by (auto simp: starts_def)
  ultimately show ?case
    using Cons r' st1 by (subst parse_key.simps) simp
qed

lemma header_parts:
  "exists_path cur tab \<Longrightarrow> open_path (cur @ qs) tab \<Longrightarrow> list_all key_ok qs \<Longrightarrow>
   (\<exists>ins1 full1. handle_parts (header_part n m1 m2) qs (tab, cur, ins, full) = Inr (create cur qs tab, cur @ qs, ins1, full1))
     \<and> exists_path (cur @ qs) (create cur qs tab) \<and> (\<forall>p. same_at (cur @ qs @ p) (create cur qs tab) tab)"
proof (induction qs arbitrary: cur tab ins full)
  case (Cons k qs)
  then have k: "k \<noteq> []" and opened: "open_path (cur @ [k]) tab"
    using open_path_append [of "cur @ [k]" qs tab] by (auto simp: key_ok_def)
  let ?tab1 = "create_step cur k tab"
  note one = create_step [OF Cons.prems(1) opened]
  have "table_at (cur @ [k]) ?tab1 = table_at (cur @ [k]) tab"
    using one(2) [of "[]"] by (simp add: same_at_def)
  then have opened1: "open_path ((cur @ [k]) @ qs) ?tab1"
    using one(1) Cons.prems(2) open_path_append [of "cur @ [k]" qs] exists_open by fastforce
  have qs: "list_all key_ok qs" using Cons.prems(3) by simp
  note two = Cons.IH [OF one(1) opened1 qs]
  have "same_at (cur @ (k # qs) @ p) (create cur (k # qs) tab) tab" for p
    using two one(2) [of "qs @ p"] by (auto intro: same_at_trans)
  then show ?case using header_part_step [OF opened k] two by auto
qed simp

section \<open>Headers and entries\<close>

lemma open_path_fresh: "open_path p t \<Longrightarrow> map_of (table_at p t) k = None \<Longrightarrow> open_path (p @ [k]) t"
  by (simp add: open_path_append)

lemma exists_path_Nil [simp]: "exists_path [] t"
  by simp

lemma path_text_first:
  assumes "list_all key_ok (p @ [k])"
  shows "\<exists>c u. path_text (p @ [k]) = c # u \<and> \<not> is_ws c \<and> c \<notin> {CHR ''#'', CHR ''['', CHR '']'', CHR ''='', CHR ''.''}"
proof (cases p)
  case Nil
  then show ?thesis using key_text_first [of k] assms by simp
next
  case (Cons q qs)
  then show ?thesis using key_text_first [of q] assms by fastforce
qed

lemma parse_header_key:
  assumes "open_path p tab" and "list_all key_ok (p @ [k])"
  obtains ins1 full1 where
    "parse_key n closes (header_part n m1 m2) (path_text (p @ [k]) @ CHR '']'' # x) (tab, [], False, [])
      = Inr (k, CHR '']'' # x, create [] p tab, p, ins1, full1)"
proof -
  have p: "list_all key_ok p" using assms(2) by simp
  obtain ins1 full1 where
    parts: "handle_parts (header_part n m1 m2) p (tab, [], False, []) = Inr (create [] p tab, p, ins1, full1)"
    using header_parts [of "[]" tab p n m1 m2 False "[]"] assms(1) p by auto
  have solid: "consume_whitespace (CHR '']'' # x) = CHR '']'' # x"
    by (simp add: consume_whitespace_def is_ws_def)
  have "parse_key n closes (header_part n m1 m2) (path_text (p @ [k]) @ CHR '']'' # x) (tab, [], False, [])
      = Inr (k, consume_whitespace (CHR '']'' # x), create [] p tab, p, ins1, full1)"
    using solid by (intro parse_key_path [OF _ _ _ assms(2) parts]) (simp_all add: ends_key_def starts_def)
  then show thesis using that [of ins1 full1] solid by simp
qed

lemma created:
  assumes "open_path p tab" and "list_all key_ok p"
  shows "exists_path p (create [] p tab)" "same_at (p @ q) (create [] p tab) tab"
    "table_at p (create [] p tab) = table_at p tab" "store p s (create [] p tab) = store p s tab"
proof -
  have all: "exists_path p (create [] p tab)" "\<forall>q. same_at (p @ q) (create [] p tab) tab"
    using header_parts [of "[]" tab p] assms by auto
  then show "exists_path p (create [] p tab)" "same_at (p @ q) (create [] p tab) tab" by blast+
  show "table_at p (create [] p tab) = table_at p tab" "store p s (create [] p tab) = store p s tab"
    using all(2) [rule_format, of "[]"] by (simp_all add: same_at_def)
qed

lemma parse_single_table_text:
  assumes "open_path p tab" and "list_all key_ok (p @ [k])" and "map_of (table_at p tab) k = None"
  shows "parse_single_table P (path_text (p @ [k]) @ '']'') tab = Inr (create_step p k (create [] p tab), p @ [k])"
proof -
  let ?n = "line_number P" and ?m1 = "''Empty component of table name''" and ?m2 = "''already exists as a value''"
  have p: "list_all key_ok p" and k: "k \<noteq> []" using assms(2) by (simp_all add: key_ok_def)
  note c = created [OF assms(1) p]
  obtain ins1 full1 where key: "parse_key ?n closes (header_part ?n ?m1 ?m2) (path_text (p @ [k]) @ '']'')
      (tab, [], False, []) = Inr (k, '']'', create [] p tab, p, ins1, full1)"
    by (rule parse_header_key [OF assms(1,2)])
  have fresh: "map_of (table_at p (create [] p tab)) k = None" using assms(3) c(3) by simp
  note last = header_part_step [OF open_path_fresh [OF exists_open [OF c(1)] fresh] k]
  obtain d u where "path_text (p @ [k]) = d # u" "d \<noteq> CHR '']''"
    using path_text_first [OF assms(2)] by blast
  then have starts: "starts (\<lambda>c. \<not> closes c) (path_text (p @ [k]) @ '']'')" by (simp add: starts_def)
  show ?thesis
    unfolding parse_single_table_def Let_def
    using starts key last fresh by (simp add: consume_whitespace_def eol_or_comment_def)
qed

lemma parse_table_array_text:
  assumes "open_path p tab" and "list_all key_ok (p @ [k])"
    and "map_of (table_at p tab) k = (if ds = [] then None else Some (TTableArray False ds))"
  shows "parse_table_array P (path_text (p @ [k]) @ '']]'') tab
    = Inr (store p (insert_value k (TTableArray False (ds @ [[]])) (table_at p tab)) tab, p @ [k])"
proof -
  let ?n = "line_number P" and ?m1 = "''Empty component of table array name''"
    and ?m2 = "'' already exists as a value''"
  have p: "list_all key_ok p" using assms(2) by simp
  note c = created [OF assms(1) p]
  obtain ins1 full1 where key: "parse_key ?n closes (header_part ?n ?m1 ?m2) (path_text (p @ [k]) @ '']]'')
      (tab, [], False, []) = Inr (k, '']]'', create [] p tab, p, ins1, full1)"
    by (rule parse_header_key [OF assms(1,2), of ?n ?m1 ?m2 "CHR '']'' # []"])
  have "k \<noteq> []" using assms(2) by (simp add: key_ok_def)
  then have "array_part ?n k (create [] p tab, p, ins1, full1) =
      Inr (update_at p (insert_value k (TTableArray False (ds @ [[]]))) (create [] p tab), p @ [k], ins1, dotted full1 k)"
    using assms(3) c(3) by (cases "ds = []") (simp_all add: array_part_def Let_def)
  then have last: "array_part ?n k (create [] p tab, p, ins1, full1) =
      Inr (store p (insert_value k (TTableArray False (ds @ [[]])) (table_at p tab)) tab, p @ [k], ins1, dotted full1 k)"
    using update_at_store [OF c(1)] c(3,4) by simp
  obtain d u where "path_text (p @ [k]) = d # u" "d \<noteq> CHR '']''"
    using path_text_first [OF assms(2)] by blast
  then have starts: "starts (\<lambda>c. \<not> closes c) (path_text (p @ [k]) @ '']]'')" by (simp add: starts_def)
  have closing: "starts closes ('']]'')" by (simp add: starts_def)
  show ?thesis
    unfolding parse_table_array_def Let_def
    using starts closing key last by (simp add: eat_def starts_def consume_whitespace_def eol_or_comment_def)
qed

lemma parse_key_value_text:
  assumes "key_ok k" and "writable v" and "exists_path cur tab" and "map_of (table_at cur tab) k = None"
    and "\<not> stringify_values P" and "2 * length (inline_text v) + 4 \<le> f"
  shows "parse_key_value f P (key_text k @ '' = '' @ inline_text v) tab cur
    = Some (Inr (store cur (insert_value k v (table_at cur tab)) tab, [], P))"
proof -
  obtain g where f: "f = Suc g" and g: "2 * length (inline_text v) + 3 \<le> g" using assms(6) by (cases f) auto
  let ?h = "key_part (line_number P)" and ?r = "'' = '' @ inline_text v"
  have r: "consume_whitespace ?r = CHR ''='' # CHR '' '' # inline_text v"
    by (simp add: consume_whitespace_def is_ws_def)
  have key: "parse_key (line_number P) (\<lambda>c. c = CHR ''='') ?h (key_text k @ ?r) (tab, cur)
      = Inr (k, CHR ''='' # CHR '' '' # inline_text v, tab, cur)"
    using parse_key_path [of "\<lambda>c. c = CHR ''=''" ?r "[]" k ?h "(tab, cur)" "(tab, cur)"] assms(1) r
    by (simp add: ends_key_def starts_def)
  have reads: "reads_text (parse_value g) P v" using parse_text [OF assms(2,5)] g by blast
  obtain r' where r': "parse_value g P (inline_text v @ []) = Some (Inr (v, r', P))" "same_rest r' []"
    by (rule reads_textD [OF reads, of "[]"]) simp_all
  have rest: "consume_whitespace r' = []" using r'(2) by (simp add: same_rest_def consume_whitespace_def)
  have "consume_whitespace (CHR '' '' # inline_text v) = inline_text v"
    using solid_consume inline_text_solid(1) [OF assms(2), of "[]"] by (simp add: consume_whitespace_def is_ws_def)
  then show ?thesis
    using f key r'(1) rest assms(4) update_at_store [OF assms(3)]
    by (simp add: key_value_body_def contains_def starts_def)
qed

section \<open>Lines\<close>

definition no_newline :: "string \<Rightarrow> bool" where
  "no_newline s \<longleftrightarrow> CHR 0x0A \<notin> set s \<and> CHR 0x0D \<notin> set s"

lemma no_newline_simps [simp]:
  "no_newline []" "no_newline (c # s) \<longleftrightarrow> c \<noteq> CHR 0x0A \<and> c \<noteq> CHR 0x0D \<and> no_newline s"
  "no_newline (s @ t) \<longleftrightarrow> no_newline s \<and> no_newline t"
  by (auto simp: no_newline_def)

lemma take_line_no_newline: "no_newline s \<Longrightarrow> take_line (s @ CHR 0x0A # t) = (s, Some t)"
  by (induction s) auto

lemma consume_whitespace_Nil: "consume_whitespace [] = []"
  by (simp add: consume_whitespace_def)

lemma no_newline_commas: "\<forall>t \<in> set ts. no_newline t \<Longrightarrow> no_newline (commas ts)"
  by (induction ts rule: commas.induct) auto

lemma date_char_no_newline: "is_date_char c \<Longrightarrow> c \<noteq> CHR 0x0A \<and> c \<noteq> CHR 0x0D"
  by (auto simp: is_date_char_def is_number_def less_eq_char_def)

lemma no_newline_plain_text:
  assumes "writable v" and "\<not> is_array v"
  shows "no_newline (inline_text v)"
proof (cases "\<exists>s. v = TString s")
  case True
  then show ?thesis
    using assms(1) by (auto simp: quoted_def no_newline_def dest: escaped_no_newline)
next
  case False
  then have "(\<exists>b. v = TBool b) \<or> (\<forall>c \<in> set (inline_text v). is_date_char c)"
    using value_text_chars [OF assms] by blast
  then show ?thesis
  proof (elim disjE exE)
    assume "\<forall>c \<in> set (inline_text v). is_date_char c"
    then show ?thesis using date_char_no_newline by (auto simp: no_newline_def)
  qed simp
qed

lemma no_newline_inline_text: "writable v \<Longrightarrow> no_newline (inline_text v)"
proof (induction v)
  case (TArray xs)
  then show ?case by (auto simp: list_all_iff intro!: no_newline_commas)
qed (erule no_newline_plain_text, simp (no_asm))+

text \<open>\<open>runs s st st'\<close>: the parser reads the lines of \<open>s\<close> in the state \<open>st\<close> and is then in \<open>st'\<close>.\<close>

type_synonym file_state = "table \<times> string list"

definition reading :: "parser \<Rightarrow> string \<Rightarrow> bool" where
  "reading P s \<longleftrightarrow> input P = stream_of s \<and> \<not> stringify_values P"

definition runs :: "string \<Rightarrow> file_state \<Rightarrow> file_state \<Rightarrow> bool" where
  "runs s st st' \<longleftrightarrow>
     (\<forall>P f rest. reading P (s @ rest) \<longrightarrow> 2 * length (s @ rest) + 8 \<le> f \<longrightarrow>
        (\<exists>P' f'. reading P' rest \<and> 2 * length rest + 8 \<le> f' \<and>
           parse_lines f P (fst st) (snd st) = parse_lines f' P' (fst st') (snd st')))"

lemma runs_Nil [simp]: "runs [] st st"
  by (auto simp: runs_def)

lemma runs_trans:
  assumes "runs s st st'" and "runs t st' st''"
  shows "runs (s @ t) st st''"
  unfolding runs_def
proof (intro allI impI)
  fix P f rest
  assume "reading P ((s @ t) @ rest)" and "2 * length ((s @ t) @ rest) + 8 \<le> f"
  then obtain P' f' where one: "reading P' (t @ rest)" "2 * length (t @ rest) + 8 \<le> f'"
    "parse_lines f P (fst st) (snd st) = parse_lines f' P' (fst st') (snd st')"
    using assms(1) [unfolded runs_def, rule_format, of P "t @ rest" f] by auto
  then show "\<exists>P' f'. reading P' rest \<and> 2 * length rest + 8 \<le> f' \<and>
           parse_lines f P (fst st) (snd st) = parse_lines f' P' (fst st'') (snd st'')"
    using assms(2) [unfolded runs_def, rule_format, of P' rest f'] by auto
qed

lemma runs_line:
  assumes "no_newline l"
    and "\<And>f P rest. reading P rest \<Longrightarrow> 2 * length l + 8 \<le> f \<Longrightarrow>
      (let s = consume_whitespace l in
       if s = [] \<or> hd s = CHR ''#'' then parse_lines f P tab cur
       else if hd s = CHR ''['' then
         bind_fuel (Some (parse_table P s tab)) (\<lambda>(tab', cur'). parse_lines f P tab' cur')
       else
         bind_fuel (parse_key_value f P s tab cur) (\<lambda>(tab', s1, P2).
           bind_fuel (Some (eol_or_comment (line_number P2) (consume_whitespace s1)))
             (\<lambda>_. parse_lines f P2 tab' cur))) = parse_lines f P tab' cur'"
  shows "runs (l @ [CHR 0x0A]) (tab, cur) (tab', cur')"
  unfolding runs_def
proof (intro allI impI)
  fix P f rest
  assume P: "reading P ((l @ [CHR 0x0A]) @ rest)" and fuel: "2 * length ((l @ [CHR 0x0A]) @ rest) + 8 \<le> f"
  obtain g where f: "f = Suc g" using fuel by (cases f) auto
  let ?P1 = "next_line (stream_of rest) P"
  have line: "getline (input P) = Some (l, stream_of rest)"
    using P take_line_no_newline [OF assms(1), of rest] by (simp add: reading_def getline_def stream_of_def)
  have P1: "reading ?P1 rest" using P by (simp add: reading_def next_line_def)
  have "parse_lines f P tab cur = parse_lines g ?P1 tab' cur'"
    using assms(2) [OF P1, of g] fuel f line by (simp add: Let_def)
  then show "\<exists>P' f'. reading P' rest \<and> 2 * length rest + 8 \<le> f' \<and>
      parse_lines f P (fst (tab, cur)) (snd (tab, cur)) = parse_lines f' P' (fst (tab', cur')) (snd (tab', cur'))"
    using P1 fuel f by (intro exI [of _ ?P1] exI [of _ g]) simp
qed

definition tabs :: "nat \<Rightarrow> string" where
  "tabs n = replicate n (CHR 0x09)"

lemma tabs_simps [simp]: "no_newline (tabs n)" "consume_whitespace (tabs n @ s) = consume_whitespace s"
  by (induction n) (simp_all add: tabs_def no_newline_def consume_whitespace_def is_ws_def)

lemma runs_blank: "runs (tabs n @ [CHR 0x0A]) (tab, cur) (tab, cur)"
  by (rule runs_line) (use tabs_simps(2) [of n "[]"] in \<open>simp_all add: consume_whitespace_def\<close>)

lemma runs_newline [simp]: "runs [CHR 0x0A] st st"
  using runs_blank [of 0] by (cases st) (simp add: tabs_def)

lemma runs_header:
  assumes "no_newline s" and "\<And>P. parse_table P (CHR ''['' # s) tab = Inr (tab', cur')"
  shows "runs (CHR ''['' # s @ [CHR 0x0A]) (tab, cur) (tab', cur')"
proof -
  have "consume_whitespace (CHR ''['' # s) = CHR ''['' # s" by (simp add: consume_whitespace_def is_ws_def)
  then show ?thesis
    using assms runs_line [of "CHR ''['' # s" tab cur tab' cur'] by simp
qed

lemma no_newline_path: "list_all key_ok ks \<Longrightarrow> no_newline (path_text ks)"
  using path_text_no_newline by (auto simp: no_newline_def)

lemma runs_table_header:
  assumes "open_path p tab" and "list_all key_ok (p @ [k])" and "map_of (table_at p tab) k = None"
  shows "runs (''['' @ path_text (p @ [k]) @ '']'' @ [CHR 0x0A]) (tab, cur) (create [] (p @ [k]) tab, p @ [k])"
proof -
  obtain c u where c: "path_text (p @ [k]) = c # u" "c \<noteq> CHR ''[''"
    using path_text_first [OF assms(2)] by blast
  have "runs (CHR ''['' # (path_text (p @ [k]) @ '']'') @ [CHR 0x0A]) (tab, cur) (create [] (p @ [k]) tab, p @ [k])"
    using parse_single_table_text [OF assms] c no_newline_path [OF assms(2)] create_append [of "[]" p k]
    by (intro runs_header) (simp_all add: parse_table_def)
  then show ?thesis by simp
qed

lemma runs_array_header:
  assumes "open_path p tab" and "list_all key_ok (p @ [k])"
    and "map_of (table_at p tab) k = (if ds = [] then None else Some (TTableArray False ds))"
  shows "runs (''[['' @ path_text (p @ [k]) @ '']]'' @ [CHR 0x0A]) (tab, cur)
    (store p (insert_value k (TTableArray False (ds @ [[]])) (table_at p tab)) tab, p @ [k])"
proof -
  have "runs (CHR ''['' # (CHR ''['' # path_text (p @ [k]) @ '']]'') @ [CHR 0x0A]) (tab, cur)
    (store p (insert_value k (TTableArray False (ds @ [[]])) (table_at p tab)) tab, p @ [k])"
    using parse_table_array_text [OF assms] no_newline_path [OF assms(2)]
    by (intro runs_header) (simp_all add: parse_table_def)
  then show ?thesis by simp
qed

lemma runs_entry:
  assumes "key_ok k" and "writable v" and "exists_path cur tab" and "map_of (table_at cur tab) k = None"
  shows "runs (tabs n @ key_text k @ '' = '' @ inline_text v @ [CHR 0x0A]) (tab, cur)
    (store cur (insert_value k v (table_at cur tab)) tab, cur)"
proof -
  let ?l = "tabs n @ key_text k @ '' = '' @ inline_text v"
  obtain c u where c: "key_text k = c # u" "\<not> is_ws c" "c \<noteq> CHR ''#''" "c \<noteq> CHR ''[''"
    using key_text_first [OF assms(1)] by blast
  then have "consume_whitespace (key_text k @ '' = '' @ inline_text v) = key_text k @ '' = '' @ inline_text v"
    by (simp add: consume_whitespace_def)
  then have s: "consume_whitespace ?l = key_text k @ '' = '' @ inline_text v" by simp
  have "no_newline ?l"
    using no_newline_inline_text [OF assms(2)] no_newline_path [of "[k]"] assms(1) by simp
  then have "runs (?l @ [CHR 0x0A]) (tab, cur) (store cur (insert_value k v (table_at cur tab)) tab, cur)"
  proof (rule runs_line)
    fix f P rest
    assume P: "reading P rest" and f: "2 * length ?l + 8 \<le> f"
    have "parse_key_value f P (consume_whitespace ?l) tab cur
        = Some (Inr (store cur (insert_value k v (table_at cur tab)) tab, [], P))"
      unfolding s using P f by (intro parse_key_value_text [OF assms]) (simp_all add: reading_def)
    moreover have "consume_whitespace ?l \<noteq> []" "hd (consume_whitespace ?l) = c" unfolding s by (simp_all add: c(1))
    ultimately show "(let s = consume_whitespace ?l in
       if s = [] \<or> hd s = CHR ''#'' then parse_lines f P tab cur
       else if hd s = CHR ''['' then
         bind_fuel (Some (parse_table P s tab)) (\<lambda>(tab', cur'). parse_lines f P tab' cur')
       else
         bind_fuel (parse_key_value f P s tab cur) (\<lambda>(tab', s1, P2).
           bind_fuel (Some (eol_or_comment (line_number P2) (consume_whitespace s1)))
             (\<lambda>_. parse_lines f P2 tab' cur)))
        = parse_lines f P (store cur (insert_value k v (table_at cur tab)) tab) cur"
      using c(3,4) consume_whitespace_Nil by (simp add: Let_def eol_or_comment_def)
  qed
  then show ?thesis by simp
qed

end
