(* ===== verification/Toml_Roundtrip.thy ===== *)
theory Toml_Roundtrip
  imports Toml_Document
begin

text \<open>
  Whole documents: a tree that the writer writes out is the tree that the parser reads.

  The writer appends whole lines (\<open>put_lines\<close>) for the entries and sections of a table; the parser
  runs through these lines (\<open>runs\<close>) and stores the table at its path.
\<close>

section \<open>What the writer writes\<close>

lemma write_text_append [simp]: "write_text t (write_text s w) = write_text (s @ t) w"
  by (simp add: write_text_def)

lemma for_each_commas:
  assumes "\<And>i x w. x \<in> set xs \<Longrightarrow> f i x w = write_text (g x) (if i > 0 then write_text '', '' w else w)"
  shows "for_each f i xs w = write_text ((if i > 0 \<and> xs \<noteq> [] then '', '' else []) @ commas (map g xs)) w
    \<or> xs = [] \<and> for_each f i xs w = w"
  using assms
proof (induction xs arbitrary: i w)
  case (Cons x xs)
  have "commas (g x # map g xs) = g x @ (if xs = [] then [] else '', '' @ commas (map g xs))"
    by (cases xs) simp_all
  moreover have "f i x w = write_text ((if i > 0 then '', '' else []) @ g x) w"
    using Cons.prems [of x i w] by (simp split: if_splits)
  ultimately show ?case
    using Cons.IH [of "i + 1" "f i x w"] Cons.prems by (cases "xs = []") (simp_all del: commas.simps)
qed simp

lemma accept_writable: "writable v \<Longrightarrow> accept docs pl b v w = write_text (inline_text v) w"
proof (induction v arbitrary: pl b w rule: inline_text.induct)
  case (1 xs)
  let ?f = "\<lambda>i x w. accept docs (pl @ [Inr i]) True x (if i > 0 then write_text '', '' w else w)"
  have each: "?f i x u = write_text (inline_text x) (if i > 0 then write_text '', '' u else u)" if "x \<in> set xs" for i x u
    using 1 that by (simp add: list_all_iff)
  have "for_each ?f 0 xs (write_text ''['' w) = write_text (commas (map inline_text xs)) (write_text ''['' w)
      \<or> xs = [] \<and> for_each ?f 0 xs (write_text ''['' w) = write_text ''['' w"
    using for_each_commas [of xs ?f inline_text 0 "write_text ''['' w", OF each] by simp
  then show ?case by (elim disjE conjE) (simp_all add: accept.simps)
qed (simp_all add: accept.simps)

text \<open>Whole lines: \<open>put_lines T w\<close> is the writer behind \<open>T\<close>, which ends with the end of a line.\<close>

definition put_lines :: "string \<Rightarrow> toml_writer \<Rightarrow> toml_writer" where
  "put_lines T w = w\<lparr>out := out w @ T, has_naked_endline := True\<rparr>"

definition writes_with :: "string \<Rightarrow> toml_writer \<Rightarrow> bool" where
  "writes_with ind w \<longleftrightarrow> indent_text w = ind \<and> skip_empty_tables w"

abbreviation settled :: "toml_writer \<Rightarrow> bool" where
  "settled \<equiv> writes_with [CHR 0x09]"

lemma put_lines_simps [simp]:
  "put_lines T (put_lines S w) = put_lines (S @ T) w" "endline (put_lines T w) = put_lines T w"
  "endline (write_text L w) = put_lines (L @ [CHR 0x0A]) w" "put_lines T (endline w) = put_lines ((if has_naked_endline w then [] else [CHR 0x0A]) @ T) w"
  "endline (endline w) = endline w"
  "key_path (put_lines T w) = key_path w" "writes_with ind (put_lines T w) = writes_with ind w"
  "key_path (endline w) = key_path w" "writes_with ind (endline w) = writes_with ind w"
  "key_path (write_text L w) = key_path w" "writes_with ind (write_text L w) = writes_with ind w"
  "key_path (push_key k w) = key_path w @ [k]" "writes_with ind (push_key k w) = writes_with ind w"
  "endline (push_key k w) = push_key k (endline w)"
  "pop_key (write_text L (push_key k w)) = write_text L w" "pop_key (put_lines L (push_key k w)) = put_lines L w"
  by (simp_all add: put_lines_def endline_def write_text_def push_key_def pop_key_def writes_with_def)

lemma put_lines_Nil: "endline w = put_lines (if has_naked_endline w then [] else [CHR 0x0A]) w"
  by (cases w) (simp add: put_lines_def endline_def)

lemma write_indent:
  assumes "settled w"
  shows "write_text s (indent w) = write_text (tabs (length (key_path w) - 1) @ s) w"
proof -
  have "write_text s ((write_text [CHR 0x09] ^^ n) w) = write_text (tabs n @ s) w" for n
    by (induction n arbitrary: s) (simp_all add: tabs_def replicate_append_same [symmetric] flip: append_Cons)
  then show ?thesis using assms by (simp add: indent_def writes_with_def)
qed

lemma write_doc_none [simp]: "write_doc no_docs pl k w = w"
  by (simp add: write_doc_def has_doc_def no_docs_def)

definition entry_line :: "nat \<Rightarrow> string \<times> toml \<Rightarrow> string" where
  "entry_line n = (\<lambda>(k, v). tabs n @ key_text k @ '' = '' @ inline_text v @ [CHR 0x0A])"

text \<open>The two loops over the entries of a table.\<close>

definition value_step :: "docs \<Rightarrow> place \<Rightarrow> nat \<Rightarrow> string \<times> toml \<Rightarrow> toml_writer \<Rightarrow> toml_writer" where
  "value_step docs pl = (\<lambda>i (k, v) w.
     let wa = push_key k w;
         wb = (if i > 0 then endline wa else wa);
         wc = write_table_item_header v (write_doc docs pl k wb)
     in pop_key (accept docs (pl @ [Inl k]) False v wc))"

definition section_step :: "docs \<Rightarrow> place \<Rightarrow> bool \<Rightarrow> nat \<Rightarrow> string \<times> toml \<Rightarrow> toml_writer \<Rightarrow> toml_writer" where
  "section_step docs pl some = (\<lambda>i (k, v) w.
     let wa = push_key k w;
         wb = (if some \<or> i > 0 then endline wa else wa);
         wc = write_table_item_header v wb
     in pop_key (accept docs (pl @ [Inl k]) False v wc))"

definition values_of :: "table \<Rightarrow> table" where
  "values_of t = filter (\<lambda>(k, v). \<not> is_section v) t"

definition sections_of :: "table \<Rightarrow> table" where
  "sections_of t = filter (\<lambda>(k, v). is_section v) t"

definition write_entries :: "docs \<Rightarrow> place \<Rightarrow> table \<Rightarrow> toml_writer \<Rightarrow> toml_writer" where
  "write_entries docs pl t w =
     endline (for_each (section_step docs pl (values_of t \<noteq> [])) 0 (sections_of t)
       (for_each (value_step docs pl) 0 (values_of t) w))"

lemma accept_table:
  "accept docs pl b (TTable t) w =
     write_entries docs pl t (if skip_empty_tables w \<and> list_all (\<lambda>(k, v). is_table v) t then w
       else write_table_header b w)"
  by (simp add: accept.simps write_entries_def value_step_def section_step_def values_of_def sections_of_def
      Let_def case_prod_unfold)

lemma value_step:
  assumes "settled w" and "writable v" and "\<not> is_section v"
  shows "value_step no_docs pl i (k, v) w =
    write_text (tabs (length (key_path w)) @ key_text k @ '' = '' @ inline_text v) (if i > 0 then endline w else w)"
proof -
  have "write_table_item_header v (push_key k u) = write_text (tabs (length (key_path w)) @ key_text k @ '' = '') (push_key k u)"
    if "settled u" and "key_path u = key_path w" for u
    using assms(3) that by (simp add: write_table_item_header_def write_indent)
  then show ?thesis
    using assms(1) accept_writable [OF assms(2)] by (simp add: value_step_def Let_def)
qed

text \<open>A loop whose steps end the line in front of them, and the end of the line behind it.\<close>

lemma lines_steps:
  assumes "\<And>i e w. e \<in> set es \<Longrightarrow> writes_with ind w \<Longrightarrow> key_path w = q \<Longrightarrow>
      f i e w = write_text (g e) (if i > 0 then endline w else w)"
    and "i > 0"
  shows "writes_with ind w \<Longrightarrow> key_path w = q \<Longrightarrow>
    endline (for_each f i es w) = put_lines (concat (map (\<lambda>e. g e @ [CHR 0x0A]) es)) (endline w)"
  using assms
proof (induction es arbitrary: i w)
  case Nil
  then show ?case by (simp add: put_lines_Nil [of w])
next
  case (Cons e es)
  have "f i e w = write_text (g e) (endline w)"
    using Cons.prems(3) [of e w i] Cons.prems(1,2,4) by simp
  moreover have "endline (for_each f (i + 1) es (write_text (g e) (endline w)))
      = put_lines (concat (map (\<lambda>e. g e @ [CHR 0x0A]) es)) (endline (write_text (g e) (endline w)))"
    using Cons.prems by (intro Cons.IH) simp_all
  ultimately show ?case by simp
qed

lemma lines_written:
  assumes "\<And>i e w. e \<in> set es \<Longrightarrow> writes_with ind w \<Longrightarrow> key_path w = q \<Longrightarrow>
      f i e w = write_text (g e) (if i > 0 then endline w else w)"
    and "es \<noteq> []" and "writes_with ind w" and "key_path w = q"
  shows "endline (for_each f 0 es w) = put_lines (concat (map (\<lambda>e. g e @ [CHR 0x0A]) es)) w"
proof -
  obtain e fs where es: "es = e # fs" using assms(2) by (cases es) auto
  have "f 0 e w = write_text (g e) w" using assms(1) [of e w 0] assms(3,4) es by simp
  moreover have "endline (for_each f 1 fs (write_text (g e) w))
      = put_lines (concat (map (\<lambda>e. g e @ [CHR 0x0A]) fs)) (endline (write_text (g e) w))"
    using assms es by (intro lines_steps [where ind = ind and q = q]) simp_all
  ultimately show ?thesis by (simp add: es)
qed

lemma values_written:
  assumes "settled w" and "\<forall>(k, v) \<in> set es. writable v \<and> \<not> is_section v" and "es \<noteq> []"
  shows "endline (for_each (value_step no_docs pl) 0 es w) = put_lines (concat (map (entry_line (length (key_path w))) es)) w"
proof -
  let ?g = "\<lambda>(k, v). tabs (length (key_path w)) @ key_text k @ '' = '' @ inline_text v"
  have "value_step no_docs pl i e u = write_text (?g e) (if i > 0 then endline u else u)"
    if "e \<in> set es" "settled u" "key_path u = key_path w" for i e u
    using value_step [of u "snd e" pl i "fst e"] assms(2) that by (cases e) auto
  then have "endline (for_each (value_step no_docs pl) 0 es w) = put_lines (concat (map (\<lambda>e. ?g e @ [CHR 0x0A]) es)) w"
    using assms(1,3) by (intro lines_written [where ind = "[CHR 0x09]" and q = "key_path w"]) simp_all
  moreover have "(\<lambda>e. ?g e @ [CHR 0x0A]) = entry_line (length (key_path w))"
    by (simp add: entry_line_def fun_eq_iff)
  ultimately show ?thesis by simp
qed

lemma write_header:
  assumes "settled w" and "key_path w = p @ [k]"
  shows "write_table_header b w = put_lines ((tabs (length p) @ [CHR 0x0A]) @ (if b then ''[['' else ''['') @ path_text (p @ [k])
    @ (if b then '']]'' else '']'') @ [CHR 0x0A]) w"
  using assms by (simp add: write_table_header_def write_indent)

section \<open>Documents that are read back\<close>

text \<open>
  A table that has only tables as entries gets no header: an empty table is not written, and an
  element of an array of tables needs an entry that is no table.
\<close>

fun sections_ok :: "toml \<Rightarrow> bool" where
  "sections_ok (TTable t) \<longleftrightarrow>
     keys_sorted t \<and> list_all (\<lambda>(k, v). key_ok k \<and> v \<noteq> TTable [] \<and> sections_ok v) t"
| "sections_ok (TTableArray inl ts) \<longleftrightarrow>
     \<not> inl \<and> ts \<noteq> [] \<and>
     list_all (\<lambda>t. \<not> list_all (\<lambda>(k, v). is_table v) t \<and>
       keys_sorted t \<and> list_all (\<lambda>(k, v). key_ok k \<and> v \<noteq> TTable [] \<and> sections_ok v) t) ts"
| "sections_ok v \<longleftrightarrow> writable v"

definition document_ok :: "table \<Rightarrow> bool" where
  "document_ok t \<longleftrightarrow> sections_ok (TTable t)"

text \<open>The tables while the entries \<open>s\<close> of the table at \<open>q\<close> have been read.\<close>

definition stage :: "string list \<Rightarrow> table \<Rightarrow> table \<Rightarrow> table \<Rightarrow> bool" where
  "stage q tab0 s tab \<longleftrightarrow>
     open_path q tab0 \<and> table_at q tab0 = [] \<and> tab = (if s = [] then tab0 else store q s tab0)"

lemma insert_value_not_Nil [simp]: "insert_value k v t \<noteq> []"
  by (induction k v t rule: insert_value.induct) auto

lemma stageD:
  assumes "stage q tab0 s tab"
  shows "open_path q tab" "table_at q tab = s" "store q x tab = store q x tab0"
    "s \<noteq> [] \<Longrightarrow> exists_path q tab"
  using assms table_at_store [of q tab0 s] exists_open [of q "store q s tab0"]
  by (auto simp: stage_def store_store split: if_splits)

lemma stage_insert: "stage q tab0 s tab \<Longrightarrow> stage q tab0 (insert_value k v s) (store q (insert_value k v s) tab)"
  using stageD(3) by (auto simp: stage_def)

abbreviation insert_all :: "table \<Rightarrow> table \<Rightarrow> table" where
  "insert_all es s \<equiv> fold (\<lambda>(k, v). insert_value k v) es s"

abbreviation fresh_keys :: "table \<Rightarrow> table \<Rightarrow> bool" where
  "fresh_keys es s \<equiv> distinct (map fst es) \<and> (\<forall>k \<in> fst ` set es. map_of s k = None)"

lemma fresh_keys_Cons:
  assumes "fresh_keys ((k, v) # es) s"
  shows "map_of s k = None" "fresh_keys es (insert_value k v s)"
  using assms by force+

lemma runs_values:
  "stage q tab0 s tab \<Longrightarrow> exists_path q tab \<Longrightarrow> fresh_keys es s \<Longrightarrow>
   \<forall>(k, v) \<in> set es. key_ok k \<and> writable v \<Longrightarrow>
   \<exists>tab'. runs (concat (map (entry_line n) es)) (tab, q) (tab', q) \<and> stage q tab0 (insert_all es s) tab'"
proof (induction es arbitrary: s tab)
  case Nil
  then show ?case by (intro exI [of _ tab]) simp
next
  case (Cons e es)
  obtain k v where e: "e = (k, v)" by (cases e)
  note keys = fresh_keys_Cons [OF Cons.prems(3) [unfolded e]]
  note at = stageD [OF Cons.prems(1)]
  let ?tab = "store q (insert_value k v s) tab"
  have line: "runs (entry_line n (k, v)) (tab, q) (?tab, q)"
    using runs_entry [of k v q tab n] Cons.prems(2,4) keys(1) at(2) e by (auto simp: entry_line_def)
  note next_stage = stage_insert [OF Cons.prems(1), of k v]
  have "exists_path q ?tab" using stageD(4) [OF next_stage] by simp
  then obtain tab' where "runs (concat (map (entry_line n) es)) (?tab, q) (tab', q)"
    "stage q tab0 (insert_all es (insert_value k v s)) tab'"
    using Cons.IH [OF next_stage _ keys(2)] Cons.prems(4) by auto
  then show ?case using runs_trans [OF line] e by auto
qed

text \<open>What is shown of each section.\<close>

definition section_written :: "toml \<Rightarrow> bool" where
  "section_written v \<longleftrightarrow>
     (\<forall>pl w p k tab cur. settled w \<and> key_path w = p @ [k] \<and> list_all key_ok (p @ [k]) \<and> open_path p tab
        \<and> map_of (table_at p tab) k = None \<longrightarrow>
      (\<exists>T cur'. accept no_docs pl False v w = put_lines T w \<and>
         runs T (tab, cur) (store p (insert_value k v (table_at p tab)) tab, cur')))"

lemma section_step:
  assumes "section_written v" and "is_section v" and "key_ok k" and "list_all key_ok q"
    and "settled w" and "key_path w = q" and "stage q tab0 s tab" and "map_of s k = None"
  obtains T cur' where "section_step no_docs pl some i (k, v) w = put_lines T (if some \<or> i > 0 then endline w else w)"
    "runs T (tab, cur) (store q (insert_value k v s) tab, cur')"
proof -
  let ?w = "if some \<or> i > 0 then endline w else w"
  have w: "settled (push_key k ?w)" "key_path (push_key k ?w) = q @ [k]" using assms(5,6) by auto
  note at = stageD [OF assms(7)]
  obtain T cur' where T: "accept no_docs (pl @ [Inl k]) False v (push_key k ?w) = put_lines T (push_key k ?w)"
    "runs T (tab, cur) (store q (insert_value k v s) tab, cur')"
    using assms(1) [unfolded section_written_def, rule_format, of "push_key k ?w" q k tab "pl @ [Inl k]" cur]
      w assms(3,4,8) at by auto
  have "section_step no_docs pl some i (k, v) w = put_lines T ?w"
    using T(1) assms(2) by (auto simp: section_step_def write_table_item_header_def Let_def)
  then show thesis using that T(2) by blast
qed

lemma sections_written:
  assumes "list_all key_ok q" and "some \<or> i > 0"
  shows "\<forall>(k, v) \<in> set es. key_ok k \<and> is_section v \<and> section_written v \<Longrightarrow> settled w \<Longrightarrow> key_path w = q \<Longrightarrow>
    stage q tab0 s tab \<Longrightarrow> fresh_keys es s \<Longrightarrow>
    \<exists>T tab' cur'. endline (for_each (section_step no_docs pl some) i es w) = put_lines T (endline w) \<and>
      runs T (tab, cur) (tab', cur') \<and> stage q tab0 (insert_all es s) tab'"
  using assms(2)
proof (induction es arbitrary: i w s tab cur)
  case Nil
  then show ?case
    by (intro exI [of _ "[]"] exI [of _ tab] exI [of _ cur]) (simp add: put_lines_Nil [of w])
next
  case (Cons e es)
  obtain k v where e: "e = (k, v)" by (cases e)
  note keys = fresh_keys_Cons [OF Cons.prems(5) [unfolded e]]
  have v: "section_written v" "is_section v" "key_ok k" using Cons.prems(1) e by auto
  obtain T1 cur1 where one: "section_step no_docs pl some i (k, v) w = put_lines T1 (if some \<or> i > 0 then endline w else w)"
    "runs T1 (tab, cur) (store q (insert_value k v s) tab, cur1)"
    using section_step [OF v assms(1) Cons.prems(2,3,4) keys(1)] by blast
  let ?w = "put_lines T1 (endline w)"
  have w: "section_step no_docs pl some i e w = ?w" "settled ?w" "key_path ?w = q"
    using one(1) Cons.prems(2,3,6) e by auto
  obtain T2 tab' cur' where two: "endline (for_each (section_step no_docs pl some) (i + 1) es ?w) = put_lines T2 (endline ?w)"
    "runs T2 (store q (insert_value k v s) tab, cur1) (tab', cur')"
    "stage q tab0 (insert_all es (insert_value k v s)) tab'"
    using Cons.IH [of ?w "insert_value k v s" "store q (insert_value k v s) tab" "i + 1" cur1]
      Cons.prems(1) w(2,3) stage_insert [OF Cons.prems(4)] keys(2) by auto
  have "endline (for_each (section_step no_docs pl some) i (e # es) w) = put_lines (T1 @ T2) (endline w)"
    using two(1) w(1) by simp
  then show ?case using runs_trans [OF one(2) two(2)] two(3) e by auto
qed

lemma insert_all_parts:
  assumes "keys_sorted t"
  shows "insert_all (sections_of t) (insert_all (values_of t) []) = t"
proof (rule keys_sorted_ext [OF _ assms])
  note d = keys_sorted_distinct [OF assms]
  have parts: "distinct (map fst (filter P t))" for P
    using d by (rule distinct_map_filter)
  show "keys_sorted (insert_all (sections_of t) (insert_all (values_of t) []))"
    by (intro std_map.ok_fold) simp
  have "map_of (filter P t) k = (case map_of t k of Some v \<Rightarrow> if P (k, v) then Some v else None | None \<Rightarrow> None)"
    for P :: "string \<times> toml \<Rightarrow> bool" and k
    using d by (induction t) (auto split: option.splits simp: map_of_eq_None_iff image_iff)
  then show "map_of (insert_all (sections_of t) (insert_all (values_of t) [])) = map_of t"
    using parts by (auto simp: std_map.lookup_fold sections_of_def values_of_def map_add_def fun_eq_iff split: option.splits)
qed

lemma fresh_parts:
  assumes "keys_sorted t"
  shows "fresh_keys (values_of t) []" "fresh_keys (sections_of t) (insert_all (values_of t) [])"
proof -
  note d = keys_sorted_distinct [OF assms]
  have parts: "distinct (map fst (filter P t))" for P
    using d by (rule distinct_map_filter)
  then show "fresh_keys (values_of t) []" by (simp add: values_of_def)
  have "map_of (values_of t) k = None" if "(k, v) \<in> set (sections_of t)" for k v
    using that eq_key_imp_eq_value [OF d] unfolding map_of_eq_None_iff values_of_def sections_of_def
    by fastforce
  then show "fresh_keys (sections_of t) (insert_all (values_of t) [])"
    using parts by (force simp: std_map.lookup_fold sections_of_def values_of_def)
qed

lemma entries_written:
  assumes "sections_ok (TTable t)" and "\<forall>(k, v) \<in> set t. is_section v \<longrightarrow> section_written v"
    and "settled w" and "key_path w = q" and "list_all key_ok q" and "open_path q tab" and "table_at q tab = []"
    and "values_of t \<noteq> [] \<Longrightarrow> cur = q \<and> exists_path q tab" and "t \<noteq> [] \<or> q = []"
  shows "\<exists>T cur'. write_entries no_docs pl t w = put_lines T w \<and> runs T (tab, cur) (store q t tab, cur')"
proof -
  have sorted: "keys_sorted t" and keys: "\<forall>(k, v) \<in> set t. key_ok k \<and> v \<noteq> TTable [] \<and> sections_ok v"
    using assms(1) by (auto simp: list_all_iff)
  have vs: "\<forall>(k, v) \<in> set (values_of t). key_ok k \<and> writable v \<and> \<not> is_section v"
  proof -
    have "writable v" if "sections_ok v" "\<not> is_section v" for v using that by (cases v) auto
    then show ?thesis using keys by (auto simp: values_of_def)
  qed
  have ss: "\<forall>(k, v) \<in> set (sections_of t). key_ok k \<and> is_section v \<and> section_written v"
    using keys assms(2) by (auto simp: sections_of_def)
  have stage0: "stage q tab [] tab" using assms(6,7) by (simp add: stage_def)
  have final: "tab' = store q t tab" if "stage q tab (insert_all (sections_of t) (insert_all (values_of t) [])) tab'" "t \<noteq> []" for tab'
    using that unfolding insert_all_parts [OF sorted] by (simp add: stage_def)
  let ?some = "values_of t \<noteq> []"
  show ?thesis
  proof (cases ?some)
    case True
    let ?L = "concat (map (entry_line (length q)) (values_of t))" and ?w = "for_each (value_step no_docs pl) 0 (values_of t) w"
    have w: "endline ?w = put_lines ?L w"
      using values_written [OF assms(3) _ True, of pl] vs assms(4) by fastforce
    then have "settled (endline ?w)" "key_path (endline ?w) = key_path w" using assms(3) by simp_all
    then have w': "settled ?w" "key_path ?w = q" using assms(4) by simp_all
    obtain tab1 where one: "runs ?L (tab, q) (tab1, q)" "stage q tab (insert_all (values_of t) []) tab1"
      using runs_values [OF stage0 _ fresh_parts(1) [OF sorted], of "length q"] assms(8) [OF True] vs by fastforce
    obtain T tab' cur' where two: "endline (for_each (section_step no_docs pl ?some) 0 (sections_of t) ?w) = put_lines T (endline ?w)"
      "runs T (tab1, q) (tab', cur')" "stage q tab (insert_all (sections_of t) (insert_all (values_of t) [])) tab'"
      using sections_written [OF assms(5), of ?some 0, OF _ ss w' one(2) fresh_parts(2) [OF sorted]] True by blast
    have "t \<noteq> []" using True by (auto simp: values_of_def)
    then have "runs (?L @ T) (tab, cur) (store q t tab, cur')"
      using runs_trans [OF one(1) two(2)] final [OF two(3)] assms(8) [OF True] by simp
    moreover have "write_entries no_docs pl t w = put_lines (?L @ T) w"
      using two(1) w by (simp add: write_entries_def)
    ultimately show ?thesis by blast
  next
    case False
    show ?thesis
    proof (cases "sections_of t")
      case Nil
      then have "t = []"
        using False filter_empty_conv [of "\<lambda>(k, v). is_section v" t] filter_empty_conv [of "\<lambda>(k, v). \<not> is_section v" t]
        by (cases t) (auto simp: sections_of_def values_of_def)
      then have "q = []" "tab = []" using assms(7,9) by auto
      then show ?thesis
        using \<open>t = []\<close> put_lines_Nil [of w]
        by (intro exI [of _ "if has_naked_endline w then [] else [CHR 0x0A]"] exI [of _ cur])
          (simp add: write_entries_def values_of_def sections_of_def)
    next
      case (Cons e es)
      obtain k v where e: "e = (k, v)" by (cases e)
      have v: "section_written v" "is_section v" "key_ok k" using ss Cons e by auto
      have keys': "map_of [] k = None" "fresh_keys es (insert_value k v [])"
        using fresh_keys_Cons [of k v es "[]"] fresh_parts(2) [OF sorted] False Cons e by auto
      obtain T1 cur1 where one: "section_step no_docs pl ?some 0 (k, v) w = put_lines T1 w"
        "runs T1 (tab, cur) (store q (insert_value k v []) tab, cur1)"
        using section_step [OF v assms(5,3,4) stage0 keys'(1), of pl ?some 0 cur] False by auto
      let ?w = "put_lines T1 w"
      have w: "settled ?w" "key_path ?w = q" using assms(3,4) by simp_all
      have es: "\<forall>(k, v) \<in> set es. key_ok k \<and> is_section v \<and> section_written v" using ss Cons by simp
      obtain T2 tab' cur' where two: "endline (for_each (section_step no_docs pl ?some) 1 es ?w) = put_lines T2 (endline ?w)"
        "runs T2 (store q (insert_value k v []) tab, cur1) (tab', cur')"
        "stage q tab (insert_all es (insert_value k v [])) tab'"
        using sections_written [OF assms(5) _ es w stage_insert [OF stage0] keys'(2), of ?some 1 pl cur1] by auto
      have "t \<noteq> []" using Cons by (auto simp: sections_of_def)
      then have "runs (T1 @ T2) (tab, cur) (store q t tab, cur')"
        using runs_trans [OF one(2) two(2)] final two(3) False Cons e by simp
      moreover have "write_entries no_docs pl t w = put_lines (T1 @ T2) w"
        using one(1) two(1) False Cons e by (simp add: write_entries_def)
      ultimately show ?thesis by blast
    qed
  qed
qed

lemma table_section_written:
  assumes "sections_ok (TTable u)" and "u \<noteq> []"
    and "\<forall>(k, v) \<in> set u. is_section v \<longrightarrow> section_written v"
  shows "section_written (TTable u)"
  unfolding section_written_def
proof (intro allI impI, elim conjE)
  fix pl w p k tab cur
  assume w: "settled w" "key_path w = p @ [k]" and keys: "list_all key_ok (p @ [k])"
    and tab: "open_path p tab" "map_of (table_at p tab) k = None"
  let ?q = "p @ [k]"
  note opened = open_path_fresh [OF tab]
  have empty: "table_at ?q tab = []" using tab(2) by (simp add: table_at_append)
  have stored: "store ?q u tab = store p (insert_value k (TTable u) (table_at p tab)) tab"
    using store_append [OF tab(1)] tab(2) by simp
  show "\<exists>T cur'. accept no_docs pl False (TTable u) w = put_lines T w \<and>
      runs T (tab, cur) (store p (insert_value k (TTable u) (table_at p tab)) tab, cur')"
  proof (cases "list_all (\<lambda>(k, v). is_table v) u")
    case True
    then have "values_of u = []" by (auto simp: values_of_def filter_empty_conv list_all_iff)
    then obtain T cur' where "write_entries no_docs pl u w = put_lines T w" "runs T (tab, cur) (store ?q u tab, cur')"
      using entries_written [OF assms(1,3) w keys opened empty, where cur = cur and pl = pl] assms(2) by auto
    then show ?thesis
      using True w(1) stored by (auto simp: accept_table writes_with_def)
  next
    case False
    let ?H = "(tabs (length p) @ [CHR 0x0A]) @ ''['' @ path_text ?q @ '']'' @ [CHR 0x0A]"
    let ?tab1 = "create [] ?q tab"
    note c = created [OF opened keys]
    have head: "runs ?H (tab, cur) (?tab1, ?q)"
      by (rule runs_trans [OF runs_blank runs_table_header [OF tab(1) keys tab(2)]])
    have "settled (put_lines ?H w)" "key_path (put_lines ?H w) = ?q" using w by simp_all
    then obtain T cur' where T: "write_entries no_docs pl u (put_lines ?H w) = put_lines T (put_lines ?H w)"
        "runs T (?tab1, ?q) (store ?q u ?tab1, cur')"
      using entries_written [OF assms(1,3) _ _ keys exists_open [OF c(1)], where w = "put_lines ?H w" and cur = ?q and pl = pl] c(1,3) empty assms(2)
      by auto
    have "write_table_header False w = put_lines ?H w"
      using write_header [OF w, of False] by simp
    then have "accept no_docs pl False (TTable u) w = put_lines (?H @ T) w"
      using False T(1) by (simp add: accept_table)
    then show ?thesis using runs_trans [OF head T(2)] c(4) stored by auto
  qed
qed

text \<open>The array of tables at \<open>p\<close> and \<open>k\<close> when the elements \<open>ds\<close> have been read.\<close>

definition grown :: "string list \<Rightarrow> string \<Rightarrow> table \<Rightarrow> table list \<Rightarrow> table" where
  "grown p k tab ds =
     (if ds = [] then tab else store p (insert_value k (TTableArray False ds) (table_at p tab)) tab)"

lemma array_element_written:
  assumes "sections_ok (TTable t)" and "\<not> list_all (\<lambda>(k, v). is_table v) t"
    and "\<forall>(k, v) \<in> set t. is_section v \<longrightarrow> section_written v"
    and "settled w" and "key_path w = p @ [k]" and "list_all key_ok (p @ [k])"
    and "open_path p tab" and "map_of (table_at p tab) k = None"
  shows "\<exists>T cur'. accept no_docs pl True (TTable t) w = put_lines T w
    \<and> runs T (grown p k tab ds, cur) (grown p k tab (ds @ [t]), cur')"
proof -
  let ?q = "p @ [k]" and ?tab0 = "grown p k tab ds" and ?tab1 = "grown p k tab (ds @ [[]])"
  let ?H = "(tabs (length p) @ [CHR 0x0A]) @ ''[['' @ path_text ?q @ '']]'' @ [CHR 0x0A]"
  have at0: "open_path p ?tab0"
      "table_at p ?tab0 = (if ds = [] then table_at p tab else insert_value k (TTableArray False ds) (table_at p tab))"
      "store p x ?tab0 = store p x tab" for x
    using assms(7) table_at_store [OF assms(7)] store_store [OF assms(7)] exists_open by (auto simp: grown_def)
  have at1: "exists_path p ?tab1" "table_at p ?tab1 = insert_value k (TTableArray False (ds @ [[]])) (table_at p tab)"
      "store p x ?tab1 = store p x tab" for x
    using table_at_store [OF assms(7)] store_store [OF assms(7)] by (auto simp: grown_def)
  have slot: "map_of (table_at p ?tab0) k = (if ds = [] then None else Some (TTableArray False ds))"
    using assms(8) at0(2) by simp
  have head: "runs ?H (?tab0, cur) (?tab1, ?q)"
  proof (rule runs_trans [OF runs_blank])
    show "runs (''[['' @ path_text ?q @ '']]'' @ [CHR 0x0A]) (?tab0, cur) (?tab1, ?q)"
      using runs_array_header [OF at0(1) assms(6) slot] at0(2,3) by (cases "ds = []") (simp_all add: grown_def)
  qed
  have tab1: "exists_path ?q ?tab1" "table_at ?q ?tab1 = []"
    using at1(1,2) by (simp_all add: exists_path_append table_at_append)
  have "store ?q t ?tab1 = store p (store [k] t (table_at p ?tab1)) ?tab1"
    by (rule store_append [OF exists_open [OF at1(1)]])
  also have "\<dots> = grown p k tab (ds @ [t])"
    using at1(2,3) by (simp add: grown_def)
  finally have stored: "store ?q t ?tab1 = grown p k tab (ds @ [t])" .
  have "settled (put_lines ?H w)" "key_path (put_lines ?H w) = ?q" "t \<noteq> []" using assms(2,4,5) by auto
  then obtain T cur' where T: "write_entries no_docs pl t (put_lines ?H w) = put_lines T (put_lines ?H w)"
      "runs T (?tab1, ?q) (store ?q t ?tab1, cur')"
    using entries_written [OF assms(1,3) _ _ assms(6) exists_open [OF tab1(1)] tab1(2), where w = "put_lines ?H w" and cur = ?q and pl = pl] tab1(1)
    by auto
  have "write_table_header True w = put_lines ?H w"
    using write_header [OF assms(4,5), of True] by simp
  then have "accept no_docs pl True (TTable t) w = put_lines (?H @ T) w"
    using assms(2) T(1) by (simp add: accept_table)
  moreover have "runs (?H @ T) (?tab0, cur) (grown p k tab (ds @ [t]), cur')"
    using runs_trans [OF head T(2)] stored by simp
  ultimately show ?thesis by blast
qed

definition array_step :: "place \<Rightarrow> nat \<Rightarrow> table \<Rightarrow> toml_writer \<Rightarrow> toml_writer" where
  "array_step pl = (\<lambda>j t w. accept no_docs (pl @ [Inr j]) True (TTable t) (if j > 0 then endline w else w))"

lemma array_written:
  assumes "list_all key_ok (p @ [k])" and "open_path p tab" and "map_of (table_at p tab) k = None"
  shows "ts \<noteq> [] \<Longrightarrow> \<forall>t \<in> set ts. sections_ok (TTable t) \<and> \<not> list_all (\<lambda>(k, v). is_table v) t
      \<and> (\<forall>(k, v) \<in> set t. is_section v \<longrightarrow> section_written v) \<Longrightarrow>
    settled w \<Longrightarrow> key_path w = p @ [k] \<Longrightarrow> j = 0 \<or> endline w = w \<Longrightarrow>
    \<exists>T cur'. for_each (array_step pl) j ts w = put_lines T w \<and>
      runs T (grown p k tab ds, cur) (grown p k tab (ds @ ts), cur')"
proof (induction ts arbitrary: j w ds cur)
  case (Cons t ts)
  have t: "sections_ok (TTable t)" "\<not> list_all (\<lambda>(k, v). is_table v) t"
      "\<forall>(k, v) \<in> set t. is_section v \<longrightarrow> section_written v"
    using Cons.prems(2) by auto
  obtain T1 cur1 where one: "accept no_docs (pl @ [Inr j]) True (TTable t) w = put_lines T1 w"
      "runs T1 (grown p k tab ds, cur) (grown p k tab (ds @ [t]), cur1)"
    using array_element_written [OF t Cons.prems(3,4) assms] by blast
  have step: "array_step pl j t w = put_lines T1 w"
    using one(1) Cons.prems(5) by (auto simp: array_step_def)
  show ?case
  proof (cases "ts = []")
    case True
    then show ?thesis using step one(2) by auto
  next
    case False
    have ts: "\<forall>t \<in> set ts. sections_ok (TTable t) \<and> \<not> list_all (\<lambda>(k, v). is_table v) t
        \<and> (\<forall>(k, v) \<in> set t. is_section v \<longrightarrow> section_written v)"
      using Cons.prems(2) by simp
    have w: "settled (put_lines T1 w)" "key_path (put_lines T1 w) = p @ [k]" "j + 1 = 0 \<or> endline (put_lines T1 w) = put_lines T1 w"
      using Cons.prems(3,4) by simp_all
    obtain T2 cur2 where two: "for_each (array_step pl) (j + 1) ts (put_lines T1 w) = put_lines T2 (put_lines T1 w)"
        "runs T2 (grown p k tab (ds @ [t]), cur1) (grown p k tab ((ds @ [t]) @ ts), cur2)"
      using Cons.IH [OF False ts w, of "ds @ [t]" cur1] by blast
    have "for_each (array_step pl) j (t # ts) w = put_lines (T1 @ T2) w" using step two(1) by simp
    then show ?thesis using runs_trans [OF one(2) two(2)] by auto
  qed
qed simp

lemma array_section_written:
  assumes "ts \<noteq> []" and "\<forall>t \<in> set ts. sections_ok (TTable t) \<and> \<not> list_all (\<lambda>(k, v). is_table v) t
      \<and> (\<forall>(k, v) \<in> set t. is_section v \<longrightarrow> section_written v)"
  shows "section_written (TTableArray False ts)"
  unfolding section_written_def
proof (intro allI impI, elim conjE)
  fix pl w p k tab cur
  assume w: "settled w" "key_path w = p @ [k]" and keys: "list_all key_ok (p @ [k])"
    and tab: "open_path p tab" "map_of (table_at p tab) k = None"
  obtain T cur' where T: "for_each (array_step pl) 0 ts w = put_lines T w"
      "runs T (grown p k tab [], cur) (grown p k tab ([] @ ts), cur')"
    using array_written [OF keys tab assms w, of 0 pl "[]" cur] by auto
  have "accept no_docs pl False (TTableArray False ts) w = put_lines T w"
    using T(1) by (simp add: accept.simps array_step_def)
  then show "\<exists>T cur'. accept no_docs pl False (TTableArray False ts) w = put_lines T w \<and>
      runs T (tab, cur) (store p (insert_value k (TTableArray False ts) (table_at p tab)) tab, cur')"
    using T(2) assms(1) by (auto simp: grown_def)
qed

lemma sections_are_written:
  "sections_ok v \<Longrightarrow> is_section v \<Longrightarrow> v \<noteq> TTable [] \<Longrightarrow> section_written v"
proof (induction v rule: measure_induct_rule [of size])
  case (less v)
  have entries: "section_written x"
    if "sections_ok (TTable t)" "(k, x) \<in> set t" "is_section x" "size (TTable t) \<le> size v" for t k x
    using less.IH [of x] that size_entry [of k x t] by (auto simp: list_all_iff simp del: toml.size)
  show ?case
  proof (cases v)
    case (TTable u)
    then show ?thesis
      using table_section_written [of u] entries [of u] less.prems by auto
  next
    case (TTableArray inl ts)
    have "\<forall>t \<in> set ts. sections_ok (TTable t) \<and> \<not> list_all (\<lambda>(k, v). is_table v) t"
      using less.prems(1) TTableArray by (auto simp: list_all_iff)
    moreover have "section_written x" if "t \<in> set ts" "(k, x) \<in> set t" "is_section x" for t k x
    proof -
      have "size (TTable t) < size v" using size_table [OF that(1)] TTableArray by simp
      then show ?thesis using entries [of t k x] calculation that by (simp del: toml.size)
    qed
    ultimately have "section_written (TTableArray False ts)"
      using less.prems(1) TTableArray by (intro array_section_written) auto
    then show ?thesis using less.prems(1) TTableArray by simp
  qed (use less.prems in simp_all)
qed

lemma document_text:
  assumes "document_ok t"
  shows "\<exists>cur. runs (to_text (TTable t)) ([], []) (t, cur)"
proof -
  let ?w = "toml_writer_on [CHR 0x09]"
  have ok: "sections_ok (TTable t)" using assms by (simp add: document_ok_def)
  have each: "\<forall>(k, v) \<in> set t. is_section v \<longrightarrow> section_written v"
    using ok by (auto simp: list_all_iff intro!: sections_are_written)
  have w: "settled ?w" "key_path ?w = []" by (simp_all add: writes_with_def toml_writer_on_def)
  obtain T cur where T: "write_entries no_docs [] t ?w = put_lines T ?w" "runs T ([], []) (store [] t [], cur)"
    using entries_written [OF ok each w, where cur = "[]" and pl = "[]" and tab = "[]"] by auto
  have "accept no_docs [] False (TTable t) ?w = put_lines T ?w"
    using T(1) w(2) by (simp add: accept_table write_table_header_def)
  then show ?thesis using T(2) by (auto simp: to_text_def put_lines_def toml_writer_on_def)
qed

lemma runs_parse:
  assumes "runs s ([], []) (t, cur)"
  shows "parse s m False = Some (Inr t)"
proof -
  have "reading (parser_on s m False) (s @ [])" by (simp add: reading_def parser_on_def)
  then obtain P' f' where P': "reading P' []" "8 \<le> f'"
    and run: "parse_lines (parse_fuel s) (parser_on s m False) [] [] = parse_lines f' P' t cur"
    using assms [unfolded runs_def, rule_format, of "parser_on s m False" "[]" "parse_fuel s"]
    by (auto simp: parse_fuel_def)
  obtain g where "f' = Suc (Suc g)" using P'(2) that [of "f' - 2"] by simp
  then have "parse_lines f' P' t cur = Some (Inr (t, cur, next_line \<lparr>stream_buf = [], eofbit = True\<rparr> P'))"
    using P'(1) by (simp add: reading_def getline_def stream_of_def next_line_def consume_whitespace_Nil)
  then show ?thesis using run by (simp add: parse_def)
qed

section \<open>Properties\<close>

text \<open>
  C25: what the library writes it reads back, for the trees of \<open>document_ok\<close>. The text of such a tree
  without documentation, with headers, tabs and escapes as the writer puts them, is parsed to the same
  tree in every merge mode: tables, arrays of tables and arrays at every depth, keys and strings with
  quotes, line breaks and other characters that have a short escape, integers, booleans, dates and
  times. The condition \<open>document_ok\<close> leaves out what is not read back, or not shown to be: doubles; empty
  tables, and elements of arrays of tables all of whose entries are tables, which get no header; empty
  arrays of tables and those written inline; empty keys; keys and strings with control characters that
  the writer escapes as numbers; arrays of values of different kinds; integers beyond 64 bits; dates,
  times and offsets out of range, and the offsets whose sign is lost.
\<close>

theorem document_roundtrip:
  assumes "document_ok t"
  shows "parse (to_text (TTable t)) merge False = Some (Inr t)"
  using document_text [OF assms] runs_parse by blast

definition demo_document :: table where
  "demo_document =
     [(''a b'', TString ([CHR 0x22] @ ''x'' @ [CHR 0x0A])),
      (''device'', TTableArray False
         [[(''ids'', TArray [TInt 1, TInt (- 2)]), (''memory'', TTable [(''mb'', TInt 2048)])],
          [(''ids'', TArray [])]]),
      (''server'', TTable [(''http'', TTable
         [(''enable'', TBool True), (''since'', TLocalDate \<lparr>year = 2020, month = 2, day = 29\<rparr>)])])]"

theorem document_roundtrip_witness:
  "parse (to_text (TTable demo_document)) Merge_replace False = Some (Inr demo_document)"
proof -
  have "document_ok demo_document" by code_simp
  then show ?thesis by (rule document_roundtrip)
qed

end
