(* ===== verification/Sample.thy ===== *)
theory Sample
  imports Config Toml_Roundtrip
begin

text \<open>
  The documented sample of the configuration, as the server reads it: which of its lines are still
  in effect after all settings have been commented out.
\<close>

section \<open>Lines that are commented out\<close>

definition commented :: "string \<Rightarrow> string" where
  "commented s = concat (map (\<lambda>line. comment_line line @ nl) (getlines [] s))"

text \<open>Whole lines none of which is a header.\<close>

definition quiet :: "string \<Rightarrow> bool" where
  "quiet s \<longleftrightarrow> nl_ended s \<and> CHR 0x0D \<notin> set s \<and> (\<forall>l \<in> set (getlines [] s). l = [] \<or> hd l \<noteq> CHR ''['')"

lemma getlines_ended: "s \<noteq> [] \<Longrightarrow> last s = CHR 0x0A \<Longrightarrow> getlines cur (s @ t) = getlines cur s @ getlines [] t"
  by (induction cur s rule: getlines.induct) (auto split: if_splits)

lemma getlines_append: "nl_ended s \<Longrightarrow> getlines [] (s @ t) = getlines [] s @ getlines [] t"
  using getlines_ended [of s "[]" t] by (cases "s = []") (simp_all add: nl_ended_def)

lemma nl_ended_append: "nl_ended s \<Longrightarrow> nl_ended t \<Longrightarrow> nl_ended (s @ t)"
  by (cases "t = []") (simp_all add: nl_ended_def)

lemma nl_ended_concat: "\<forall>s \<in> set ss. nl_ended s \<Longrightarrow> nl_ended (concat ss)"
  by (induction ss) (auto intro: nl_ended_append simp: nl_ended_def [of "[]"])

lemma commented_append: "nl_ended s \<Longrightarrow> commented (s @ t) = commented s @ commented t"
  by (simp add: commented_def getlines_append)

lemma quiet_Nil [simp]: "quiet []"
  by (simp add: quiet_def nl_ended_def)

lemma quiet_append: "quiet s \<Longrightarrow> quiet t \<Longrightarrow> quiet (s @ t)"
  by (auto simp: quiet_def getlines_append nl_ended_append)

lemma quiet_line: "no_newline l \<Longrightarrow> l = [] \<or> hd l \<noteq> CHR ''['' \<Longrightarrow> quiet (l @ nl)"
  using getlines_append_nl [of l "[]" "[]"]
  by (auto simp: quiet_def no_newline_def nl_ended_def nl_def)

lemma quiet_concat: "\<forall>s \<in> set ss. quiet s \<Longrightarrow> quiet (concat ss)"
  by (induction ss) (auto intro: quiet_append)

lemma set_getlines: "l \<in> set (getlines cur s) \<Longrightarrow> set l \<subseteq> set cur \<union> set s"
  by (induction cur s rule: getlines.induct) (auto split: if_splits)

lemma runs_comment_line:
  assumes "no_newline l" and "l = [] \<or> hd l \<noteq> CHR ''[''"
  shows "runs (comment_line l @ nl) st st"
proof -
  have "comment_line l = [] \<or> (\<exists>u. comment_line l = CHR ''#'' # u)"
    using assms(2) by (cases l) (auto simp: comment_line_def)
  then have "consume_whitespace (comment_line l) = [] \<or> hd (consume_whitespace (comment_line l)) = CHR ''#''"
    by (auto simp: consume_whitespace_def is_ws_def)
  moreover have "no_newline (comment_line l)" using assms(1) by (auto simp: comment_line_def)
  ultimately show ?thesis
    unfolding nl_def by (cases st) (auto intro!: runs_line simp: Let_def)
qed

lemma runs_commented:
  assumes "quiet s"
  shows "runs (commented s) st st"
proof -
  have "runs (concat (map (\<lambda>line. comment_line line @ nl) ls)) st st"
    if "\<forall>l \<in> set ls. no_newline l \<and> (l = [] \<or> hd l \<noteq> CHR ''['')" for ls
    using that
  proof (induction ls)
    case (Cons l ls)
    then have "runs (comment_line l @ nl) st st" by (intro runs_comment_line) auto
    moreover have "runs (concat (map (\<lambda>line. comment_line line @ nl) ls)) st st" using Cons by simp
    ultimately have "runs ((comment_line l @ nl) @ concat (map (\<lambda>line. comment_line line @ nl) ls)) st st"
      by (rule runs_trans)
    then show ?case by simp
  qed simp
  moreover have "no_newline l" if l: "l \<in> set (getlines [] s)" for l
    using getlines_no_nl [OF l] set_getlines [OF l] assms by (auto simp: no_newline_def quiet_def)
  ultimately show ?thesis using assms by (simp add: commented_def quiet_def)
qed

section \<open>Documented entries\<close>

lemma printable_hex: "d < 16 \<Longrightarrow> 48 \<le> (of_char (lower_hex (hex_char d)) :: nat)"
  by (simp add: lower_hex_def) (simp add: hex_char_def)

lemma printable_no_newline: "\<forall>c \<in> set s. 32 \<le> (of_char c :: nat) \<Longrightarrow> no_newline s"
  by (force simp: no_newline_def)

lemma no_newline_escape_char: "no_newline (escape_char c)"
proof -
  have "32 \<le> (of_char d :: nat)" if "d \<in> set (map (lower_hex \<circ> hex_char) (rev (le_digits 16 n)))" for d n
    using that printable_hex le_digits_less [of 16 _ n] by fastforce
  then have "no_newline (map (lower_hex \<circ> hex_char) (rev (le_digits 16 n)))" for n
    by (intro printable_no_newline) blast
  then show ?thesis by (auto simp: escape_char_def)
qed

lemma no_newline_quoted: "no_newline (quoted s)"
proof -
  have "no_newline (escape_string s)" using no_newline_escape_char by (induction s) simp_all
  then show ?thesis by (simp add: quoted_def)
qed

text \<open>The values of the sample.\<close>

fun simple :: "toml \<Rightarrow> bool" where
  "simple (TString _) = True"
| "simple (TInt _) = True"
| "simple (TBool _) = True"
| "simple _ = False"

lemma no_newline_simple: "no_newline (value_text v)" if "simple v"
  using that
proof (cases v)
  case (TInt n)
  then show ?thesis using int_string_run [of n] by (auto simp: no_newline_def is_number_def less_eq_char_def)
qed (simp_all add: no_newline_quoted split: if_splits)

lemma replace_newline:
  "replace_all nl r (c # s) = (if c = CHR 0x0A then r else [c]) @ replace_all nl r s"
  by (simp add: nl_def)

lemma quiet_doc:
  "no_newline pre \<Longrightarrow> pre \<noteq> [] \<Longrightarrow> hd pre \<noteq> CHR ''['' \<Longrightarrow> CHR 0x0D \<notin> set d \<Longrightarrow>
   quiet (pre @ replace_all nl (nl @ ''# '') d @ nl)"
proof (induction d arbitrary: pre)
  case Nil
  then show ?case using quiet_line [of pre] by simp
next
  case (Cons c d)
  show ?case
  proof (cases "c = CHR 0x0A")
    case True
    have "quiet (pre @ nl)" using Cons.prems by (intro quiet_line) simp_all
    moreover have "quiet (''# '' @ replace_all nl (nl @ ''# '') d @ nl)"
      using Cons.prems by (intro Cons.IH) simp_all
    ultimately show ?thesis
      using quiet_append [of "pre @ nl"] True by (simp add: replace_newline del: replace_all.simps)
  next
    case False
    then have "quiet ((pre @ [c]) @ replace_all nl (nl @ ''# '') d @ nl)"
      using Cons.prems by (intro Cons.IH) auto
    then show ?thesis using False by (simp add: replace_newline del: replace_all.simps)
  qed
qed

definition doc_text :: "docs \<Rightarrow> place \<Rightarrow> string \<Rightarrow> string" where
  "doc_text docs pl k =
     (if has_doc docs pl k then nl @ ''# '' @ replace_all nl (nl @ ''# '') (doc_of docs pl k) @ nl else [])"

definition documented_entry :: "docs \<Rightarrow> place \<Rightarrow> string \<times> toml \<Rightarrow> string" where
  "documented_entry docs pl = (\<lambda>(k, v). doc_text docs pl k @ key_text k @ '' = '' @ value_text v)"

definition docs_ok :: "docs \<Rightarrow> bool" where
  "docs_ok docs \<longleftrightarrow> (\<forall>pl k d. docs pl k = Some d \<longrightarrow> CHR 0x0D \<notin> set d)"

lemma quiet_doc_text: "docs_ok docs \<Longrightarrow> quiet (doc_text docs pl k)"
proof -
  assume docs: "docs_ok docs"
  show ?thesis
  proof (cases "docs pl k")
    case (Some d)
    then have "CHR 0x0D \<notin> set d" using docs by (auto simp: docs_ok_def)
    then have "quiet (''# '' @ replace_all nl (nl @ ''# '') d @ nl)" by (intro quiet_doc) simp_all
    moreover have "quiet ([] @ nl)" by (rule quiet_line) simp_all
    ultimately show ?thesis
      using quiet_append [of "[] @ nl"] Some by (simp add: doc_text_def has_doc_def doc_of_def)
  qed (simp add: doc_text_def has_doc_def)
qed

lemma quiet_entry:
  assumes "docs_ok docs" and "key_ok k" and "simple v"
  shows "quiet (documented_entry docs pl (k, v) @ [CHR 0x0A])"
proof -
  obtain c u where "key_text k = c # u" "c \<noteq> CHR ''[''" using key_text_first [OF assms(2)] by blast
  moreover have "no_newline (key_text k @ '' = '' @ value_text v)"
    using no_newline_path [of "[k]"] assms(2) no_newline_simple [OF assms(3)] by simp
  ultimately have "quiet ((key_text k @ '' = '' @ value_text v) @ nl)" by (intro quiet_line) simp_all
  then show ?thesis
    using quiet_append [OF quiet_doc_text [OF assms(1)]] by (simp add: documented_entry_def nl_def)
qed

lemma indent_nothing: "writes_with [] w \<Longrightarrow> write_text s (indent w) = write_text s w"
proof -
  have "write_text s ((write_text [] ^^ n) w) = write_text s w" for n
    by (induction n) simp_all
  then show "writes_with [] w \<Longrightarrow> ?thesis" by (simp add: indent_def writes_with_def)
qed

lemma accept_simple: "simple v \<Longrightarrow> accept docs pl b v w = write_text (value_text v) w"
  by (cases v) (simp_all add: accept.simps)

lemma write_doc_text:
  "write_text s (write_doc docs pl k w) = write_text (doc_text docs pl k @ s) w"
  by (simp add: write_doc_def doc_text_def nl_def)

lemma value_step_documented:
  assumes "simple v" and "writes_with [] w"
  shows "value_step docs pl i (k, v) w =
    write_text (documented_entry docs pl (k, v)) (if i > 0 then endline w else w)"
proof -
  have leaf: "\<not> is_section v" using assms(1) by (cases v) simp_all
  have "write_table_item_header v (write_doc docs pl k (push_key k u))
      = write_text (doc_text docs pl k @ key_text k @ '' = '') (push_key k u)" if "writes_with [] u" for u
  proof -
    have "writes_with [] (write_doc docs pl k (push_key k u))" and "key_path (write_doc docs pl k (push_key k u)) = key_path u @ [k]"
      using that by (simp_all add: write_doc_def)
    then show ?thesis
      using leaf indent_nothing by (simp add: write_table_item_header_def write_doc_text)
  qed
  then show ?thesis
    using assms accept_simple by (simp add: value_step_def documented_entry_def Let_def)
qed

section \<open>Sections\<close>

definition plain_section :: "string \<times> toml \<Rightarrow> bool" where
  "plain_section = (\<lambda>(k, v). key_ok k \<and> (\<exists>t. v = TTable t \<and> t \<noteq> [] \<and> (\<forall>(j, x) \<in> set t. key_ok j \<and> simple x)))"

definition section_head :: "string \<Rightarrow> string" where
  "section_head k = nl @ ''['' @ key_text k @ '']'' @ nl"

definition section_text :: "docs \<Rightarrow> string \<times> toml \<Rightarrow> string" where
  "section_text docs = (\<lambda>(k, v). section_head k @
     concat (map (\<lambda>e. documented_entry docs [Inl k] e @ [CHR 0x0A]) (as_entries v)))"

lemma simple_entries:
  assumes "\<forall>(j, x) \<in> set t. simple x"
  shows "values_of t = t" "sections_of t = []" "t \<noteq> [] \<Longrightarrow> \<not> list_all (\<lambda>(k, v). is_table v) t"
proof -
  have "\<not> is_section x" if "simple x" for x using that by (cases x) simp_all
  then have "\<forall>(j, x) \<in> set t. \<not> is_section x" using assms by blast
  then show "values_of t = t" "sections_of t = []" "t \<noteq> [] \<Longrightarrow> \<not> list_all (\<lambda>(k, v). is_table v) t"
    by (auto simp: values_of_def sections_of_def filter_empty_conv intro!: filter_True) (cases t; auto)
qed

lemma accept_plain_section:
  assumes "plain_section (k, v)" and "writes_with [] w" and "key_path w = [k]"
  shows "accept docs [Inl k] False v w = put_lines (section_text docs (k, v)) w"
proof -
  obtain t where v: "v = TTable t" "t \<noteq> []" and t: "\<forall>(j, x) \<in> set t. key_ok j \<and> simple x"
    using assms(1) by (auto simp: plain_section_def)
  then have "\<forall>(j, x) \<in> set t. simple x" by blast
  note parts = simple_entries [OF this]
  let ?w = "put_lines (section_head k) w" and ?g = "documented_entry docs [Inl k]"
  have step: "value_step docs [Inl k] i e u = write_text (?g e) (if i > 0 then endline u else u)"
    if "e \<in> set t" "writes_with [] u" for i e u
    using value_step_documented [of "snd e" u docs "[Inl k]" i "fst e"] t that by (cases e) auto
  have "endline (for_each (value_step docs [Inl k]) 0 t ?w) = put_lines (concat (map (\<lambda>e. ?g e @ [CHR 0x0A]) t)) ?w"
    using step v(2) assms(2,3) by (intro lines_written [where ind = "[]" and q = "[k]"]) simp_all
  moreover have "write_table_header False w = ?w"
    using assms(2,3) indent_nothing [OF assms(2)] by (simp add: write_table_header_def section_head_def nl_def)
  ultimately show ?thesis
    using v parts by (simp add: accept_table write_entries_def section_text_def)
qed

lemma sections_written_plain:
  "\<forall>e \<in> set es. plain_section e \<Longrightarrow> writes_with [] w \<Longrightarrow> key_path w = [] \<Longrightarrow> i = 0 \<or> endline w = w \<Longrightarrow>
   es \<noteq> [] \<Longrightarrow> for_each (section_step docs [] False) i es w = put_lines (concat (map (section_text docs) es)) w"
proof (induction es arbitrary: i w)
  case (Cons e es)
  obtain k v where e: "e = (k, v)" by (cases e)
  have ev: "plain_section (k, v)" using Cons.prems(1) e by simp
  then have "is_table v" by (auto simp: plain_section_def)
  moreover have "accept docs [Inl k] False v (push_key k w) = put_lines (section_text docs (k, v)) (push_key k w)"
    using Cons.prems(2,3) by (intro accept_plain_section [OF ev]) simp_all
  ultimately have step: "section_step docs [] False i e w = put_lines (section_text docs e) w"
    using Cons.prems(4) e by (auto simp: section_step_def write_table_item_header_def Let_def)
  show ?case
  proof (cases "es = []")
    case False
    then have "for_each (section_step docs [] False) (i + 1) es (put_lines (section_text docs e) w)
        = put_lines (concat (map (section_text docs) es)) (put_lines (section_text docs e) w)"
      using Cons.prems by (intro Cons.IH) simp_all
    then show ?thesis using step by simp
  qed (simp add: step)
qed simp

lemma sample_text:
  assumes "\<forall>e \<in> set secs. plain_section e" and "secs \<noteq> []"
  shows "out (accept docs [] False (TTable secs) (toml_writer_on [])) = concat (map (section_text docs) secs)"
proof -
  have "\<forall>(k, v) \<in> set secs. is_table v" using assms(1) by (auto simp: plain_section_def)
  then have parts: "values_of secs = []" "sections_of secs = secs" "list_all (\<lambda>(k, v). is_table v) secs"
    by (auto simp: values_of_def sections_of_def filter_empty_conv list_all_iff intro!: filter_True)
  have w: "writes_with [] (toml_writer_on [])" "key_path (toml_writer_on []) = []"
    by (simp_all add: writes_with_def toml_writer_on_def)
  show ?thesis
    using parts sections_written_plain [OF assms(1) w, of 0 docs] assms(2)
    by (simp add: accept_table write_entries_def write_table_header_def toml_writer_on_def put_lines_def endline_def)
qed

text \<open>A section of which only the header is left.\<close>

lemma runs_section:
  assumes "plain_section (k, v)" and "docs_ok docs" and "map_of tab k = None"
  shows "runs (commented (section_text docs (k, v))) (tab, cur) (insert_value k (TTable []) tab, [k])"
proof -
  obtain t where v: "v = TTable t" and k: "key_ok k" and t: "\<forall>(j, x) \<in> set t. key_ok j \<and> simple x"
    using assms(1) by (auto simp: plain_section_def)
  let ?body = "concat (map (\<lambda>e. documented_entry docs [Inl k] e @ [CHR 0x0A]) t)"
  have quiet: "quiet ?body" using t quiet_entry [OF assms(2)] by (intro quiet_concat) auto
  have ended: "nl_ended (section_head k)" by (simp add: section_head_def nl_ended_def nl_def)
  have "no_newline (key_text k)" using no_newline_path [of "[k]"] k by simp
  then have "getlines [] (''['' @ key_text k @ '']'' @ nl @ []) = [''['' @ key_text k @ '']'']"
    using getlines_append_nl [of "''['' @ key_text k @ '']''" "[]" "[]"] by (simp add: no_newline_def)
  then have head: "commented (section_head k) = [CHR 0x0A] @ (''['' @ path_text ([] @ [k]) @ '']'' @ [CHR 0x0A])"
    by (simp add: commented_def section_head_def comment_line_def nl_def)
  have "create [] ([] @ [k]) tab = insert_value k (TTable []) tab"
    using assms(3) by (simp add: create_step_def)
  then have "runs (commented (section_head k)) (tab, cur) (insert_value k (TTable []) tab, [k])"
    unfolding head using runs_table_header [of "[]" tab k cur] k assms(3)
    by (intro runs_trans [OF runs_newline]) simp
  then have "runs (commented (section_head k) @ commented ?body) (tab, cur) (insert_value k (TTable []) tab, [k])"
    by (rule runs_trans) (rule runs_commented [OF quiet])
  then show ?thesis using commented_append [OF ended] v by (simp add: section_text_def)
qed

lemma runs_sections:
  assumes "docs_ok docs"
  shows "\<forall>e \<in> set secs. plain_section e \<Longrightarrow> fresh_keys secs tab \<Longrightarrow>
    \<exists>cur'. runs (commented (concat (map (section_text docs) secs))) (tab, cur)
      (insert_all (map (\<lambda>(k, v). (k, TTable [])) secs) tab, cur')"
proof (induction secs arbitrary: tab cur)
  case Nil
  then show ?case by (intro exI [of _ cur]) (simp add: commented_def)
next
  case (Cons e secs)
  obtain k v where e: "e = (k, v)" by (cases e)
  note fresh = fresh_keys_Cons [OF Cons.prems(2) [unfolded e]]
  have ev: "plain_section (k, v)" using Cons.prems(1) e by simp
  have "nl_ended (concat (map (\<lambda>e. documented_entry docs [Inl k] e @ [CHR 0x0A]) (as_entries v)))"
    by (intro nl_ended_concat) (auto simp: nl_ended_def)
  then have "nl_ended (section_text docs (k, v))"
    unfolding section_text_def prod.case by (intro nl_ended_append) (simp_all add: section_head_def nl_ended_def nl_def)
  have "fresh_keys secs (insert_value k (TTable []) tab)" using Cons.prems(2) e by (auto simp: image_iff)
  then obtain cur' where rest: "runs (commented (concat (map (section_text docs) secs))) (insert_value k (TTable []) tab, [k])
      (insert_all (map (\<lambda>(k, v). (k, TTable [])) secs) (insert_value k (TTable []) tab), cur')"
    using Cons.IH [of "insert_value k (TTable []) tab" "[k]"] Cons.prems(1) by auto
  show ?case
    using runs_trans [OF runs_section [OF ev assms fresh(1)] rest] e
      commented_append [OF \<open>nl_ended (section_text docs (k, v))\<close>] by auto
qed

section \<open>The sample\<close>

definition documented :: "doc_table \<Rightarrow> bool" where
  "documented = (\<lambda>(t, d). docs_ok d \<and> (\<forall>(j, x) \<in> set t. key_ok j \<and> simple x))"

lemma set_insert_value: "set (insert_value k v t) \<subseteq> insert (k, v) (set t)"
  by (induction k v t rule: insert_value.induct) auto

lemma documented_Nil: "docs_ok d \<Longrightarrow> documented ([], d)"
  by (simp add: documented_def)

lemma documented_put:
  assumes "documented td" and "key_ok k" and "simple v" and "CHR 0x0D \<notin> set doc"
  shows "documented (put pl k v doc td)"
proof -
  obtain t d where td: "td = (t, d)" by (cases td)
  have "docs_ok (document pl k doc d)"
    using assms(1,4) td by (auto simp: documented_def docs_ok_def document_def)
  moreover have "\<forall>(j, x) \<in> set (insert_value k v t). key_ok j \<and> simple x"
    using assms(1-3) td set_insert_value [of k v t] by (auto simp: documented_def)
  ultimately show ?thesis by (simp add: td put_def documented_def)
qed

lemma put_not_Nil: "fst (put pl k v doc td) \<noteq> []"
  by (cases td) (simp add: put_def)

lemma key_ok_literal: "k \<noteq> [] \<and> list_all (\<lambda>c. 32 \<le> (of_char c :: nat)) k \<Longrightarrow> key_ok k"
  by (auto simp: key_ok_def plain_def plain_char_def list_all_iff)

lemma export_sections:
  assumes "docs_ok d"
  shows "documented (export_server s d)" "fst (export_server s d) \<noteq> []"
    "documented (export_work M w d)" "fst (export_work M w d) \<noteq> []"
    "documented (export_admin a d)" "fst (export_admin a d) \<noteq> []"
    "documented (export_device d)" "fst (export_device d) \<noteq> []"
  unfolding export_server_def export_work_def export_admin_def export_device_def Let_def
  by (intro documented_put documented_Nil key_ok_literal put_not_Nil assms; simp add: nl_def)+

lemma sample_sections:
  obtains secs docs where "export_tree M c = (secs, docs)" "\<forall>e \<in> set secs. plain_section e"
    "docs_ok docs" "map fst secs = [''admin'', ''device'', ''server'', ''work'']"
proof -
  have d0: "docs_ok no_docs" by (simp add: docs_ok_def no_docs_def)
  obtain t1 d1 where 1: "export_server (server c) no_docs = (t1, d1)" by (cases "export_server (server c) no_docs")
  then have e1: "documented (t1, d1)" "t1 \<noteq> []" using export_sections(1,2) [OF d0, of "server c"] by simp_all
  then have d1: "docs_ok d1" by (simp add: documented_def)
  obtain t2 d2 where 2: "export_work M (work c) d1 = (t2, d2)" by (cases "export_work M (work c) d1")
  then have e2: "documented (t2, d2)" "t2 \<noteq> []" using export_sections(3,4) [OF d1, of M "work c"] by simp_all
  then have d2: "docs_ok d2" by (simp add: documented_def)
  obtain t3 d3 where 3: "export_admin (admin c) d2 = (t3, d3)" by (cases "export_admin (admin c) d2")
  then have e3: "documented (t3, d3)" "t3 \<noteq> []" using export_sections(5,6) [OF d2, of "admin c"] by simp_all
  then have d3: "docs_ok d3" by (simp add: documented_def)
  obtain t4 d4 where 4: "export_device d3 = (t4, d4)" by (cases "export_device d3")
  then have e4: "documented (t4, d4)" "t4 \<noteq> []" using export_sections(7,8) [OF d3] by simp_all
  have order: "''admin'' < ''device''" "''device'' < ''server''" "''device'' < ''work''" "\<not> ''work'' < ''server''"
      "''admin'' < ''server''"
    by code_simp+
  let ?secs = "[(''admin'', TTable t3), (''device'', TTable t4), (''server'', TTable t1), (''work'', TTable t2)]"
  have "export_tree M c = (?secs, d4)"
    using 1 2 3 4 order by (simp add: export_tree_def Let_def)
  moreover have "\<forall>e \<in> set ?secs. plain_section e"
    using e1 e2 e3 e4 by (auto simp: plain_section_def documented_def intro!: key_ok_literal)
  moreover have "docs_ok d4" using e4 by (simp add: documented_def)
  ultimately show thesis using that [of ?secs d4] by simp
qed

definition sample_tree :: table where
  "sample_tree = [(''admin'', TTable []), (''device'', TTable []), (''server'', TTable []), (''work'', TTable [])]"

lemma runs_sample: "\<exists>cur. runs (export_documented M c) ([], []) (sample_tree, cur)"
proof -
  obtain secs docs where tree: "export_tree M c = (secs, docs)" and plain: "\<forall>e \<in> set secs. plain_section e"
    and docs: "docs_ok docs" and keys: "map fst secs = [''admin'', ''device'', ''server'', ''work'']"
    by (rule sample_sections)
  have "secs \<noteq> []" using keys by auto
  then have "export_documented M c = commented (concat (map (section_text docs) secs))"
    using sample_text [OF plain, of docs] by (simp add: export_documented_def tree commented_def)
  moreover have "fresh_keys secs []" using keys by simp
  then obtain cur where "runs (commented (concat (map (section_text docs) secs))) ([], [])
      (insert_all (map (\<lambda>(k, v). (k, TTable [])) secs) [], cur)"
    using runs_sections [OF docs plain, of "[]" "[]"] by blast
  moreover have "insert_all (map (\<lambda>(k, v). (k, TTable [])) secs) [] = sample_tree"
  proof -
    have "map (\<lambda>(k, v). (k, TTable [])) secs = map (\<lambda>k. (k, TTable [])) (map fst secs)"
      by (simp add: case_prod_unfold)
    then have "map (\<lambda>(k, v). (k, TTable [])) secs = sample_tree" by (simp add: keys sample_tree_def)
    moreover have "keys_sorted sample_tree" unfolding sample_tree_def by code_simp
    ultimately show ?thesis by (simp add: fold_insert_sorted)
  qed
  ultimately show ?thesis by auto
qed

lemma from_hex_again: "bi_of_string M s = Inr b \<Longrightarrow> bi_from_hex M b0 s = (b, None)"
  by (auto simp: bi_of_string_def bi_from_hex_def split: if_splits sum.splits prod.splits option.splits)

lemma sample_config_tree:
  "config_of_tree M loopback hw sample_tree =
     bind_config (config_of_tree M loopback hw []) (\<lambda>c. Inr (c\<lparr>devices := [default_device]\<rparr>))"
proof (cases "default_work M")
  case (Inl what)
  then show ?thesis by (simp add: config_of_tree_def)
next
  case (Inr w)
  then have b: "bi_from_hex M b0 BASE_DIFFICULTY = (base_difficulty w, None)" "mock_work_generation_delay w = 0" for b0
    using from_hex_again by (auto simp: default_work_def bind_result_Inr)
  have srv: "read_server [] s = Inr s" for s
    by (simp add: read_server_def get_as_string_def get_as_bool_def uint_value_or_absent value_or_def Let_def)
  have wrk: "read_work M [] w = Inr w"
    using b by (simp add: read_work_def get_as_string_def value_or_def uint_value_or_absent Let_def)
  have dev: "get_device [] = Inr default_device"
    by (simp add: get_device_def get_as_string_def value_or_def uint_value_or_absent default_device_def Let_def)
  have adm: "read_admin [] a = a" for a
    by (simp add: read_admin_def get_as_string_def get_as_bool_def value_or_def)
  show ?thesis
    using Inr srv wrk dev adm
    by (simp add: config_of_tree_def sample_tree_def read_section_def contains_def get_table_def read_devices_def)
qed

lemma read_config_runs:
  assumes "runs (config_input fs path) ([], []) (t, cur)"
  shows "read_config fs path [] = Inr t"
proof -
  have "runs ([CHR 0x0A] @ config_input fs path) ([], []) (t, cur)"
    by (rule runs_trans [OF runs_newline assms])
  then have "parse ([CHR 0x0A] @ config_input fs path) Merge_ignore False = Some (Inr t)" by (rule runs_parse)
  moreover have "parse (config_input fs path) Merge_none False = Some (Inr t)" by (rule runs_parse [OF assms])
  ultimately show ?thesis
    by (simp add: read_config_def parse_base_and_override_files_def overrides_text_def)
qed

section \<open>Properties\<close>

text \<open>
  C22: starting with the documented sample as it is generated is starting without a file, but for one
  device: all settings are commented out, and the headers that remain leave the defaults, except that
  the header of the device section configures a CPU device. The sample can be that of any
  configuration; its texts are escaped and indented in such a way that no other line takes effect.
\<close>

theorem sample_is_default:
  assumes "fs path = Some (export_documented M' c)" and "path \<noteq> []"
  shows "config_ctor M loopback hw fs path [] =
    bind_config (config_ctor M loopback hw fs [] []) (\<lambda>d. Inr (d\<lparr>devices := [default_device]\<rparr>))"
proof -
  obtain cur where "runs (config_input fs path) ([], []) (sample_tree, cur)"
    using runs_sample [of M' c] assms by (auto simp: config_input_def config_file_exists_def)
  then have "read_config fs path [] = Inr sample_tree" by (rule read_config_runs)
  moreover have "read_config fs [] [] = Inr []"
    by (rule read_config_runs [where cur = "[]"]) (simp add: config_input_def)
  ultimately show ?thesis using sample_config_tree by (simp add: config_ctor_def)
qed

definition demo_config :: config where
  "demo_config = \<lparr>server = (default_server ''[::1]'' 8)\<lparr>port := 1\<rparr>, devices = [],
     work = \<lparr>base_difficulty = replicate 16 0, mock_work_generation_delay = 3\<rparr>, admin = default_admin\<rparr>"

theorem sample_is_default_witness:
  "\<exists>c. config_ctor ref128 ''::1'' 8 (\<lambda>_. Some (export_documented ref128 demo_config)) ''x.toml'' [] = Inr c
     \<and> port (server c) = 8076 \<and> devices c = [default_device]"
proof -
  let ?fs = "\<lambda>_ :: string. Some (export_documented ref128 demo_config)"
  obtain w where "default_work ref128 = Inr w"
    using u128.from_hex_digits [of BASE_DIFFICULTY]
    by (auto simp: default_work_def bi_of_string_def BASE_DIFFICULTY_def is_hex_def)
  moreover have "read_config ?fs [] [] = Inr []"
    by (rule read_config_runs [where cur = "[]"]) (simp add: config_input_def)
  ultimately show ?thesis
    using sample_is_default [of ?fs "''x.toml''" ref128 demo_config ref128 "''::1''" 8]
    by (simp add: config_ctor_def config_of_tree_def read_section_def contains_def read_devices_def default_server_def)
qed

end
