(* ===== verification/Env.thy ===== *)
theory Env
  imports Config
begin

text \<open>
  What \<open>work_handler\<close> uses of the libraries it links: the big integer types and the float
  (\<open>Bigint\<close>, \<open>Multiplier\<close>), Boost's property tree with its JSON reader and writer, and OpenSSL's
  Blake2b. They are the fields of the record \<open>env\<close>, a parameter of the definitions that use them.
\<close>

section \<open>Responses\<close>

text \<open>
  A response is the list of the entries that the code puts into a property tree, in the order of
  the calls; \<open>put\<close> on a key that is already there replaces its value.
\<close>

datatype json =
    JString string
  | JUnsigned u32
  | JInt int
  | JBool bool
  | JDouble double
  | JObject "(string \<times> json) list"
  | JArray "json list"

type_synonym ptree = "(string \<times> json) list"

definition pt_put :: "string \<Rightarrow> json \<Rightarrow> ptree \<Rightarrow> ptree" where
  "pt_put key v t = AList.update key v t"

section \<open>The libraries\<close>

text \<open>
  \<open>read_json\<close> parses a request or throws; \<open>get_string\<close>, \<open>get_double\<close> and \<open>get_unsigned\<close> are
  \<open>get_optional<std::string>\<close> and \<open>get<T> (path, default)\<close> on the parsed tree, whose type is
  \<open>'p\<close>; \<open>write_json\<close> is the text of a response; \<open>blake2b512\<close> is the digest of a message.
\<close>

record ('p, 'f) env =
  mp128 :: "128 mp_ops"
  mp256 :: "256 mp_ops"
  bf_ops :: "'f bigfloat_ops"
  read_json :: "string \<Rightarrow> 'p result"
  get_string :: "'p \<Rightarrow> string \<Rightarrow> string option"
  get_double :: "'p \<Rightarrow> string \<Rightarrow> double \<Rightarrow> double"
  get_unsigned :: "'p \<Rightarrow> string \<Rightarrow> u32 \<Rightarrow> u32"
  write_json :: "ptree \<Rightarrow> string"
  blake2b512 :: "u8 list \<Rightarrow> u8 list"

text \<open>The documented behaviour that the properties rely on.\<close>

definition env_ok :: "('p, 'f) env \<Rightarrow> bool" where
  "env_ok E \<longleftrightarrow> multiprecision (mp128 E) \<and> multiprecision (mp256 E) \<and>
     (\<forall>m. length (blake2b512 E m) = 64)"

lemma env_okD:
  assumes "env_ok E"
  shows "multiprecision (mp128 E)" and "multiprecision (mp256 E)" and "length (blake2b512 E m) = 64"
  using assms by (auto simp: env_ok_def)

section \<open>A reference environment\<close>

text \<open>
  For witnesses: requests are association lists already parsed (the text is looked up in a given
  table), numbers are given by their own tables, and the digest is a given function. The writer gives
  JSON on one line in which every leaf is a quoted text, as it is with Boost's.
\<close>

definition json_quote :: "string \<Rightarrow> string" where
  "json_quote s = CHR 0x22 # concat (map (\<lambda>c. if c = CHR 0x22 \<or> c = CHR 0x5C then [CHR 0x5C, c] else [c]) s) @ [CHR 0x22]"

fun json_text :: "json \<Rightarrow> string"
  and json_fields :: "(string \<times> json) list \<Rightarrow> string"
  and json_items :: "json list \<Rightarrow> string" where
  "json_text (JString s) = json_quote s"
| "json_text (JUnsigned n) = json_quote (int_string (uint n))"
| "json_text (JInt i) = json_quote (int_string i)"
| "json_text (JBool b) = json_quote (if b then ''true'' else ''false'')"
| "json_text (JDouble d) = json_quote (double_text d)"
| "json_text (JObject fs) = ''{'' @ json_fields fs @ ''}''"
| "json_text (JArray js) = ''['' @ json_items js @ '']''"
| "json_fields [] = []"
| "json_fields ((k, v) # fs) =
     json_quote k @ '':'' @ json_text v @ (if fs = [] then [] else '','' @ json_fields fs)"
| "json_items [] = []"
| "json_items (j # js) = json_text j @ (if js = [] then [] else '','' @ json_items js)"

record demo_request =
  dr_strings :: "(string \<times> string) list"
  dr_multiplier :: double
  dr_priority :: u32

definition demo_env ::
  "(string \<times> demo_request) list \<Rightarrow> (u8 list \<Rightarrow> u8 list) \<Rightarrow> (demo_request, double) env" where
  "demo_env reqs digest =
     \<lparr>mp128 = ref_mp, mp256 = ref_mp, bf_ops = ref_bf,
      read_json = (\<lambda>s. case map_of reqs s of None \<Rightarrow> Inl ''expected value'' | Some r \<Rightarrow> Inr r),
      get_string = (\<lambda>r k. map_of (dr_strings r) k),
      get_double = (\<lambda>r k d. dr_multiplier r),
      get_unsigned = (\<lambda>r k d. dr_priority r),
      write_json = (\<lambda>t. json_text (JObject t)),
      blake2b512 = (\<lambda>m. take 64 (digest m @ replicate 64 0))\<rparr>"

lemma demo_env_ok: "env_ok (demo_env reqs digest)"
  by (simp add: env_ok_def demo_env_def u128.multiprecision_axioms u256.multiprecision_axioms min_def)

end
