(* ===== verification/Pow.thy ===== *)
theory Pow
  imports Env Job
begin

text \<open>
  \<open>src/workserver/work_handler.cpp\<close>, lines 244 to 401: the search for a proof of work inside the
  pool's handler, the mock used for testing, and the text of the work in the response.

  The machine stores integers with the least significant byte first (the code's comments assume it
  of \<open>memcpy\<close>). The random engine is the sequence of the numbers it draws; the search stops after
  \<open>max_iterations\<close> hashes, so it always ends. The return codes of OpenSSL are ignored by the code
  and by the model.
\<close>

unbundle bit_operations_syntax

section \<open>Bytes of 64 bit words\<close>

definition le_bytes64 :: "u64 \<Rightarrow> u8 list" where
  "le_bytes64 w = map (\<lambda>i. ucast (drop_bit (8 * i) w)) [0..<8]"

text \<open>\<open>std::memcpy (&hash_le, hash_output.data (), 8)\<close>.\<close>

definition of_le_bytes64 :: "u8 list \<Rightarrow> u64" where
  "of_le_bytes64 bs = of_nat (digits_value 256 (map unat (take 8 bs)))"

definition byte_reverse :: "u64 \<Rightarrow> u64" where
  "byte_reverse hash_le =
     drop_bit 56 (hash_le AND 0xFF00000000000000) OR
     drop_bit 40 (hash_le AND 0x00FF000000000000) OR
     drop_bit 24 (hash_le AND 0x0000FF0000000000) OR
     drop_bit 8 (hash_le AND 0x000000FF00000000) OR
     push_bit 8 (hash_le AND 0x00000000FF000000) OR
     push_bit 24 (hash_le AND 0x0000000000FF0000) OR
     push_bit 40 (hash_le AND 0x000000000000FF00) OR
     push_bit 56 (hash_le AND 0x00000000000000FF)"

lemma upt8: "[0..<8] = [0, 1, 2, 3, 4, 5, 6, 7 :: nat]"
  by (simp add: upt_rec)

lemma byte_masks:
  "(0xFF00000000000000 :: u64) = push_bit 56 (mask 8)"
  "(0x00FF000000000000 :: u64) = push_bit 48 (mask 8)"
  "(0x0000FF0000000000 :: u64) = push_bit 40 (mask 8)"
  "(0x000000FF00000000 :: u64) = push_bit 32 (mask 8)"
  "(0x00000000FF000000 :: u64) = push_bit 24 (mask 8)"
  "(0x0000000000FF0000 :: u64) = push_bit 16 (mask 8)"
  "(0x000000000000FF00 :: u64) = push_bit 8 (mask 8)"
  "(0x00000000000000FF :: u64) = mask 8"
  by (simp_all add: push_bit_eq_mult mask_eq_exp_minus_1)

lemma byte_reverse_bytes: "le_bytes64 (byte_reverse w) = rev (le_bytes64 w)"
  unfolding byte_reverse_def byte_masks le_bytes64_def upt8
  by (simp only: list.map rev.simps append.simps list.inject simp_thms, intro conjI;
      rule bit_word_eqI; auto simp: bit_simps)

lemma length_le_bytes64 [simp]: "length (le_bytes64 w) = 8"
  by (simp add: le_bytes64_def)

lemma drop_bit_Suc_byte: "unat (drop_bit (8 * Suc i) w) = unat (drop_bit (8 * i) w) div 256"
proof -
  have "unat (drop_bit n w) = unat w div 2 ^ n" for n
    by (subst unat_drop_bit_eq) (rule drop_bit_eq_div)
  then show ?thesis by (simp add: power_add div_mult2_eq [symmetric] mult.commute)
qed

lemma digits_le_bytes: "digits_value 256 (map (\<lambda>i. unat (drop_bit (8 * i) w) mod 256) [k..<k + n])
    = unat (drop_bit (8 * k) w) mod 256 ^ n"
proof (induction n arbitrary: k)
  case 0
  then show ?case by simp
next
  case (Suc n)
  have "[k..<k + Suc n] = k # [Suc k..<Suc k + n]" by (simp add: upt_rec)
  then show ?case
    using Suc [of "Suc k"] by (simp add: drop_bit_Suc_byte mod_mult2_eq del: mult_Suc_right)
qed

lemma le_bytes64_value: "digits_value 256 (map unat (le_bytes64 w)) = unat w"
proof -
  have "map unat (le_bytes64 w) = map (\<lambda>i. unat (drop_bit (8 * i) w) mod 256) [0..<0 + 8]"
    by (simp add: le_bytes64_def unsigned_ucast_eq take_bit_eq_mod)
  then have "digits_value 256 (map unat (le_bytes64 w)) = unat w mod 256 ^ 8"
    using digits_le_bytes [of w 0 8] by simp
  then show ?thesis using unsigned_less [of w, where 'a = nat] by simp
qed

lemma map_unat_inject: "map unat xs = map unat (ys :: u8 list) \<Longrightarrow> xs = ys"
  by (metis inj_map_eq_map injI unsigned_word_eqI)

lemma of_le_bytes64_le_bytes64 [simp]: "of_le_bytes64 (le_bytes64 w @ rest) = w"
  by (simp add: of_le_bytes64_def le_bytes64_value)

lemma le_bytes64_of_le_bytes64: "8 \<le> length bs \<Longrightarrow> le_bytes64 (of_le_bytes64 bs) = take 8 bs"
proof -
  assume len: "8 \<le> length bs"
  have less: "digits_value 256 (map unat (take 8 bs)) < 256 ^ 8"
    using digits_value_less [of 256 "map unat (take 8 bs)"] unat_map_less [of "take 8 bs"] len
    by (simp add: min_absorb2 del: unat_map_less)
  have "map unat (le_bytes64 (of_le_bytes64 bs)) = map unat (take 8 bs)"
    by (rule digits_value_inject [of 256])
      (use len less unat_map_less [of "take 8 bs"] unat_map_less [of "le_bytes64 (of_le_bytes64 bs)"] in
       \<open>simp_all add: le_bytes64_value of_le_bytes64_def unat_of_nat del: unat_map_less\<close>)
  then show ?thesis by (rule map_unat_inject)
qed

text \<open>The swapped value is the number that the first eight bytes of the digest denote, most
  significant byte first.\<close>

lemma byte_reverse_value: "8 \<le> length bs \<Longrightarrow> unat (byte_reverse (of_le_bytes64 bs)) = be_value (take 8 bs)"
proof -
  assume len: "8 \<le> length bs"
  have "unat (byte_reverse (of_le_bytes64 bs)) =
      digits_value 256 (map unat (le_bytes64 (byte_reverse (of_le_bytes64 bs))))"
    by (simp add: le_bytes64_value)
  then show ?thesis by (simp add: byte_reverse_bytes le_bytes64_of_le_bytes64 len be_value_def)
qed

section \<open>The search\<close>

record pow_state =
  work_value :: u64
  iterations :: u64
  found :: bool
  draws :: nat

definition max_iterations :: u64 where
  "max_iterations = 10000000000"

text \<open>The input of 40 bytes (the work, then the root) and the value that is compared.\<close>

definition pow_input :: "u64 \<Rightarrow> u8 list \<Rightarrow> u8 list" where
  "pow_input work_v root_hash = le_bytes64 work_v @ root_hash"

definition hash_reversed :: "(u8 list \<Rightarrow> u8 list) \<Rightarrow> u64 \<Rightarrow> u8 list \<Rightarrow> u64" where
  "hash_reversed blake work_v root_hash =
     (let hash_output = blake (pow_input work_v root_hash);
          hash_le = of_le_bytes64 hash_output
      in byte_reverse hash_le)"

definition base_diff_64 :: "128 mp_ops \<Rightarrow> u8 list \<Rightarrow> u64" where
  "base_diff_64 M target_difficulty = ucast (bi_number M target_difficulty AND 0xFFFFFFFFFFFFFFFF)"

definition difficulty_threshold :: "u64 \<Rightarrow> u64" where
  "difficulty_threshold base = (if base > 0 then (- 1) div base else 0)"

text \<open>The end of the loop's body: the next candidate, a fresh one after every 100 million.\<close>

definition pow_next :: "(nat \<Rightarrow> u64) \<Rightarrow> pow_state \<Rightarrow> pow_state" where
  "pow_next dis s =
     (let w = work_value s + 1; it = iterations s + 1 in
      if it > 0 \<and> it mod 100000000 = 0
      then s\<lparr>work_value := dis (draws s), iterations := it, draws := Suc (draws s)\<rparr>
      else s\<lparr>work_value := w, iterations := it\<rparr>)"

lemma pow_next_simps [simp]:
  "iterations (pow_next dis s) = iterations s + 1" "found (pow_next dis s) = found s"
  by (simp_all add: pow_next_def Let_def)

function pow_loop ::
  "(u8 list \<Rightarrow> u8 list) \<Rightarrow> (nat \<Rightarrow> u64) \<Rightarrow> u64 \<Rightarrow> u8 list \<Rightarrow> u64 \<Rightarrow> pow_state \<Rightarrow> pow_state" where
  "pow_loop blake dis threshold root_hash limit s =
     (if \<not> found s \<and> iterations s < limit then
        if hash_reversed blake (work_value s) root_hash < threshold then s\<lparr>found := True\<rparr>
        else pow_loop blake dis threshold root_hash limit (pow_next dis s)
      else s)"
  by pat_completeness auto
termination
  by (relation "measure (\<lambda>(blake, dis, t, r, limit, s). unat limit - unat (iterations s))")
    (auto simp: unat_plus_1 word_less_nat_alt)

declare pow_loop.simps [simp del]

definition pow_start :: "(nat \<Rightarrow> u64) \<Rightarrow> pow_state" where
  "pow_start dis = \<lparr>work_value = dis 0, iterations = 0, found = False, draws = 1\<rparr>"

definition pow_search :: "('p, 'f) env \<Rightarrow> (nat \<Rightarrow> u64) \<Rightarrow> job_request \<Rightarrow> pow_state" where
  "pow_search E dis req =
     pow_loop (blake2b512 E) dis (difficulty_threshold (base_diff_64 (mp128 E) (req_difficulty req)))
       (req_root_hash req) max_iterations (pow_start dis)"

section \<open>The result\<close>

definition actual_diff_64 :: "u64 \<Rightarrow> u64" where
  "actual_diff_64 hash_rev = (if hash_rev > 0 then (- 1) div hash_rev else - 1)"

text \<open>\<open>base\<close> is the configured base difficulty.\<close>

definition pow_result ::
  "('p, 'f) env \<Rightarrow> u8 list \<Rightarrow> (nat \<Rightarrow> u64) \<Rightarrow> job_request \<Rightarrow> job_result" where
  "pow_result E base dis req =
     (let s = pow_search E dis req;
          result_work = le_bytes64 (work_value s) @ replicate 8 0
      in if found s then
           let hash_rev = hash_reversed (blake2b512 E) (work_value s) (req_root_hash req);
               actual_difficulty = bi_set (mp128 E) (ucast (actual_diff_64 hash_rev))
           in \<lparr>res_work = result_work, res_difficulty = actual_difficulty,
               res_multiplier = to_multiplier (mp128 E) (bf_ops E) actual_difficulty base\<rparr>
         else \<lparr>res_work = result_work, res_difficulty = req_difficulty req, res_multiplier = Fin 1\<rparr>)"

text \<open>The double nearest to 1.3847.\<close>

definition mock_multiplier :: double where
  "mock_multiplier = Fin (3118067202009963 / 2251799813685248)"

definition mock_result :: "('p, 'f) env \<Rightarrow> job_result result" where
  "mock_result E =
     bind_result (bi_of_string (mp128 E) ''2feaeaa000000000'') (\<lambda>w.
     bind_result (bi_of_string (mp128 E) ''0x2ffee0000000000'') (\<lambda>d.
       Inr \<lparr>res_work = w, res_difficulty = d, res_multiplier = mock_multiplier\<rparr>))"

text \<open>The text of the work: bytes 7 down to 0, two digits each.\<close>

definition byte_hex :: "u8 \<Rightarrow> string" where
  "byte_hex b = (let s = hex_string (unat b) in replicate (2 - length s) CHR ''0'' @ s)"

definition work_hex :: "u8 list \<Rightarrow> string" where
  "work_hex result_work = concat (map (\<lambda>i. byte_hex (result_work ! i)) [7, 6, 5, 4, 3, 2, 1, 0])"

definition attach_correlation_id :: "string option \<Rightarrow> ptree \<Rightarrow> ptree" where
  "attach_correlation_id ident response =
     (case ident of None \<Rightarrow> response | Some i \<Rightarrow> pt_put ''id'' (JString i) response)"

definition work_response ::
  "('p, 'f) env \<Rightarrow> string option \<Rightarrow> bool \<Rightarrow> job_result \<Rightarrow> ptree" where
  "work_response E correlation_id mock r =
     (let response = (if mock then pt_put ''testing'' (JBool True) [] else []);
          response = pt_put ''work'' (JString (work_hex (res_work r))) response;
          response = pt_put ''difficulty'' (JString (bi_to_hex (mp128 E) (res_difficulty r))) response;
          response = pt_put ''multiplier'' (JDouble (res_multiplier r)) response
      in attach_correlation_id correlation_id response)"

section \<open>Lemmas on the search\<close>

text \<open>Induction over the run of the loop: it stops, it hits, or it goes on.\<close>

lemma pow_loop_run [case_names Stop Hit Miss]:
  assumes stop: "\<And>s. found s \<or> limit \<le> iterations s \<Longrightarrow> P s s"
    and hit: "\<And>s. \<not> found s \<Longrightarrow> iterations s < limit \<Longrightarrow> hash_reversed blake (work_value s) r < t \<Longrightarrow>
      P s (s\<lparr>found := True\<rparr>)"
    and miss: "\<And>s s'. \<not> found s \<Longrightarrow> iterations s < limit \<Longrightarrow> \<not> hash_reversed blake (work_value s) r < t \<Longrightarrow>
      P (pow_next dis s) s' \<Longrightarrow> P s s'"
  shows "P s (pow_loop blake dis t r limit s)"
proof (induction blake\<equiv>blake dis\<equiv>dis t\<equiv>t r\<equiv>r limit\<equiv>limit s rule: pow_loop.induct)
  case (1 s)
  then show ?case
    using stop hit miss by (subst pow_loop.simps) (auto simp: not_less)
qed

lemma pow_loop_step:
  "\<not> found s \<Longrightarrow> iterations s < limit \<Longrightarrow> hash_reversed blake (work_value s) r < t \<Longrightarrow>
   pow_loop blake dis t r limit s = s\<lparr>found := True\<rparr>"
  "\<not> found s \<Longrightarrow> iterations s < limit \<Longrightarrow> \<not> hash_reversed blake (work_value s) r < t \<Longrightarrow>
   pow_loop blake dis t r limit s = pow_loop blake dis t r limit (pow_next dis s)"
  by (simp_all add: pow_loop.simps [of blake dis t r limit s])

lemma pow_loop_found:
  "\<not> found s \<longrightarrow> found (pow_loop blake dis t r limit s) \<longrightarrow>
   hash_reversed blake (work_value (pow_loop blake dis t r limit s)) r < t"
  by (rule pow_loop_run [where P = "\<lambda>s s'. \<not> found s \<longrightarrow> found s' \<longrightarrow> hash_reversed blake (work_value s') r < t"])
    auto

lemma next_iteration: "i < (l :: u64) \<Longrightarrow> i \<le> i + 1 \<and> i + 1 \<le> l"
  using unat_plus_1 [of i l] by (auto simp: word_less_nat_alt word_le_nat_alt)

lemma pow_loop_iterations:
  "iterations s \<le> limit \<longrightarrow> (let s' = pow_loop blake dis t r limit s in
     iterations s \<le> iterations s' \<and> iterations s' \<le> limit \<and> (\<not> found s' \<longrightarrow> iterations s' = limit))"
  unfolding Let_def
  by (rule pow_loop_run [where P = "\<lambda>s s'. iterations s \<le> limit \<longrightarrow> iterations s \<le> iterations s' \<and>
        iterations s' \<le> limit \<and> (\<not> found s' \<longrightarrow> iterations s' = limit)"])
    (auto dest: next_iteration intro: order_trans)




lemma unat_minus_1: "unat (- 1 :: u64) = 2 ^ 64 - 1"
  by (simp add: unsigned_minus_1_eq_mask mask_eq_exp_minus_1)

lemma threshold_bound:
  assumes "hr < difficulty_threshold b"
  shows "0 < b" and "b \<le> actual_diff_64 hr" and "0 < actual_diff_64 hr"
proof -
  show b: "0 < b" using assms by (auto simp: difficulty_threshold_def split: if_splits)
  have hr: "unat hr < (2 ^ 64 - 1) div unat b"
    using assms b by (simp add: difficulty_threshold_def word_less_nat_alt unat_div unat_minus_1)
  have "unat hr * unat b \<le> 2 ^ 64 - 1"
    using hr by (meson less_or_eq_imp_le le_trans mult_le_mono1 div_times_less_eq_dividend)
  then show le: "b \<le> actual_diff_64 hr"
    using unsigned_less [of b, where 'a = nat]
    by (auto simp: actual_diff_64_def word_le_nat_alt unat_div word_less_nat_alt unat_minus_1 less_eq_div_iff_mult_less_eq mult.commute)
  show "0 < actual_diff_64 hr" using b le by (rule less_le_trans)
qed

text \<open>Text of bytes.\<close>

lemma hex_value_append: "hex_value (xs @ ys) = hex_value xs * 16 ^ length ys + hex_value ys"
  by (simp add: hex_value_def)

lemma length_byte_hex: "length (byte_hex b) = 2"
  using length_hex_string [of "unat b" 2] unsigned_less [of b, where 'a = nat]
  by (simp add: byte_hex_def Let_def)

lemma hex_value_byte_hex: "hex_value (byte_hex b) = unat b"
  by (simp add: byte_hex_def Let_def)

lemma is_hex_byte_hex: "c \<in> set (byte_hex b) \<Longrightarrow> is_hex c"
  by (auto simp: byte_hex_def Let_def dest: hex_string_hex split: if_splits)

lemma length_bytes_hex: "length (concat (map byte_hex bs)) = 2 * length bs"
  by (induction bs) (simp_all add: length_byte_hex)

lemma be_value_Cons: "be_value (b # bs) = unat b * 256 ^ length bs + be_value bs"
  by (simp add: be_value_def)

lemma be_value_append: "be_value (xs @ ys) = 256 ^ length ys * be_value xs + be_value ys"
  by (simp add: be_value_def)

lemma byte_hex_0: "byte_hex 0 = ''00''"
  by (simp add: byte_hex_def Let_def hex_string.simps [of 0])

lemma hex_value_bytes: "hex_value (concat (map byte_hex bs)) = be_value bs"
proof (induction bs)
  case Nil
  then show ?case by (simp add: hex_value_def be_value_def)
next
  case (Cons b bs)
  have "(16 :: nat) ^ (2 * length bs) = 256 ^ length bs" by (simp add: power_mult)
  then show ?case using Cons
    by (simp add: hex_value_append hex_value_byte_hex be_value_Cons length_bytes_hex)
qed

lemma work_hex_eq: "8 \<le> length w \<Longrightarrow> work_hex w = concat (map byte_hex (rev (take 8 w)))"
proof -
  assume "8 \<le> length w"
  then have "take 8 w = map ((!) w) [0..<8]" by (intro nth_equalityI) auto
  then have "rev (take 8 w) = map ((!) w) [7, 6, 5, 4, 3, 2, 1, 0]" by (simp add: upt8)
  then show ?thesis by (simp add: work_hex_def)
qed

lemma work_hex_value:
  "8 \<le> length w \<Longrightarrow> length (work_hex w) = 16 \<and> hex_value (work_hex w) = be_value (rev (take 8 w))
    \<and> (\<forall>c \<in> set (work_hex w). is_hex c)"
  by (auto simp: work_hex_eq length_bytes_hex hex_value_bytes is_hex_byte_hex)

lemma pow_loop_zero: "\<not> found s \<longrightarrow> \<not> found (pow_loop blake dis 0 r limit s)"
  by (rule pow_loop_run [where P = "\<lambda>s s'. \<not> found s \<longrightarrow> \<not> found s'"]) auto

lemma pow_search_not_found:
  "\<not> found (pow_search E dis req) \<Longrightarrow> iterations (pow_search E dis req) = max_iterations \<and>
   res_difficulty (pow_result E base dis req) = req_difficulty req \<and>
   res_multiplier (pow_result E base dis req) = Fin 1"
  using pow_loop_iterations [of "pow_start dis" max_iterations]
  by (simp add: pow_search_def pow_result_def pow_start_def Let_def)

text \<open>The constants of the mock parse, whatever the library does with other texts.\<close>

lemma mock_result_Inr:
  assumes "env_ok E"
  shows "\<exists>d. mock_result E = Inr \<lparr>res_work = bi_set (mp128 E) 0x2feaeaa000000000, res_difficulty = d,
      res_multiplier = mock_multiplier\<rparr>"
proof -
  let ?s = "''2feaeaa000000000''" and ?t = "''2ffee0000000000''"
  note mp = env_okD(1) [OF assms]
  have hex: "\<forall>c \<in> set ?s. is_hex c" "\<forall>c \<in> set ?t. is_hex c" "hex_value ?s = 0x2feaeaa000000000"
    by (simp_all add: is_hex_def hex_value_def hex_digit_def)
  have w: "bi_of_string (mp128 E) ?s = Inr (bi_set (mp128 E) 0x2feaeaa000000000)"
    using multiprecision.from_hex_digits [OF mp _ hex(1)] hex(3) by (simp add: bi_of_string_def)
  obtain d where "bi_of_string (mp128 E) (''0x'' @ ?t) = Inr d"
    using multiprecision.extract_prefixed [OF mp _ hex(2)]
    by (simp add: bi_of_string_def bi_from_hex_def)
  then show ?thesis using w by (simp add: mock_result_def)
qed

section \<open>A small search, for witnesses\<close>

text \<open>A digest that is zero exactly for the work 3; the search for difficulty 1 starts at 1.\<close>

definition demo_digest :: "u8 list \<Rightarrow> u8 list" where
  "demo_digest m = (if hd m = 3 then replicate 64 0 else replicate 64 255)"

definition demo_pow_env :: "(demo_request, double) env" where
  "demo_pow_env = demo_env [] demo_digest"

definition demo_req :: "128 word \<Rightarrow> job_request" where
  "demo_req d = \<lparr>req_root_hash = replicate 32 9, req_difficulty = bi_set ref128 d, req_multiplier = Fin 1\<rparr>"

lemma demo_pow_env_simps [simp]:
  "env_ok demo_pow_env" "mp128 demo_pow_env = ref128" "mp256 demo_pow_env = ref256"
  "blake2b512 demo_pow_env m = demo_digest m"
  by (simp_all add: demo_pow_env_def demo_env_ok) (simp_all add: demo_env_def demo_digest_def)

lemma hd_pow_input: "hd (pow_input w r) = ucast w"
  by (simp add: pow_input_def le_bytes64_def upt8)

lemma replicate8: "replicate 8 x = [x, x, x, x, x, x, x, x]"
  by (simp add: numeral_eq_Suc)

lemma demo_hash: "hash_reversed demo_digest w r = (if (ucast w :: u8) = 3 then 0 else - 1)"
proof -
  have "unat (hash_reversed demo_digest w r) = be_value (take 8 (demo_digest (pow_input w r)))"
    by (simp add: hash_reversed_def Let_def byte_reverse_value demo_digest_def)
  also have "\<dots> = unat (if (ucast w :: u8) = 3 then 0 else - 1 :: u64)"
    by (simp add: demo_digest_def hd_pow_input be_value_def unat_minus_1 replicate8)
  finally show ?thesis by (rule unsigned_word_eqI)
qed

lemma demo_threshold: "difficulty_threshold (base_diff_64 ref128 (bi_set ref128 1)) = - 1"
  by (simp add: base_diff_64_def difficulty_threshold_def)

lemma demo_search:
  "pow_search demo_pow_env (\<lambda>_. 1) (demo_req 1) = \<lparr>work_value = 3, iterations = 2, found = True, draws = 1\<rparr>"
proof -
  have blake: "blake2b512 demo_pow_env = demo_digest" by (rule ext) simp
  have "(0 :: u64) < - 1" by (simp add: word_less_nat_alt unat_minus_1)
  then show ?thesis
    by (simp add: pow_search_def blake demo_req_def demo_threshold pow_start_def max_iterations_def
        pow_loop_step demo_hash pow_next_def)
qed

lemma base_diff_64_small:
  assumes "unat (bi_number M d) < 2 ^ 64"
  shows "unat (base_diff_64 M d) = unat (bi_number M d)"
proof -
  have "(0xFFFFFFFFFFFFFFFF :: 128 word) = mask 64" by (simp add: mask_eq_exp_minus_1)
  then have "base_diff_64 M d = ucast (take_bit 64 (bi_number M d))"
    by (simp add: base_diff_64_def take_bit_eq_mask)
  then show ?thesis using assms by (simp add: unsigned_ucast_eq unsigned_take_bit_eq take_bit_nat_eq_self)
qed

section \<open>Properties\<close>

text \<open>
  C8: work that is reported as found is valid. The first eight bytes of the digest of the work and
  the root, read most significant byte first, are below the threshold; the work in the result is
  the one that was tested; the assertion in \<open>to_multiplier\<close> holds for the difficulty in the result;
  and that difficulty, a quotient of 64 bit numbers, is at least the low 64 bits of the requested one.
  So a difficulty that fits 64 bits is reached, and the result of a request for more always reports
  less than was asked for, although the search says that it found the work.
\<close>

theorem pow_sound:
  assumes "env_ok E" and "found (pow_search E dis req)"
  shows "be_value (take 8 (blake2b512 E (pow_input (work_value (pow_search E dis req)) (req_root_hash req))))
      < unat (difficulty_threshold (base_diff_64 (mp128 E) (req_difficulty req)))
    \<and> take 8 (res_work (pow_result E base dis req)) = le_bytes64 (work_value (pow_search E dis req))
    \<and> unat (base_diff_64 (mp128 E) (req_difficulty req))
        \<le> unat (bi_number (mp128 E) (res_difficulty (pow_result E base dis req)))
    \<and> (if unat (bi_number (mp128 E) (req_difficulty req)) < 2 ^ 64
       then bi_number (mp128 E) (req_difficulty req) \<le> bi_number (mp128 E) (res_difficulty (pow_result E base dis req))
       else bi_number (mp128 E) (res_difficulty (pow_result E base dis req)) < bi_number (mp128 E) (req_difficulty req))
    \<and> to_multiplier_pre (mp128 E) (res_difficulty (pow_result E base dis req))"
proof -
  let ?s = "pow_search E dis req" and ?b = "base_diff_64 (mp128 E) (req_difficulty req)"
  let ?hr = "hash_reversed (blake2b512 E) (work_value ?s) (req_root_hash req)"
  have hit: "?hr < difficulty_threshold ?b"
    using pow_loop_found assms(2) by (simp add: pow_search_def pow_start_def)
  note env = env_okD [OF assms(1)]
  have "unat ?hr = be_value (take 8 (blake2b512 E (pow_input (work_value ?s) (req_root_hash req))))"
    by (simp add: hash_reversed_def Let_def byte_reverse_value env(3))
  moreover have "bi_number (mp128 E) (res_difficulty (pow_result E base dis req)) = ucast (actual_diff_64 ?hr)"
    using assms(2) multiprecision.number_set [OF env(1)] by (simp add: pow_result_def Let_def)
  moreover have "unat (ucast (actual_diff_64 ?hr) :: 128 word) = unat (actual_diff_64 ?hr)"
    using unsigned_less [of "actual_diff_64 ?hr", where 'a = nat]
    by (simp add: unsigned_ucast_eq take_bit_nat_eq_self)
  ultimately have result: "?hr < difficulty_threshold ?b"
      "unat ?hr = be_value (take 8 (blake2b512 E (pow_input (work_value ?s) (req_root_hash req))))"
      "unat (bi_number (mp128 E) (res_difficulty (pow_result E base dis req))) = unat (actual_diff_64 ?hr)"
      "unat ?b \<le> unat (actual_diff_64 ?hr)" "0 < actual_diff_64 ?hr"
    using hit threshold_bound [OF hit] by (simp_all add: word_le_nat_alt)
  have small: "unat (actual_diff_64 ?hr) < 2 ^ 64"
    using unsigned_less [of "actual_diff_64 ?hr", where 'a = nat] by simp
  have "if unat (bi_number (mp128 E) (req_difficulty req)) < 2 ^ 64
       then bi_number (mp128 E) (req_difficulty req) \<le> bi_number (mp128 E) (res_difficulty (pow_result E base dis req))
       else bi_number (mp128 E) (res_difficulty (pow_result E base dis req)) < bi_number (mp128 E) (req_difficulty req)"
    using result(4) small base_diff_64_small [of "mp128 E" "req_difficulty req"]
    unfolding word_less_nat_alt word_le_nat_alt result(3) by (split if_split) linarith
  moreover have "to_multiplier_pre (mp128 E) (res_difficulty (pow_result E base dis req))"
    using result(3) result(5) [unfolded word_less_nat_alt] by (simp add: to_multiplier_pre_def word_less_nat_alt)
  ultimately show ?thesis
    using result assms(2) by (simp add: pow_result_def Let_def word_less_nat_alt)
qed

theorem pow_sound_witness:
  "env_ok demo_pow_env \<and> found (pow_search demo_pow_env (\<lambda>_. 1) (demo_req 1))
   \<and> to_multiplier_pre ref128 (res_difficulty (pow_result demo_pow_env (bi_set ref128 1) (\<lambda>_. 1) (demo_req 1)))"
  using pow_sound [of demo_pow_env "\<lambda>_. 1" "demo_req 1" "bi_set ref128 1"] by (simp add: demo_search)



text \<open>
  The search always ends, after at most ten billion hashes. When it ends without success the
  result still claims the requested difficulty and the multiplier 1.
\<close>

theorem pow_exhausted:
  assumes "\<not> found (pow_search E dis req)"
  shows "iterations (pow_search E dis req) = max_iterations
    \<and> res_difficulty (pow_result E base dis req) = req_difficulty req
    \<and> res_multiplier (pow_result E base dis req) = Fin 1"
  using assms by (rule pow_search_not_found)

lemma demo_unsolvable: "\<not> found (pow_search demo_pow_env dis (demo_req (2 ^ 64)))"
  using pow_loop_zero
  by (simp add: pow_search_def pow_start_def base_diff_64_def difficulty_threshold_def demo_req_def)

theorem pow_exhausted_witness:
  "iterations (pow_search demo_pow_env (\<lambda>_. 1) (demo_req (2 ^ 64))) = 10000000000"
  using pow_exhausted [OF demo_unsolvable [of "\<lambda>_. 1"]] by (simp add: max_iterations_def)

text \<open>
  Only the low 64 bits of the difficulty count. A difficulty whose low 64 bits are zero, such
  as \<open>2 ^ 64\<close>, has the threshold 0: no work is ever found, and the answer claims the difficulty.
\<close>

theorem high_difficulty_unsolvable:
  assumes "bi_number (mp128 E) (req_difficulty req) AND 0xFFFFFFFFFFFFFFFF = 0"
  shows "\<not> found (pow_search E dis req)
    \<and> res_difficulty (pow_result E base dis req) = req_difficulty req"
proof -
  have "\<not> found (pow_search E dis req)"
    using assms pow_loop_zero
    by (simp add: pow_search_def pow_start_def base_diff_64_def difficulty_threshold_def)
  then show ?thesis using pow_search_not_found by blast
qed

theorem high_difficulty_unsolvable_witness:
  "\<not> found (pow_search demo_pow_env (\<lambda>_. 7) (demo_req (2 ^ 64)))"
  using high_difficulty_unsolvable [of demo_pow_env "demo_req (2 ^ 64)" "\<lambda>_. 7"] by (simp add: demo_req_def)

text \<open>
  The work in a response is the number that was found, as sixteen hexadecimal digits, most
  significant first.
\<close>

theorem work_hex_is_work:
  "length (work_hex (res_work (pow_result E base dis req))) = 16
   \<and> list_all is_hex (work_hex (res_work (pow_result E base dis req)))
   \<and> hex_value (work_hex (res_work (pow_result E base dis req))) = unat (work_value (pow_search E dis req))"
proof -
  let ?w = "le_bytes64 (work_value (pow_search E dis req)) @ replicate 8 0"
  have w: "res_work (pow_result E base dis req) = ?w"
    by (simp add: pow_result_def Let_def)
  have "be_value (rev (take 8 ?w)) = unat (work_value (pow_search E dis req))"
    by (simp add: be_value_def le_bytes64_value)
  then show ?thesis using work_hex_value [of ?w] unfolding w by (auto simp: list_all_iff)
qed

text \<open>
  The mock, which puts the number \<open>0x2feaeaa000000000\<close> into the result, is answered with the
  work zero: the text is taken from the upper eight bytes of the big-endian array, the number is in
  the lower eight.
\<close>

theorem mock_work_is_zero:
  assumes "env_ok E"
  shows "\<exists>r. mock_result E = Inr r \<and> bi_number (mp128 E) (res_work r) = 0x2feaeaa000000000
    \<and> work_hex (res_work r) = replicate 16 CHR ''0''"
proof -
  let ?w = "bi_set (mp128 E) 0x2feaeaa000000000"
  note mp = env_okD(1) [OF assms]
  have len: "length ?w = 16" using multiprecision.length_set [OF mp] by simp
  have "be_value ?w = 256 ^ 8 * be_value (take 8 ?w) + be_value (drop 8 ?w)"
    using be_value_append [of "take 8 ?w" "drop 8 ?w"] len by simp
  then have "be_value (take 8 ?w) = 0"
    using multiprecision.be_value_set [OF mp, of "0x2feaeaa000000000"] by simp
  then have "take 8 ?w = replicate 8 0"
    by (intro be_value_inject) (simp_all add: len be_value_def)
  then have "work_hex ?w = replicate 16 CHR ''0''"
    by (simp add: work_hex_eq len byte_hex_0 numeral_eq_Suc)
  then show ?thesis
    using mock_result_Inr [OF assms] multiprecision.number_set [OF mp] by auto
qed

theorem mock_work_is_zero_witness:
  "\<exists>r. mock_result demo_pow_env = Inr r \<and> work_hex (res_work r) = replicate 16 CHR ''0''"
  using mock_work_is_zero [of demo_pow_env] by auto

end
