(* ===== verification/Transitions.thy ===== *)
theory Transitions
  imports Prelude
begin

text \<open>
  What the state machines of the development share: the contract of a reachability predicate, and the
  ways of arguing about it (invariants, invariants while a bound holds, coming to rest), and the
  simulation of one machine by another.
\<close>

section \<open>Reachable states\<close>

locale transitions =
  fixes initial :: "'s \<Rightarrow> bool" and step :: "'s \<Rightarrow> 's \<Rightarrow> bool" and reach :: "'s \<Rightarrow> bool"
  assumes reach_initial: "initial s \<Longrightarrow> reach s"
    and reach_step: "reach s \<Longrightarrow> step s s' \<Longrightarrow> reach s'"
    and reach_induct [consumes 1, case_names at_start by_step]: "reach s \<Longrightarrow> (\<And>s. initial s \<Longrightarrow> P s) \<Longrightarrow>
      (\<And>s s'. reach s \<Longrightarrow> P s \<Longrightarrow> step s s' \<Longrightarrow> P s') \<Longrightarrow> P s"
begin

lemma reach_run: "step\<^sup>*\<^sup>* s s' \<Longrightarrow> reach s \<Longrightarrow> reach s'"
  by (induction rule: rtranclp_induct) (auto intro: reach_step)

lemma run_to: "reach s \<Longrightarrow> \<exists>s0. initial s0 \<and> step\<^sup>*\<^sup>* s0 s"
proof (induction rule: reach_induct)
  case (by_step s s')
  then show ?case using rtranclp.rtrancl_into_rtrancl by metis
qed blast

lemma invariant_holds:
  assumes "reach s" and "\<And>s. initial s \<Longrightarrow> I s" and "\<And>s s'. I s \<Longrightarrow> step s s' \<Longrightarrow> I s'"
  shows "I s"
  using assms(1) by (induction rule: reach_induct) (use assms(2,3) in blast)+

text \<open>An invariant that needs a bound \<open>B\<close>, which once broken stays so.\<close>

lemma bounded_invariant_holds:
  assumes "reach s" and "B s" and "\<And>s s'. step s s' \<Longrightarrow> B s' \<Longrightarrow> B s"
    and "\<And>s. initial s \<Longrightarrow> I s" and "\<And>s s'. reach s \<Longrightarrow> B s' \<Longrightarrow> I s \<Longrightarrow> step s s' \<Longrightarrow> I s'"
  shows "I s"
  using assms(1,2)
proof (induction rule: reach_induct)
  case (at_start s)
  then show ?case by (intro assms(4))
next
  case (by_step s s')
  then have "B s" using assms(3) by blast
  then show ?case using by_step assms(5) by blast
qed

text \<open>
  The steps of one kind, \<open>sub\<close>, come to an end when each of them makes a measure smaller; what they keep
  still holds there.
\<close>

lemma comes_to_rest:
  fixes m :: "'s \<Rightarrow> nat"
  assumes "reach s" and "P s"
    and "\<And>s s'. reach s \<Longrightarrow> P s \<Longrightarrow> sub s s' \<Longrightarrow> step s s' \<and> P s' \<and> m s' < m s"
  shows "\<exists>s'. reach s' \<and> P s' \<and> (\<forall>s''. \<not> sub s' s'')"
  using assms(1,2)
proof (induction "m s" arbitrary: s rule: less_induct)
  case less
  show ?case
  proof (cases "\<exists>s'. sub s s'")
    case True
    then obtain s' where "step s s'" "P s'" "m s' < m s" using assms(3) less.prems by blast
    then show ?thesis using less.hyps less.prems(1) reach_step by blast
  qed (use less.prems in blast)
qed

end

section \<open>Simulation\<close>

text \<open>
  Each step that a reachable concrete state can take is a step of the specification between the
  abstractions, or leaves the abstraction as it is. Then so does each run, and what holds
  in every state of the specification holds of the abstraction of every reachable state.
\<close>

locale simulation = transitions initial step reach
  for initial :: "'c \<Rightarrow> bool" and step :: "'c \<Rightarrow> 'c \<Rightarrow> bool" and reach :: "'c \<Rightarrow> bool" +
  fixes abstract_init :: 'a and abstract_step :: "'a \<Rightarrow> 'a \<Rightarrow> bool" and abstraction :: "'c \<Rightarrow> 'a"
  assumes abstracts_initial: "initial s \<Longrightarrow> abstraction s = abstract_init"
    and simulates: "reach s \<Longrightarrow> step s s' \<Longrightarrow> abstract_step\<^sup>=\<^sup>= (abstraction s) (abstraction s')"
begin

lemma run_refines: "reach s \<Longrightarrow> abstract_step\<^sup>*\<^sup>* abstract_init (abstraction s)"
proof (induction rule: reach_induct)
  case (at_start s)
  then show ?case by (simp add: abstracts_initial)
next
  case (by_step s s')
  then have "abstract_step\<^sup>=\<^sup>= (abstraction s) (abstraction s')" by (intro simulates)
  then show ?case using by_step.IH by (auto elim: rtranclp.rtrancl_into_rtrancl)
qed

lemma invariant_transfer:
  assumes "reach s" and "I abstract_init" and "\<And>a b. I a \<Longrightarrow> abstract_step a b \<Longrightarrow> I b"
  shows "I (abstraction s)"
  using run_refines [OF assms(1)] by (induction rule: rtranclp_induct) (use assms(2,3) in blast)+

end

end
