(* ===== verification/Devices.thy ===== *)
theory Devices
  imports Config Transitions
begin

text \<open>
  \<open>src/workserver/work_handler.hpp\<close>: \<open>registered_device\<close> with its atomic busy flag, and
  \<open>aquire_first_available_device\<close>, first as the sequential function and then as the pool's threads
  run it: each exchange of a flag is one atomic step, and the threads interleave freely.

  The comment in \<open>handle_request_async\<close> claims that a device is always available, because the pool
  has as many threads as there are devices. A thread looks at the flags one after the other while
  other threads take and release devices behind its back, so this is not immediate; it is the
  property \<open>device_always_available\<close>, which holds only as long as no exception unwinds a thread past
  its release.
\<close>

section \<open>The busy flag\<close>

datatype driver = cpp_driver | opencl_driver

record registered_device =
  dev_config :: device_config
  dev_driver :: driver
  busy :: bool

definition register_device :: "device_config \<Rightarrow> registered_device" where
  "register_device device =
     \<lparr>dev_config = device,
      dev_driver = (case dev_type device of cpu \<Rightarrow> cpp_driver | gpu \<Rightarrow> opencl_driver),
      busy = False\<rparr>"

text \<open>\<open>busy.exchange\<close>: the previous value and the changed device.\<close>

definition try_aquire :: "registered_device \<Rightarrow> bool \<times> registered_device" where
  "try_aquire d = (busy d, d\<lparr>busy := True\<rparr>)"

definition release :: "registered_device \<Rightarrow> bool \<times> registered_device" where
  "release d = (busy d, d\<lparr>busy := False\<rparr>)"

text \<open>\<open>std::find_if\<close> with the predicate \<open>!driver.try_aquire ()\<close>, which changes what it looks at.\<close>

fun find_available :: "registered_device list \<Rightarrow> nat option \<times> registered_device list" where
  "find_available [] = (None, [])"
| "find_available (d # ds) =
     (let (was_busy, d') = try_aquire d in
      if \<not> was_busy then (Some 0, d' # ds)
      else let (it, ds') = find_available ds in (map_option Suc it, d' # ds'))"

definition aquire_first_available_device ::
  "registered_device list \<Rightarrow> nat result \<times> registered_device list" where
  "aquire_first_available_device ds =
     (case find_available ds of
        (Some it, ds') \<Rightarrow> (Inr it, ds')
      | (None, ds') \<Rightarrow> (Inl ''No available devices'', ds'))"

definition release_device :: "nat \<Rightarrow> registered_device list \<Rightarrow> registered_device list" where
  "release_device i ds = ds[i := snd (release (ds ! i))]"

lemma set_busy_same [simp]: "busy d \<Longrightarrow> d\<lparr>busy := True\<rparr> = d"
  by simp

lemma set_free_same [simp]: "\<not> busy d \<Longrightarrow> d\<lparr>busy := False\<rparr> = d"
  by simp

lemma find_available_Some:
  "find_available ds = (Some i, ds') \<Longrightarrow>
   i < length ds \<and> \<not> busy (ds ! i) \<and> (\<forall>k < i. busy (ds ! k)) \<and> ds' = ds[i := (ds ! i)\<lparr>busy := True\<rparr>]"
proof (induction ds arbitrary: i ds')
  case (Cons d ds)
  show ?case
  proof (cases "busy d")
    case True
    then obtain j es where "find_available ds = (Some j, es)" and "i = Suc j" and ds': "ds' = d\<lparr>busy := True\<rparr> # es"
      using Cons.prems by (auto simp: try_aquire_def split: prod.splits)
    moreover have "d\<lparr>busy := True\<rparr> = d" using True by simp
    ultimately show ?thesis using Cons.IH True by (auto simp: less_Suc_eq_0_disj)
  next
    case False
    then show ?thesis using Cons.prems by (simp add: try_aquire_def)
  qed
qed simp

lemma find_available_None:
  "find_available ds = (None, ds') \<longleftrightarrow> (\<forall>d \<in> set ds. busy d) \<and> ds' = ds"
proof (induction ds arbitrary: ds')
  case (Cons d ds)
  obtain it es where find: "find_available ds = (it, es)" by (cases "find_available ds")
  have same: "d\<lparr>busy := True\<rparr> = d" if "busy d" using that by simp
  show ?case
  proof (cases "busy d")
    case True
    then show ?thesis using Cons.IH [of es] Cons.IH [of ds] find same by (cases it) (auto simp: try_aquire_def)
  qed (simp add: try_aquire_def)
qed auto

section \<open>Threads that acquire and release\<close>

text \<open>
  What a thread of the pool is doing: waiting for a task, looking at device \<open>i\<close> (which is past the
  end when it is the number of devices), using a device, or throwing \<open>No available devices\<close>.
\<close>

datatype thread_pc = Waiting | Scanning nat | Holding nat | Throwing

record pool_state =
  devs :: "registered_device list"
  pcs :: "nat \<Rightarrow> thread_pc"

definition pool_init :: "device_config list \<Rightarrow> pool_state" where
  "pool_init configs = \<lparr>devs = map register_device configs, pcs = (\<lambda>_. Waiting)\<rparr>"

text \<open>
  One atomic step of thread \<open>t\<close>; the pool has \<open>n\<close> threads. The two handlers at the end of the posted
  function are steps as well: an exception raised while a device is in use (\<open>fails\<close> says whether one
  can be) unwinds past \<open>device.release ()\<close>, and an exception of the acquisition itself is answered;
  both leave the thread waiting for its next task.
\<close>

inductive pool_step :: "bool \<Rightarrow> nat \<Rightarrow> pool_state \<Rightarrow> pool_state \<Rightarrow> bool" for fails n where
  begin_scan: "t < n \<Longrightarrow> pcs s t = Waiting \<Longrightarrow>
    pool_step fails n s (s\<lparr>pcs := (pcs s)(t := Scanning 0)\<rparr>)"
| scan_hit: "t < n \<Longrightarrow> pcs s t = Scanning i \<Longrightarrow> i < length (devs s) \<Longrightarrow>
    try_aquire (devs s ! i) = (False, d') \<Longrightarrow>
    pool_step fails n s (s\<lparr>devs := (devs s)[i := d'], pcs := (pcs s)(t := Holding i)\<rparr>)"
| scan_miss: "t < n \<Longrightarrow> pcs s t = Scanning i \<Longrightarrow> i < length (devs s) \<Longrightarrow>
    try_aquire (devs s ! i) = (True, d') \<Longrightarrow>
    pool_step fails n s (s\<lparr>devs := (devs s)[i := d'], pcs := (pcs s)(t := Scanning (Suc i))\<rparr>)"
| scan_end: "t < n \<Longrightarrow> pcs s t = Scanning i \<Longrightarrow> \<not> i < length (devs s) \<Longrightarrow>
    pool_step fails n s (s\<lparr>pcs := (pcs s)(t := Throwing)\<rparr>)"
| finish: "t < n \<Longrightarrow> pcs s t = Holding i \<Longrightarrow>
    pool_step fails n s (s\<lparr>devs := release_device i (devs s), pcs := (pcs s)(t := Waiting)\<rparr>)"
| unwind: "fails \<Longrightarrow> t < n \<Longrightarrow> pcs s t = Holding i \<Longrightarrow>
    pool_step fails n s (s\<lparr>pcs := (pcs s)(t := Waiting)\<rparr>)"
| caught: "t < n \<Longrightarrow> pcs s t = Throwing \<Longrightarrow>
    pool_step fails n s (s\<lparr>pcs := (pcs s)(t := Waiting)\<rparr>)"

text \<open>The pool is built with one thread per configured device.\<close>

inductive pool_reachable :: "bool \<Rightarrow> device_config list \<Rightarrow> pool_state \<Rightarrow> bool" for fails configs where
  pool_start: "pool_reachable fails configs (pool_init configs)"
| pool_next: "pool_reachable fails configs s \<Longrightarrow> pool_step fails (length configs) s s' \<Longrightarrow>
    pool_reachable fails configs s'"

section \<open>The invariant\<close>

fun at_least :: "nat \<Rightarrow> thread_pc \<Rightarrow> bool" where
  "at_least i (Scanning j) = (i \<le> j)"
| "at_least i (Holding j) = (i \<le> j)"
| "at_least i _ = False"

definition beyond :: "nat \<Rightarrow> nat \<Rightarrow> (nat \<Rightarrow> thread_pc) \<Rightarrow> nat set" where
  "beyond n i p = {t. t < n \<and> at_least i (p t)}"

text \<open>
  What holds with exceptions too: who holds a device is alone with it, and its flag is set.
\<close>

definition pool_lock :: "nat \<Rightarrow> pool_state \<Rightarrow> bool" where
  "pool_lock n s \<longleftrightarrow> length (devs s) = n
     \<and> (\<forall>t i. pcs s t = Holding i \<longrightarrow> t < n \<and> i < n \<and> busy (devs s ! i))
     \<and> (\<forall>t u i. pcs s t = Holding i \<longrightarrow> pcs s u = Holding i \<longrightarrow> t = u)"

text \<open>
  Without exceptions the flags also say who holds what, and at most \<open>n - i\<close> threads have got to device \<open>i\<close> or further:
  a thread passes device \<open>i\<close> only while another one holds it, which therefore stays behind.
\<close>

definition pool_inv :: "nat \<Rightarrow> pool_state \<Rightarrow> bool" where
  "pool_inv n s \<longleftrightarrow> pool_lock n s
     \<and> (\<forall>i < n. busy (devs s ! i) \<longrightarrow> (\<exists>t < n. pcs s t = Holding i))
     \<and> (\<forall>t. pcs s t \<noteq> Throwing)
     \<and> (\<forall>i \<le> n. card (beyond n i (pcs s)) \<le> n - i)"

lemma finite_beyond [simp]: "finite (beyond n i p)"
  by (simp add: beyond_def)

lemma card_beyond_mono:
  "(\<And>u. u < n \<Longrightarrow> at_least i (q u) \<Longrightarrow> at_least i (p u)) \<Longrightarrow> card (beyond n i q) \<le> card (beyond n i p)"
  by (rule card_mono) (auto simp: beyond_def)

lemma card_beyond_0: "card (beyond n 0 p) \<le> n"
  using card_mono [of "{..<n}" "beyond n 0 p"] by (auto simp: beyond_def)

lemma card_beyond_pass:
  assumes "p t = Scanning i" and "t < n" and "p u = Holding i" and "u < n"
    and "card (beyond n i p) \<le> n - i" and "i < n"
  shows "card (beyond n (Suc i) (p(t := Scanning (Suc i)))) \<le> n - Suc i"
proof -
  have sub: "beyond n (Suc i) (p(t := Scanning (Suc i))) \<subseteq> beyond n i p - {u}"
  proof
    fix v assume "v \<in> beyond n (Suc i) (p(t := Scanning (Suc i)))"
    then show "v \<in> beyond n i p - {u}"
      using assms by (cases "p v") (auto simp: beyond_def split: if_splits)
  qed
  have "u \<in> beyond n i p" using assms by (simp add: beyond_def)
  then have "card (beyond n i p - {u}) = card (beyond n i p) - 1" by simp
  then show ?thesis using card_mono [OF _ sub] assms by simp
qed

lemma pool_lock_init: "pool_lock (length configs) (pool_init configs)"
  by (simp add: pool_lock_def pool_init_def)

lemma pool_lock_step:
  assumes "pool_step fails n s s'" and "pool_lock n s"
  shows "pool_lock n s'"
  using assms
proof (induction rule: pool_step.induct)
  case (scan_hit t s i d')
  then have "\<not> busy (devs s ! i)" "busy d'" by (auto simp: try_aquire_def)
  then show ?case using scan_hit
    by (auto simp: pool_lock_def nth_list_update split: if_splits)
next
  case (scan_miss t s i d')
  then have "(devs s)[i := d'] = devs s" by (auto simp: try_aquire_def)
  then show ?case using scan_miss by (auto simp: pool_lock_def split: if_splits)
next
  case (finish t s i)
  have "busy (release_device i (devs s) ! j)" if "((pcs s)(t := Waiting)) v = Holding j" for v j
  proof -
    have "pcs s v = Holding j" "v \<noteq> t" using that by (auto split: if_splits)
    then have "j \<noteq> i" "busy (devs s ! j)" using finish by (auto simp: pool_lock_def)
    then show ?thesis by (simp add: release_device_def)
  qed
  then show ?case using finish
    by (auto simp: pool_lock_def release_device_def split: if_splits)
qed (auto simp: pool_lock_def split: if_splits)

lemma pool_inv_init: "pool_inv (length configs) (pool_init configs)"
  using pool_lock_init [of configs]
  by (auto simp: pool_inv_def pool_init_def register_device_def beyond_def)

lemma pool_inv_lock: "pool_inv n s \<Longrightarrow> pool_lock n s"
  by (simp add: pool_inv_def)

lemma pool_inv_card: "pool_inv n s \<Longrightarrow> i \<le> n \<Longrightarrow> card (beyond n i (pcs s)) \<le> n - i"
  by (simp add: pool_inv_def)

lemma pool_inv_step:
  assumes "pool_step False n s s'" and "pool_inv n s"
  shows "pool_inv n s'"
  using assms(1,2) pool_lock_step [OF assms(1) pool_inv_lock [OF assms(2)]]
proof (induction rule: pool_step.induct)
  case (begin_scan t s)
  have "card (beyond n i ((pcs s)(t := Scanning 0))) \<le> n - i" if "i \<le> n" for i
  proof (cases "i = 0")
    case True
    then show ?thesis using card_beyond_0 by simp
  next
    case False
    have "card (beyond n i ((pcs s)(t := Scanning 0))) \<le> card (beyond n i (pcs s))"
      using False by (intro card_beyond_mono) (auto split: if_splits)
    also have "\<dots> \<le> n - i" by (rule pool_inv_card [OF begin_scan.prems(1) that])
    finally show ?thesis .
  qed
  moreover have "\<exists>u < n. ((pcs s)(t := Scanning 0)) u = Holding i" if "i < n" "busy (devs s ! i)" for i
    using begin_scan.hyps begin_scan.prems(1) that unfolding pool_inv_def
    by (metis fun_upd_other thread_pc.distinct(3))
  ultimately show ?case using begin_scan by (auto simp: pool_inv_def)
next
  case (scan_hit t s i d')
  let ?p = "(pcs s)(t := Holding i)"
  have free: "\<not> busy (devs s ! i)" and d': "busy d'"
    using scan_hit.hyps by (auto simp: try_aquire_def)
  have "card (beyond n j ?p) \<le> n - j" if "j \<le> n" for j
  proof -
    have "card (beyond n j ?p) \<le> card (beyond n j (pcs s))"
      using scan_hit.hyps by (intro card_beyond_mono) (auto split: if_splits)
    also have "\<dots> \<le> n - j" by (rule pool_inv_card [OF scan_hit.prems(1) that])
    finally show ?thesis .
  qed
  moreover have "\<exists>u < n. ?p u = Holding j" if j: "j < n" "busy ((devs s)[i := d'] ! j)" for j
  proof (cases "j = i")
    case True
    then show ?thesis using scan_hit.hyps(1) by auto
  next
    case False
    then have "busy (devs s ! j)" using j by simp
    then obtain u where "u < n" "pcs s u = Holding j"
      using j scan_hit.prems by (auto simp: pool_inv_def)
    then show ?thesis using scan_hit.hyps(2) by (intro exI [of _ u]) auto
  qed
  ultimately show ?case using scan_hit free d'
    by (auto simp: pool_inv_def nth_list_update split: if_splits)
next
  case (scan_miss t s i d')
  let ?p = "(pcs s)(t := Scanning (Suc i))"
  have busy: "busy (devs s ! i)" and "d' = (devs s ! i)\<lparr>busy := True\<rparr>"
    using scan_miss.hyps by (auto simp: try_aquire_def)
  then have same: "(devs s)[i := d'] = devs s" using scan_miss.hyps by simp
  obtain u where u: "u < n" "pcs s u = Holding i"
  proof -
    have "i < n" using scan_miss.hyps scan_miss.prems(1) by (simp add: pool_inv_def pool_lock_def)
    then show ?thesis using that busy scan_miss.prems(1) unfolding pool_inv_def by blast
  qed
  have "card (beyond n j ?p) \<le> n - j" if "j \<le> n" for j
  proof (cases "j = Suc i")
    case True
    then show ?thesis using card_beyond_pass [of "pcs s" t i n u] u scan_miss that
      by (auto simp: pool_inv_def)
  next
    case False
    have "card (beyond n j ?p) \<le> card (beyond n j (pcs s))"
      using scan_miss.hyps False by (intro card_beyond_mono) (auto split: if_splits)
    also have "\<dots> \<le> n - j" by (rule pool_inv_card [OF scan_miss.prems(1) that])
    finally show ?thesis .
  qed
  moreover have "\<exists>v < n. ?p v = Holding j" if "j < n" "busy (devs s ! j)" for j
    using scan_miss.hyps scan_miss.prems(1) that unfolding pool_inv_def
    by (metis fun_upd_other thread_pc.distinct(7))
  ultimately show ?case using scan_miss unfolding same by (auto simp: pool_inv_def)
next
  case (scan_end t s i)
  then have "card (beyond n n (pcs s)) \<le> 0" using pool_inv_card [of n s n] by simp
  moreover have "t \<in> beyond n n (pcs s)" using scan_end.hyps scan_end.prems(1) by (simp add: beyond_def pool_inv_def pool_lock_def)
  ultimately show ?case by auto
next
  case (finish t s i)
  let ?p = "(pcs s)(t := Waiting)"
  have "card (beyond n j ?p) \<le> n - j" if "j \<le> n" for j
  proof -
    have "card (beyond n j ?p) \<le> card (beyond n j (pcs s))"
      by (intro card_beyond_mono) (auto split: if_splits)
    also have "\<dots> \<le> n - j" by (rule pool_inv_card [OF finish.prems(1) that])
    finally show ?thesis .
  qed
  moreover have "\<exists>v < n. ?p v = Holding j" if j: "j < n" "busy (release_device i (devs s) ! j)" for j
  proof -
    have "j \<noteq> i" using j finish.hyps finish.prems(1) by (auto simp: release_device_def release_def pool_inv_def pool_lock_def)
    then obtain v where "v < n" "pcs s v = Holding j"
      using j finish.prems(1) by (auto simp: release_device_def pool_inv_def)
    then show ?thesis using finish.hyps(2) \<open>j \<noteq> i\<close> by (intro exI [of _ v]) auto
  qed
  moreover have "?p v \<noteq> Throwing" for v using finish.prems(1) by (simp add: pool_inv_def)
  ultimately show ?case using finish.prems(2) by (simp add: pool_inv_def)
qed (simp_all add: pool_inv_def)

interpretation pool_runs: transitions "\<lambda>s. s = pool_init configs" "pool_step fails (length configs)"
    "pool_reachable fails configs"
  for fails configs
proof unfold_locales
  show "P s" if "pool_reachable fails configs s" "\<And>s. s = pool_init configs \<Longrightarrow> P s"
    "\<And>s s'. pool_reachable fails configs s \<Longrightarrow> P s \<Longrightarrow> pool_step fails (length configs) s s' \<Longrightarrow> P s'" for P s
    using that(1) by (induction rule: pool_reachable.induct) (use that(2,3) in blast)+
qed (auto intro: pool_reachable.intros)

lemma pool_lock_reachable: "pool_reachable fails configs s \<Longrightarrow> pool_lock (length configs) s"
  by (rule pool_runs.invariant_holds) (auto intro: pool_lock_init pool_lock_step)

lemma pool_inv_reachable: "pool_reachable False configs s \<Longrightarrow> pool_inv (length configs) s"
  by (rule pool_runs.invariant_holds) (auto intro: pool_inv_init pool_inv_step)

inductive_cases pool_stepE: "pool_step fails n s s'"

section \<open>Properties\<close>

lemma free_device_ahead:
  assumes inv: "pool_inv n s" and t: "t < n" "pcs s t = Scanning i"
  shows "\<exists>j. i \<le> j \<and> j < n \<and> \<not> busy (devs s ! j)"
proof (rule ccontr)
  assume none: "\<not> ?thesis"
  have "\<exists>u < n. pcs s u = Holding j" if "j \<in> {i..<n}" for j
    using that none inv by (auto simp: pool_inv_def)
  then obtain h where h: "\<And>j. j \<in> {i..<n} \<Longrightarrow> h j < n \<and> pcs s (h j) = Holding j" by metis
  have inj: "inj_on h {i..<n}" by (rule inj_onI) (metis h thread_pc.inject(2))
  have sub: "insert t (h ` {i..<n}) \<subseteq> beyond n i (pcs s)"
    using t h by (auto simp: beyond_def)
  have new: "t \<notin> h ` {i..<n}" using t h by (metis imageE thread_pc.distinct(7))
  have le: "i \<le> n"
  proof (rule ccontr)
    assume "\<not> i \<le> n"
    then have "t \<in> beyond n n (pcs s)" using t by (simp add: beyond_def)
    moreover have "card (beyond n n (pcs s)) \<le> 0" using inv by (auto simp: pool_inv_def)
    ultimately show False by auto
  qed
  have "Suc (n - i) = card (insert t (h ` {i..<n}))" using new inj by (simp add: card_image)
  also have "\<dots> \<le> card (beyond n i (pcs s))" by (rule card_mono [OF _ sub]) simp
  also have "\<dots> \<le> n - i" using inv le by (simp add: pool_inv_def)
  finally show False by simp
qed

text \<open>
  What an exception costs: one thread alone, unwound from each device it takes, marks one device after
  the other as busy for good, and then finds none.
\<close>

definition leaking :: "device_config list \<Rightarrow> nat \<Rightarrow> thread_pc \<Rightarrow> pool_state" where
  "leaking configs k pc =
     \<lparr>devs = map (\<lambda>(i, d). (register_device d)\<lparr>busy := i < k\<rparr>) (enumerate 0 configs),
      pcs = (\<lambda>_. Waiting)(0 := pc)\<rparr>"

lemma leaking_length [simp]: "length (devs (leaking configs k pc)) = length configs"
  by (simp add: leaking_def)

lemma leaking_devs: "i < length configs \<Longrightarrow>
    devs (leaking configs k pc) ! i = (register_device (configs ! i))\<lparr>busy := i < k\<rparr>"
  by (simp add: leaking_def nth_enumerate_eq)

lemma leaking_take:
  "k < length configs \<Longrightarrow>
   (devs (leaking configs k pc))[k := (devs (leaking configs k pc) ! k)\<lparr>busy := True\<rparr>]
     = devs (leaking configs (Suc k) pc')"
  by (rule nth_equalityI) (auto simp: leaking_devs nth_list_update register_device_def)

lemma leaking_scan:
  assumes "pool_reachable True configs (leaking configs k Waiting)" and "configs \<noteq> []" and "i \<le> k" and "i \<le> length configs"
  shows "pool_reachable True configs (leaking configs k (Scanning i))"
  using assms(3,4)
proof (induction i)
  case 0
  have "pool_step True (length configs) (leaking configs k Waiting)
      ((leaking configs k Waiting)\<lparr>pcs := (pcs (leaking configs k Waiting))(0 := Scanning 0)\<rparr>)"
    by (rule begin_scan) (use assms(2) in \<open>simp_all add: leaking_def\<close>)
  then show ?case using pool_next [OF assms(1)] by (simp add: leaking_def)
next
  case (Suc i)
  let ?s = "leaking configs k (Scanning i)"
  have i: "i < length configs" "i < k" using Suc.prems by simp_all
  have "pool_step True (length configs) ?s
      (?s\<lparr>devs := (devs ?s)[i := devs ?s ! i], pcs := (pcs ?s)(0 := Scanning (Suc i))\<rparr>)"
    by (rule scan_miss) (use assms(2) i in \<open>simp_all add: try_aquire_def leaking_devs\<close>, simp add: leaking_def)
  moreover have "?s\<lparr>devs := (devs ?s)[i := devs ?s ! i], pcs := (pcs ?s)(0 := Scanning (Suc i))\<rparr>
      = leaking configs k (Scanning (Suc i))" unfolding list_update_id by (simp add: leaking_def)
  ultimately show ?case using pool_next [OF Suc.IH] Suc.prems by simp
qed

lemma leaking_reachable:
  assumes "configs \<noteq> []" and "k \<le> length configs"
  shows "pool_reachable True configs (leaking configs k Waiting)"
  using assms(2)
proof (induction k)
  case 0
  have "leaking configs 0 Waiting = pool_init configs"
    by (auto simp: leaking_def pool_init_def register_device_def map_idI intro: nth_equalityI simp: nth_enumerate_eq)
  then show ?case using pool_start [of True configs] by simp
next
  case (Suc k)
  let ?s = "leaking configs k (Scanning k)"
  have k: "k < length configs" using Suc.prems by simp
  have "pool_reachable True configs ?s"
    by (rule leaking_scan) (use Suc assms(1) in simp_all)
  moreover have "pool_step True (length configs) ?s
      (?s\<lparr>devs := (devs ?s)[k := (devs ?s ! k)\<lparr>busy := True\<rparr>], pcs := (pcs ?s)(0 := Holding k)\<rparr>)"
    by (rule scan_hit) (use assms(1) k in \<open>simp_all add: try_aquire_def leaking_devs\<close>, simp add: leaking_def)
  ultimately have held: "pool_reachable True configs (leaking configs (Suc k) (Holding k))"
    using pool_next leaking_take [OF k, of "Scanning k" "Holding k"] by (simp add: leaking_def)
  have "pool_step True (length configs) (leaking configs (Suc k) (Holding k))
      ((leaking configs (Suc k) (Holding k))\<lparr>pcs := (pcs (leaking configs (Suc k) (Holding k)))(0 := Waiting)\<rparr>)"
    by (rule unwind) (use assms(1) in \<open>simp_all add: leaking_def\<close>)
  then show ?case using pool_next [OF held] by (simp add: leaking_def)
qed

lemma leaking_throws:
  assumes "configs \<noteq> []"
  shows "pool_reachable True configs (leaking configs (length configs) Throwing)"
proof -
  let ?s = "leaking configs (length configs) (Scanning (length configs))"
  have "pool_reachable True configs ?s"
    by (rule leaking_scan) (use assms leaking_reachable in simp_all)
  moreover have "pool_step True (length configs) ?s (?s\<lparr>pcs := (pcs ?s)(0 := Throwing)\<rparr>)"
    by (rule scan_end [where i = "length configs"]) (use assms in \<open>simp_all add: leaking_def\<close>)
  ultimately show ?thesis using pool_next by (simp add: leaking_def)
qed

text \<open>
  C6: when \<open>handle_request_async\<close>'s comment holds, and when it does not. Whatever the interleaving of
  the pool's threads, as long as no exception is raised while a device is in use, no thread ever
  throws \<open>No available devices\<close>, and a thread in the middle of its scan always has a free device at
  its position or further on, however the others take and release devices meanwhile. With
  exceptions, whatever devices are configured, a state is reachable in which every device is marked
  busy while no thread holds one, and a thread throws.
\<close>

theorem device_always_available:
  assumes "pool_reachable False configs s"
  shows "pcs s t \<noteq> Throwing
    \<and> (\<forall>i. t < length configs \<and> pcs s t = Scanning i \<longrightarrow>
         (\<exists>j. i \<le> j \<and> j < length configs \<and> \<not> busy (devs s ! j)))
    \<and> (configs \<noteq> [] \<longrightarrow> (\<exists>s'. pool_reachable True configs s' \<and> pcs s' 0 = Throwing
         \<and> (\<forall>u i. pcs s' u \<noteq> Holding i) \<and> (\<forall>d \<in> set (devs s'). busy d)))"
proof -
  have inv: "pool_inv (length configs) s" by (rule pool_inv_reachable [OF assms])
  then have "pcs s t \<noteq> Throwing" by (simp add: pool_inv_def)
  moreover have "pcs (leaking configs (length configs) Throwing) 0 = Throwing
      \<and> (\<forall>u i. pcs (leaking configs (length configs) Throwing) u \<noteq> Holding i)
      \<and> (\<forall>d \<in> set (devs (leaking configs (length configs) Throwing)). busy d)"
    by (auto simp: leaking_def in_set_enumerate_eq)
  ultimately show ?thesis using free_device_ahead [OF inv] leaking_throws by blast
qed

text \<open>Two devices and a schedule in which one thread holds the first and the other one is past it.\<close>

definition two_devices :: "device_config list" where
  "two_devices = [default_device, default_device]"

definition holding_first :: pool_state where
  "holding_first = (pool_init two_devices)
     \<lparr>devs := (devs (pool_init two_devices))[0 := (register_device default_device)\<lparr>busy := True\<rparr>],
      pcs := (\<lambda>_. Waiting)(0 := Holding 0)\<rparr>"

definition past_first :: pool_state where
  "past_first = holding_first\<lparr>pcs := (\<lambda>_. Waiting)(0 := Holding 0, 1 := Scanning 1)\<rparr>"

lemma two_devices_length: "length two_devices = 2"
  by (simp add: two_devices_def)

lemma two_steps:
  assumes "pool_step False 2 s s1" and "pool_step False 2 s1 s2" and "pool_reachable False two_devices s"
  shows "pool_reachable False two_devices s2"
  using assms pool_next [of False two_devices] by (metis two_devices_length)

lemma holding_first_reachable: "pool_reachable False two_devices holding_first"
proof -
  let ?s0 = "pool_init two_devices"
  let ?s1 = "?s0\<lparr>pcs := (pcs ?s0)(0 := Scanning 0)\<rparr>"
  have "pool_step False 2 ?s0 ?s1" by (rule begin_scan) (simp_all add: pool_init_def)
  moreover have "pool_step False 2 ?s1
     (?s1\<lparr>devs := (devs ?s1)[0 := (register_device default_device)\<lparr>busy := True\<rparr>],
          pcs := (pcs ?s1)(0 := Holding 0)\<rparr>)"
    by (rule scan_hit) (simp_all add: pool_init_def two_devices_def try_aquire_def register_device_def)
  ultimately have "pool_reachable False two_devices
     (?s1\<lparr>devs := (devs ?s1)[0 := (register_device default_device)\<lparr>busy := True\<rparr>],
          pcs := (pcs ?s1)(0 := Holding 0)\<rparr>)"
    by (rule two_steps) (rule pool_start)
  then show ?thesis by (simp add: holding_first_def pool_init_def)
qed

lemma past_first_reachable: "pool_reachable False two_devices past_first"
proof -
  let ?s0 = holding_first
  let ?s1 = "?s0\<lparr>pcs := (pcs ?s0)(1 := Scanning 0)\<rparr>"
  have "pool_step False 2 ?s0 ?s1" by (rule begin_scan) (simp_all add: holding_first_def)
  moreover have "pool_step False 2 ?s1
     (?s1\<lparr>devs := (devs ?s1)[0 := (devs ?s1 ! 0)\<lparr>busy := True\<rparr>],
          pcs := (pcs ?s1)(1 := Scanning (Suc 0))\<rparr>)"
    by (rule scan_miss)
      (simp_all add: holding_first_def pool_init_def two_devices_def try_aquire_def)
  ultimately have "pool_reachable False two_devices
     (?s1\<lparr>devs := (devs ?s1)[0 := (devs ?s1 ! 0)\<lparr>busy := True\<rparr>],
          pcs := (pcs ?s1)(1 := Scanning (Suc 0))\<rparr>)"
    by (rule two_steps) (rule holding_first_reachable)
  then show ?thesis by (simp add: past_first_def holding_first_def pool_init_def two_devices_def)
qed

lemma device_always_available_witness:
  "pcs past_first 1 = Scanning 1 \<and> (\<exists>j. 1 \<le> j \<and> j < length two_devices \<and> \<not> busy (devs past_first ! j))"
proof -
  have "pcs past_first 1 = Scanning 1" by (simp add: past_first_def)
  moreover have "1 < length two_devices" by (simp add: two_devices_def)
  ultimately show ?thesis
    using device_always_available [OF past_first_reachable, of 1] by blast
qed

lemma leaking_stays:
  assumes "(pool_step fails n)\<^sup>*\<^sup>* s s'" and "busy (devs s ! i)" and "\<forall>v. pcs s v \<noteq> Holding i"
  shows "busy (devs s' ! i) \<and> (\<forall>v. pcs s' v \<noteq> Holding i)"
  using assms
proof (induction rule: rtranclp_induct)
  case (step s1 s2)
  then have now: "busy (devs s1 ! i)" "\<And>v. pcs s1 v \<noteq> Holding i" by simp_all
  show ?case using step.hyps(2)
  proof (cases rule: pool_step.cases)
    case (scan_hit t j d')
    then have "j \<noteq> i" using now by (auto simp: try_aquire_def)
    then show ?thesis using scan_hit now by simp
  next
    case (scan_miss t j d')
    then show ?thesis using now by (auto simp: try_aquire_def nth_list_update)
  next
    case (finish t j)
    then have "j \<noteq> i" using now by auto
    then show ?thesis using finish now by (simp add: release_device_def)
  qed (use now in simp_all)
qed simp

text \<open>
  C20: the busy flag is a lock per device that only its holder opens, with and without exceptions: in
  every reachable state a device is held by at most one thread, which is one of the pool's and whose
  flag is set; and a device that is marked busy while no thread holds it (what an exception past
  \<open>device.release ()\<close> leaves) stays marked, and is never acquired again, in every continuation of the
  run.
\<close>

theorem devices_exclusive:
  assumes "pool_reachable fails configs s"
  shows "(pcs s t = Holding i \<longrightarrow> pcs s u = Holding i \<longrightarrow> t = u)
    \<and> (pcs s t = Holding i \<longrightarrow> t < length configs \<and> i < length configs \<and> busy (devs s ! i))
    \<and> (busy (devs s ! i) \<longrightarrow> (\<forall>v. pcs s v \<noteq> Holding i) \<longrightarrow>
         (\<forall>s'. (pool_step fails (length configs))\<^sup>*\<^sup>* s s' \<longrightarrow>
            busy (devs s' ! i) \<and> (\<forall>v. pcs s' v \<noteq> Holding i)))"
proof -
  have "pool_lock (length configs) s" by (rule pool_lock_reachable [OF assms])
  then show ?thesis using leaking_stays by (simp add: pool_lock_def)
qed

lemma devices_exclusive_witness:
  "{s'. (pool_step True 1)\<^sup>*\<^sup>* (leaking [default_device] 1 Waiting) s'}
    \<subseteq> {s'. busy (devs s' ! 0) \<and> (\<forall>v. pcs s' v \<noteq> Holding 0)}"
proof -
  have "pool_reachable True [default_device] (leaking [default_device] 1 Waiting)"
    by (rule leaking_reachable) simp_all
  moreover have "busy (devs (leaking [default_device] 1 Waiting) ! 0)"
    by (simp add: leaking_devs)
  moreover have "\<forall>v. pcs (leaking [default_device] 1 Waiting) v \<noteq> Holding 0"
    by (simp add: leaking_def)
  ultimately show ?thesis
    using devices_exclusive [of True "[default_device]" "leaking [default_device] 1 Waiting" 0 0 0] by auto
qed

text \<open>
  Run without interference, \<open>aquire_first_available_device\<close> gives the first device that is not
  busy and marks that one only; it throws exactly when all are busy, and then changes nothing.
\<close>

theorem first_available:
  assumes "aquire_first_available_device ds = (r, ds')"
  shows "case r of
      Inr i \<Rightarrow> i < length ds \<and> \<not> busy (ds ! i) \<and> (\<forall>k < i. busy (ds ! k))
        \<and> ds' = ds[i := (ds ! i)\<lparr>busy := True\<rparr>] \<and> release_device i ds' = ds
    | Inl e \<Rightarrow> e = ''No available devices'' \<and> (\<forall>d \<in> set ds. busy d) \<and> ds' = ds"
proof -
  obtain it es where found: "find_available ds = (it, es)" by (cases "find_available ds")
  show ?thesis
  proof (cases it)
    case None
    have none: "(\<forall>d \<in> set ds. busy d) \<and> es = ds"
      using found find_available_None [of ds es] unfolding None by blast
    have "(r, ds') = (Inl ''No available devices'', es)"
      using assms unfolding aquire_first_available_device_def found None by simp
    then show ?thesis using none by simp
  next
    case (Some i)
    have hit: "i < length ds \<and> \<not> busy (ds ! i) \<and> (\<forall>k < i. busy (ds ! k)) \<and> es = ds[i := (ds ! i)\<lparr>busy := True\<rparr>]"
      by (rule find_available_Some) (use found Some in simp)
    have run: "(r, ds') = (Inr i, es)"
      using assms unfolding aquire_first_available_device_def found Some by simp
    then show ?thesis using hit by (simp add: release_device_def release_def)
  qed
qed

lemma first_available_witness:
  "aquire_first_available_device (devs holding_first)
     = (Inr 1, (devs holding_first)[1 := (devs holding_first ! 1)\<lparr>busy := True\<rparr>])"
proof -
  obtain r ds' where run: "aquire_first_available_device (devs holding_first) = (r, ds')"
    by (cases "aquire_first_available_device (devs holding_first)")
  have "devs holding_first = [(register_device default_device)\<lparr>busy := True\<rparr>, register_device default_device]"
    by (simp add: holding_first_def pool_init_def two_devices_def)
  then have "fst (aquire_first_available_device (devs holding_first)) = Inr 1"
    by (simp add: aquire_first_available_device_def try_aquire_def register_device_def)
  then have r: "r = Inr 1" using run by simp
  then have "ds' = (devs holding_first)[1 := (devs holding_first ! 1)\<lparr>busy := True\<rparr>]"
    using first_available [OF run] by simp
  then show ?thesis using run r by (simp only:)
qed

end
