(* ===== verification/Handler.thy ===== *)
theory Handler
  imports Pow Devices
begin

text \<open>
  \<open>work_handler\<close> (\<open>src/workserver/work_handler.cpp\<close>): its state, the parts of
  \<open>handle_request_async\<close>, of the handler that it posts to the pool, and the two queue requests.

  The parts are cut where the code takes or releases a lock or calls out, so that the theory
  \<open>System\<close> can interleave them. A request is known by a number that stands for its
  \<open>response_handler\<close>; calling the handler adds an entry to \<open>answers\<close>. Each accepted request posts
  one pool handler, whose local variable \<open>job\<close> has the request's number as its address:
  \<open>locals\<close> maps the address to the variable while its frame exists. \<open>active_jobs\<close> is a set of
  references, that is of addresses. An operation that would follow a dangling reference
  yields \<open>None\<close>. Logging is left out.
\<close>

record handler =
  h_devices :: "registered_device list"
  jobs :: job_queue
  job_id_dispenser :: u32
  locals :: "nat \<rightharpoonup> job"
  active_jobs :: "nat list"
  completed_jobs :: "job list"
  answers :: "(nat \<times> string) list"

text \<open>The constructor registers one device per entry of the configuration.\<close>

definition handler_ctor :: "config \<Rightarrow> handler" where
  "handler_ctor cfg =
     \<lparr>h_devices = map register_device (devices cfg), jobs = [], job_id_dispenser = job_id_dispenser_init,
      locals = Map.empty, active_jobs = [], completed_jobs = [], answers = []\<rparr>"

definition respond :: "nat \<Rightarrow> string \<Rightarrow> handler \<Rightarrow> handler" where
  "respond c text h = h\<lparr>answers := answers h @ [(c, text)]\<rparr>"

definition create_error_response :: "('p, 'f) env \<Rightarrow> string option \<Rightarrow> string \<Rightarrow> string" where
  "create_error_response E ident error_a =
     write_json E (attach_correlation_id ident (pt_put ''error'' (JString error_a) []))"

section \<open>Parsing a request\<close>

definition read_difficulty ::
  "('p, 'f) env \<Rightarrow> config \<Rightarrow> 'p \<Rightarrow> u8 list result" where
  "read_difficulty E cfg req =
     (case get_string E req ''difficulty'' of
        None \<Rightarrow> Inr (base_difficulty (work cfg))
      | Some difficulty_hex \<Rightarrow>
          (case bi_from_hex (mp128 E) (base_difficulty (work cfg)) difficulty_hex of
             (difficulty, None) \<Rightarrow> Inr difficulty
           | (difficulty, Some what) \<Rightarrow> Inl what))"

definition apply_multiplier :: "('p, 'f) env \<Rightarrow> config \<Rightarrow> 'p \<Rightarrow> u8 list \<Rightarrow> u8 list" where
  "apply_multiplier E cfg req difficulty =
     (let multiplier = get_double E req ''multiplier'' (Fin 0) in
      if double_gt multiplier (Fin 0)
      then from_multiplier (mp128 E) (bf_ops E) multiplier (base_difficulty (work cfg))
      else difficulty)"

text \<open>\<open>work_generate\<close>: the job, or what is thrown, and the new value of the id counter.\<close>

definition fill_job :: "('p, 'f) env \<Rightarrow> config \<Rightarrow> 'p \<Rightarrow> job \<Rightarrow> job result" where
  "fill_job E cfg req job_l =
     (case get_string E req ''hash'' of
        None \<Rightarrow> Inl ''work_generate failed: missing hash value''
      | Some root_hash \<Rightarrow>
          bind_result (bi_of_string (mp256 E) root_hash) (\<lambda>hash.
          bind_result (read_difficulty E cfg req) (\<lambda>difficulty.
            let pri = get_unsigned E req ''priority'' 0;
                job_l = job_l\<lparr>request := (request job_l)\<lparr>req_root_hash := hash,
                  req_difficulty := apply_multiplier E cfg req difficulty\<rparr>\<rparr>
            in Inr (if allow_prioritization (server cfg) then set_priority pri job_l else job_l))))"

definition parse_generate ::
  "('p, 'f) env \<Rightarrow> config \<Rightarrow> 'p \<Rightarrow> u32 \<Rightarrow> job result \<times> u32" where
  "parse_generate E cfg req dispenser =
     (if devices cfg = [] then (Inl ''No work device has been configured'', dispenser)
      else case job_ctor (mp256 E) (mp128 E) dispenser of
          Inl what \<Rightarrow> (Inl what, dispenser)
        | Inr (job_l, dispenser') \<Rightarrow> (fill_job E cfg req job_l, dispenser'))"

text \<open>\<open>work_validate\<close>: the response. The work is parsed and then not used.\<close>

definition work_validate :: "('p, 'f) env \<Rightarrow> config \<Rightarrow> string option \<Rightarrow> 'p \<Rightarrow> ptree result" where
  "work_validate E cfg correlation_id req =
     (case get_string E req ''hash'' of
        None \<Rightarrow> Inl ''work_generate failed: missing hash value''
      | Some hash_hex \<Rightarrow> bind_result (bi_of_string (mp256 E) hash_hex) (\<lambda>hash.
          case get_string E req ''work'' of
            None \<Rightarrow> Inl ''work_generate failed: missing work value''
          | Some work_text \<Rightarrow> bind_result (bi_of_string (mp128 E) work_text) (\<lambda>work_l.
              bind_result (read_difficulty E cfg req) (\<lambda>difficulty.
                let difficulty = apply_multiplier E cfg req difficulty;
                    passes = True;
                    response = pt_put ''valid'' (JString (if passes then ''1'' else ''0'')) [];
                    response = pt_put ''difficulty'' (JString ''0x2000000000000000'') response;
                    response = pt_put ''multiplier'' (JString ''1.0'') response
                in Inr (attach_correlation_id correlation_id response)))))"

text \<open>\<open>work_cancel\<close>: the response, or what is thrown, and the queue.\<close>

definition work_cancel ::
  "('p, 'f) env \<Rightarrow> string option \<Rightarrow> 'p \<Rightarrow> job_queue \<Rightarrow> ptree result \<times> job_queue" where
  "work_cancel E correlation_id req q =
     (case get_string E req ''hash'' of
        None \<Rightarrow> (Inl ''work_cancel failed: missing hash value'', q)
      | Some hash_hex \<Rightarrow>
          (case bi_of_string (mp256 E) ''0'' of
             Inl what \<Rightarrow> (Inl what, q)
           | Inr zero \<Rightarrow>
               (case bi_from_hex (mp256 E) zero hash_hex of
                  (hash, Some what) \<Rightarrow> (Inl what, q)
                | (hash, None) \<Rightarrow>
                    let (removed, q') = remove_job (mp256 E) hash q in
                    if removed
                    then (Inr (attach_correlation_id correlation_id (pt_put ''status'' (JString ''cancelled'') [])), q')
                    else (Inl ''Hash not found in work queue'', q'))))"

section \<open>Dispatch\<close>

text \<open>What a request comes to before a lock is taken: an answer, a job to queue, or a cancellation.\<close>

datatype 'p parsed =
    Refused "string option" string
  | Enqueue "string option" job
  | Validated "string option" ptree
  | Cancel "string option" 'p

definition parse_request ::
  "('p, 'f) env \<Rightarrow> config \<Rightarrow> string \<Rightarrow> u32 \<Rightarrow> 'p parsed \<times> u32" where
  "parse_request E cfg body dispenser =
     (case read_json E body of
        Inl what \<Rightarrow> (Refused None what, dispenser)
      | Inr req \<Rightarrow>
          let correlation_id = get_string E req ''id'';
              action = get_string E req ''action''
          in if action = Some ''work_generate'' then
               (case parse_generate E cfg req dispenser of
                  (Inl what, dispenser') \<Rightarrow> (Refused correlation_id what, dispenser')
                | (Inr job_l, dispenser') \<Rightarrow> (Enqueue correlation_id job_l, dispenser'))
             else if action = Some ''work_validate'' then
               (case work_validate E cfg correlation_id req of
                  Inl what \<Rightarrow> (Refused correlation_id what, dispenser)
                | Inr response \<Rightarrow> (Validated correlation_id response, dispenser))
             else if action = Some ''work_cancel'' then (Cancel correlation_id req, dispenser)
             else (Refused correlation_id ''Invalid action field'', dispenser))"

text \<open>The block under \<open>jobs_mutex\<close> that queues a job.\<close>

definition enqueue :: "config \<Rightarrow> job \<Rightarrow> job_queue \<Rightarrow> string option \<times> job_queue" where
  "enqueue cfg job_l q =
     (if length q < unat (request_limit (server cfg)) then (None, pq_push job_l q)
      else (Some ''Work request limit exceeded'', q))"

definition cancel :: "('p, 'f) env \<Rightarrow> nat \<Rightarrow> string option \<Rightarrow> 'p \<Rightarrow> handler \<Rightarrow> handler" where
  "cancel E c correlation_id req h =
     (case work_cancel E correlation_id req (jobs h) of
        (Inl what, q) \<Rightarrow> respond c (create_error_response E correlation_id what) (h\<lparr>jobs := q\<rparr>)
      | (Inr response, q) \<Rightarrow> respond c (write_json E response) (h\<lparr>jobs := q\<rparr>))"

section \<open>The set of active jobs\<close>

text \<open>
  \<open>std::set<std::reference_wrapper<job>, comparator>\<close> in its iteration order. Jobs that the
  comparator does not tell apart are the same element: the second is not inserted, and \<open>erase\<close>
  removes what is equivalent to its argument. Both compare with what the references lead to.
\<close>

fun set_insert :: "(nat \<times> job) \<Rightarrow> (nat \<times> job) list \<Rightarrow> (nat \<times> job) list" where
  "set_insert x [] = [x]"
| "set_insert x (y # ys) =
     (if comparator (snd x) (snd y) then x # y # ys
      else if comparator (snd y) (snd x) then y # set_insert x ys
      else y # ys)"

definition set_erase :: "job \<Rightarrow> (nat \<times> job) list \<Rightarrow> (nat \<times> job) list" where
  "set_erase j ys = filter (\<lambda>y. comparator j (snd y) \<or> comparator (snd y) j) ys"

fun follow :: "(nat \<rightharpoonup> job) \<Rightarrow> nat list \<Rightarrow> (nat \<times> job) list option" where
  "follow m [] = Some []"
| "follow m (a # as) =
     (case (m a, follow m as) of (Some j, Some js) \<Rightarrow> Some ((a, j) # js) | _ \<Rightarrow> None)"

definition active_insert :: "nat \<Rightarrow> job \<Rightarrow> handler \<Rightarrow> handler option" where
  "active_insert c j h =
     map_option (\<lambda>ys. h\<lparr>active_jobs := map fst (set_insert (c, j) ys)\<rparr>) (follow (locals h) (active_jobs h))"

definition active_erase :: "job \<Rightarrow> handler \<Rightarrow> handler option" where
  "active_erase j h =
     map_option (\<lambda>ys. h\<lparr>active_jobs := map fst (set_erase j ys)\<rparr>) (follow (locals h) (active_jobs h))"

text \<open>\<open>boost::circular_buffer\<close> of 128: a full one drops its oldest element.\<close>

definition completed_capacity :: nat where
  "completed_capacity = 128"

definition circular_push :: "job \<Rightarrow> job list \<Rightarrow> job list" where
  "circular_push j buf = drop (Suc (length buf) - completed_capacity) (buf @ [j])"

section \<open>The handler posted to the pool\<close>

text \<open>It takes the job at the top of the queue, whichever request that came from.\<close>

definition worker_pop :: "nat \<Rightarrow> handler \<Rightarrow> bool \<times> handler" where
  "worker_pop c h =
     (if \<not> pq_empty (jobs h)
      then (True, h\<lparr>jobs := pq_pop (jobs h), locals := (locals h)(c \<mapsto> pq_top (jobs h))\<rparr>)
      else (False, h))"

definition worker_no_jobs :: "('p, 'f) env \<Rightarrow> nat \<Rightarrow> string option \<Rightarrow> handler \<Rightarrow> handler" where
  "worker_no_jobs E c correlation_id h =
     respond c (create_error_response E correlation_id ''No jobs available'') h"

definition worker_acquire :: "handler \<Rightarrow> nat result \<times> handler" where
  "worker_acquire h =
     (let (r, ds) = aquire_first_available_device (h_devices h) in (r, h\<lparr>h_devices := ds\<rparr>))"

definition worker_start :: "int \<Rightarrow> nat \<Rightarrow> handler \<Rightarrow> handler option" where
  "worker_start now c h =
     (case locals h c of
        None \<Rightarrow> None
      | Some j \<Rightarrow> let j' = job_start now j in
          active_insert c j' (h\<lparr>locals := (locals h)(c \<mapsto> j')\<rparr>))"

text \<open>
  The work itself: the search or the mock. \<open>rd\<close> is the random device with the numbers
  drawn from it, or the exception that its constructor throws.
\<close>

definition generate ::
  "('p, 'f) env \<Rightarrow> config \<Rightarrow> (nat \<Rightarrow> u64) result \<Rightarrow> job_request \<Rightarrow> (bool \<times> job_result) result" where
  "generate E cfg rd req =
     (if mock_work_generation_delay (work cfg) = 0
      then bind_result rd (\<lambda>dis. Inr (False, pow_result E (base_difficulty (work cfg)) dis req))
      else bind_result (mock_result E) (\<lambda>r. Inr (True, r)))"

definition worker_answer ::
  "('p, 'f) env \<Rightarrow> nat \<Rightarrow> string option \<Rightarrow> bool \<times> job_result \<Rightarrow> handler \<Rightarrow> handler option" where
  "worker_answer E c correlation_id mr h =
     (case locals h c of
        None \<Rightarrow> None
      | Some j \<Rightarrow>
          Some (respond c (write_json E (work_response E correlation_id (fst mr) (snd mr)))
                  (h\<lparr>locals := (locals h)(c \<mapsto> j\<lparr>job_res := snd mr\<rparr>)\<rparr>)))"

definition worker_release :: "int \<Rightarrow> nat \<Rightarrow> nat \<Rightarrow> handler \<Rightarrow> handler option" where
  "worker_release now c i h =
     (case locals h c of
        None \<Rightarrow> None
      | Some j \<Rightarrow> Some (h\<lparr>h_devices := release_device i (h_devices h),
                        locals := (locals h)(c \<mapsto> job_stop now j)\<rparr>))"

text \<open>The end of the \<open>try\<close> block, then of the frame.\<close>

definition end_frame :: "nat \<Rightarrow> handler \<Rightarrow> handler" where
  "end_frame c h = h\<lparr>locals := (locals h)(c := None)\<rparr>"

definition worker_finish :: "nat \<Rightarrow> handler \<Rightarrow> handler option" where
  "worker_finish c h =
     (case locals h c of
        None \<Rightarrow> None
      | Some j \<Rightarrow> map_option (\<lambda>h'. end_frame c (h'\<lparr>completed_jobs := circular_push j (completed_jobs h')\<rparr>))
                   (active_erase j h))"

text \<open>
  The \<open>catch\<close> clause: the error is reported. The device is not released and the reference
  stays in \<open>active_jobs\<close>.
\<close>

definition worker_catch :: "('p, 'f) env \<Rightarrow> nat \<Rightarrow> string option \<Rightarrow> string \<Rightarrow> handler \<Rightarrow> handler" where
  "worker_catch E c correlation_id what h =
     end_frame c (respond c (create_error_response E correlation_id what) h)"

section \<open>Queue requests\<close>

definition populate_json :: "('p, 'f) env \<Rightarrow> job \<Rightarrow> json" where
  "populate_json E job_a = JObject
     [(''id'', JUnsigned (job_id job_a)), (''priority'', JUnsigned (priority job_a)),
      (''start'', JInt (to_millis (start_time job_a))), (''end'', JInt (to_millis (end_time job_a))),
      (''request'', JObject
        [(''hash'', JString (bi_to_hex (mp256 E) (req_root_hash (request job_a)))),
         (''difficulty'', JString (bi_to_hex (mp128 E) (req_difficulty (request job_a)))),
         (''multiplier'', JDouble (req_multiplier (request job_a)))]),
      (''result'', JObject
        [(''work'', JString (bi_to_hex (mp128 E) (res_work (job_res job_a)))),
         (''difficulty'', JString (bi_to_hex (mp128 E) (res_difficulty (job_res job_a)))),
         (''multiplier'', JDouble (res_multiplier (job_res job_a)))])]"

definition queue_response :: "('p, 'f) env \<Rightarrow> handler \<Rightarrow> ptree option" where
  "queue_response E h =
     map_option (\<lambda>active.
       [(''queued'', JArray (map (populate_json E) (drain pq_empty pq_top pq_pop (length (jobs h)) (jobs h)))),
        (''active'', JArray (map (populate_json E \<circ> snd) active)),
        (''completed'', JArray (map (populate_json E) (completed_jobs h)))])
       (follow (locals h) (active_jobs h))"

definition handle_queue_request :: "('p, 'f) env \<Rightarrow> nat \<Rightarrow> handler \<Rightarrow> handler option" where
  "handle_queue_request E c h =
     map_option (\<lambda>response. respond c (write_json E response) h) (queue_response E h)"

definition handle_queue_delete_request :: "('p, 'f) env \<Rightarrow> config \<Rightarrow> nat \<Rightarrow> handler \<Rightarrow> handler" where
  "handle_queue_delete_request E cfg c h =
     (if allow_control (server cfg)
      then respond c (write_json E (pt_put ''success'' (JBool True) [])) (h\<lparr>jobs := []\<rparr>)
      else respond c (write_json E (pt_put ''error''
        (JString ''Control requests are not allowed. This must be enabled in the server configuration.'') [])) h)"

section \<open>Lemmas\<close>

lemma follow_Some:
  "follow m as = Some ys \<Longrightarrow> map fst ys = as \<and> (\<forall>y \<in> set ys. m (fst y) = Some (snd y))"
  by (induction as arbitrary: ys) (auto split: option.splits)

lemma follow_defined: "(\<forall>a \<in> set as. m a \<noteq> None) \<longleftrightarrow> follow m as \<noteq> None"
  by (induction as) (auto split: option.splits)

end
