(* ===== verification/System.thy ===== *)
theory System
  imports Handler
begin

text \<open>
  The work server at run time: requests that HTTP threads are handling, handlers waiting in the
  pool's queue, and the pool's threads, one per configured device, that run them. A step is what
  happens between two accesses to shared state; steps of different threads interleave freely.
  Two switches of the step relation say which behaviours are included: \<open>fails\<close>, that generating
  the work may throw (as the constructor of \<open>std::random_device\<close> does without an entropy source), and \<open>withdraws\<close>, that jobs are taken out of
  the queue by \<open>work_cancel\<close> or by a queue delete request. With \<open>fails\<close> the exceptions are those before
  the answer is given; that \<open>response_handler\<close> itself, or code after its call, throws into the same
  \<open>catch\<close> is added in the theory \<open>Callbacks\<close>, on top of the steps here.

  The scan of \<open>aquire_first_available_device\<close> is one step here, with every outcome that its
  interleavings can give it; the interleavings themselves are the subject of the theory \<open>Devices\<close>.
\<close>

section \<open>State\<close>

text \<open>
  A \<open>work_generate\<close> request after parsing: about to lock the queue, or about to post the pool
  handler. A pool thread: idle, or in the handler of a request (with the request's correlation id).
\<close>

datatype request_pc = Locking "string option" job | Posting "string option"

datatype worker_pc =
    Idle
  | Begun nat "string option"
  | Popped nat "string option"
  | Acquired nat "string option" nat
  | Active nat "string option" nat
  | Answered nat "string option" nat
  | Released nat "string option"

record sys =
  hs :: handler
  flights :: "(nat \<times> request_pc) list"
  posted :: "(nat \<times> string option) list"
  workers :: "nat \<Rightarrow> worker_pc"
  next_request :: nat

definition sys_init :: "config \<Rightarrow> sys" where
  "sys_init cfg = \<lparr>hs = handler_ctor cfg, flights = [], posted = [], workers = (\<lambda>_. Idle), next_request = 0\<rparr>"

section \<open>Steps\<close>

text \<open>\<open>handle_request_async\<close> up to the queue's lock; cancelling takes the lock once.\<close>

definition handle_request_async :: "('p, 'f) env \<Rightarrow> config \<Rightarrow> string \<Rightarrow> sys \<Rightarrow> sys" where
  "handle_request_async E cfg body s =
     (let c = next_request s;
          (outcome, dispenser') = parse_request E cfg body (job_id_dispenser (hs s));
          h = (hs s)\<lparr>job_id_dispenser := dispenser'\<rparr>;
          s' = s\<lparr>next_request := Suc c\<rparr>
      in case outcome of
           Refused correlation_id what \<Rightarrow>
             s'\<lparr>hs := respond c (create_error_response E correlation_id what) h\<rparr>
         | Enqueue correlation_id job_l \<Rightarrow>
             s'\<lparr>hs := h, flights := flights s @ [(c, Locking correlation_id job_l)]\<rparr>
         | Validated correlation_id response \<Rightarrow> s'\<lparr>hs := respond c (write_json E response) h\<rparr>
         | Cancel correlation_id req \<Rightarrow> s'\<lparr>hs := cancel E c correlation_id req h\<rparr>)"

definition is_cancel :: "('p, 'f) env \<Rightarrow> config \<Rightarrow> string \<Rightarrow> sys \<Rightarrow> bool" where
  "is_cancel E cfg body s =
     (case parse_request E cfg body (job_id_dispenser (hs s)) of (Cancel _ _, _) \<Rightarrow> True | _ \<Rightarrow> False)"

abbreviation set_worker :: "nat \<Rightarrow> worker_pc \<Rightarrow> handler \<Rightarrow> sys \<Rightarrow> sys" where
  "set_worker t pc h s \<equiv> s\<lparr>hs := h, workers := (workers s)(t := pc)\<rparr>"

text \<open>
  What a scan over the devices can come to: any device that is free when its flag is exchanged, since
  those before it may have been released after they were looked at; or that none was free. Where no device is
  ever lost, a scan fails only if all are busy at once (and \<open>device_always_available\<close> shows that it never does);
  after a loss it may miss the devices that are released behind it.
\<close>

fun scan_outcome :: "bool \<Rightarrow> handler \<Rightarrow> nat result \<times> handler \<Rightarrow> bool" where
  "scan_outcome lost h (Inr i, h') \<longleftrightarrow> i < length (h_devices h) \<and> \<not> busy (h_devices h ! i)
     \<and> h' = h\<lparr>h_devices := (h_devices h)[i := snd (try_aquire (h_devices h ! i))]\<rparr>"
| "scan_outcome lost h (Inl what, h') \<longleftrightarrow> what = ''No available devices''
     \<and> (lost \<or> (\<forall>d \<in> set (h_devices h). busy d)) \<and> h' = h"

declare scan_outcome.simps [simp del]

inductive sys_step :: "bool \<Rightarrow> bool \<Rightarrow> ('p, 'f) env \<Rightarrow> config \<Rightarrow> sys \<Rightarrow> sys \<Rightarrow> bool"
  for fails withdraws E cfg where
  arrive: "withdraws \<or> \<not> is_cancel E cfg body s \<Longrightarrow>
    sys_step fails withdraws E cfg s (handle_request_async E cfg body s)"
| list_queue: "handle_queue_request E (next_request s) (hs s) = Some h \<Longrightarrow>
    sys_step fails withdraws E cfg s (s\<lparr>hs := h, next_request := Suc (next_request s)\<rparr>)"
| reply_at_once: "sys_step fails withdraws E cfg s
    (s\<lparr>hs := respond (next_request s) text_l (hs s), next_request := Suc (next_request s)\<rparr>)"
| delete_queue: "withdraws \<Longrightarrow>
    sys_step fails withdraws E cfg s
      (s\<lparr>hs := handle_queue_delete_request E cfg (next_request s) (hs s), next_request := Suc (next_request s)\<rparr>)"
| lock: "flights s = xs @ (c, Locking cid j) # ys \<Longrightarrow> enqueue cfg j (jobs (hs s)) = (None, q) \<Longrightarrow>
    sys_step fails withdraws E cfg s
      (s\<lparr>hs := (hs s)\<lparr>jobs := q\<rparr>, flights := xs @ (c, Posting cid) # ys\<rparr>)"
| lock_full: "flights s = xs @ (c, Locking cid j) # ys \<Longrightarrow>
    enqueue cfg j (jobs (hs s)) = (Some what, q) \<Longrightarrow>
    sys_step fails withdraws E cfg s
      (s\<lparr>hs := respond c (create_error_response E cid what) ((hs s)\<lparr>jobs := q\<rparr>), flights := xs @ ys\<rparr>)"
| post: "flights s = xs @ (c, Posting cid) # ys \<Longrightarrow>
    sys_step fails withdraws E cfg s (s\<lparr>flights := xs @ ys, posted := posted s @ [(c, cid)]\<rparr>)"
| take_task: "t < length (devices cfg) \<Longrightarrow> workers s t = Idle \<Longrightarrow> posted s = (c, cid) # rest \<Longrightarrow>
    sys_step fails withdraws E cfg s (s\<lparr>posted := rest, workers := (workers s)(t := Begun c cid)\<rparr>)"
| pop: "workers s t = Begun c cid \<Longrightarrow> worker_pop c (hs s) = (True, h) \<Longrightarrow>
    sys_step fails withdraws E cfg s (set_worker t (Popped c cid) h s)"
| no_jobs: "workers s t = Begun c cid \<Longrightarrow> worker_pop c (hs s) = (False, h) \<Longrightarrow>
    sys_step fails withdraws E cfg s (set_worker t Idle (worker_no_jobs E c cid h) s)"
| acquire: "workers s t = Popped c cid \<Longrightarrow> scan_outcome fails (hs s) (Inr i, h) \<Longrightarrow>
    sys_step fails withdraws E cfg s (set_worker t (Acquired c cid i) h s)"
| no_device: "workers s t = Popped c cid \<Longrightarrow> scan_outcome fails (hs s) (Inl what, h) \<Longrightarrow>
    sys_step fails withdraws E cfg s (set_worker t Idle (worker_catch E c cid what h) s)"
| start: "workers s t = Acquired c cid i \<Longrightarrow> worker_start now c (hs s) = Some h \<Longrightarrow>
    sys_step fails withdraws E cfg s (set_worker t (Active c cid i) h s)"
| answer: "workers s t = Active c cid i \<Longrightarrow> locals (hs s) c = Some j \<Longrightarrow>
    generate E cfg rd (request j) = Inr mr \<Longrightarrow> worker_answer E c cid mr (hs s) = Some h \<Longrightarrow>
    sys_step fails withdraws E cfg s (set_worker t (Answered c cid i) h s)"
| throw: "workers s t = Active c cid i \<Longrightarrow> locals (hs s) c = Some j \<Longrightarrow>
    generate E cfg rd (request j) = Inl what \<Longrightarrow> fails \<Longrightarrow>
    sys_step fails withdraws E cfg s (set_worker t Idle (worker_catch E c cid what (hs s)) s)"
| release: "workers s t = Answered c cid i \<Longrightarrow> worker_release now c i (hs s) = Some h \<Longrightarrow>
    sys_step fails withdraws E cfg s (set_worker t (Released c cid) h s)"
| finish: "workers s t = Released c cid \<Longrightarrow> worker_finish c (hs s) = Some h \<Longrightarrow>
    sys_step fails withdraws E cfg s (set_worker t Idle h s)"

inductive reachable :: "bool \<Rightarrow> bool \<Rightarrow> ('p, 'f) env \<Rightarrow> config \<Rightarrow> sys \<Rightarrow> bool"
  for fails withdraws E cfg where
  init: "reachable fails withdraws E cfg (sys_init cfg)"
| step: "reachable fails withdraws E cfg s \<Longrightarrow> sys_step fails withdraws E cfg s s' \<Longrightarrow>
    reachable fails withdraws E cfg s'"

inductive_cases sys_stepE: "sys_step fails withdraws E cfg s s'"

interpretation sys_runs: transitions "\<lambda>s. s = sys_init cfg" "sys_step fails withdraws E cfg" "reachable fails withdraws E cfg"
  for fails withdraws E cfg
proof unfold_locales
  show "P s" if "reachable fails withdraws E cfg s" "\<And>s. s = sys_init cfg \<Longrightarrow> P s"
    "\<And>s s'. reachable fails withdraws E cfg s \<Longrightarrow> P s \<Longrightarrow> sys_step fails withdraws E cfg s s' \<Longrightarrow> P s'" for P s
    using that(1) by (induction rule: reachable.induct) (use that(2,3) in blast)+
qed (auto intro: reachable.intros)

lemma reachable_invariant:
  assumes "reachable fails withdraws E cfg s" and "I (sys_init cfg)"
    and "\<And>s s'. I s \<Longrightarrow> sys_step fails withdraws E cfg s s' \<Longrightarrow> I s'"
  shows "I s"
  by (rule sys_runs.invariant_holds [OF assms(1)]) (use assms(2,3) in auto)

section \<open>What the operations do\<close>

named_theorems handler_ops

lemma respond_simps [simp]:
  "answers (respond c x h) = answers h @ [(c, x)]" "jobs (respond c x h) = jobs h"
  "locals (respond c x h) = locals h" "active_jobs (respond c x h) = active_jobs h"
  "h_devices (respond c x h) = h_devices h" "completed_jobs (respond c x h) = completed_jobs h"
  "job_id_dispenser (respond c x h) = job_id_dispenser h"
  by (simp_all add: respond_def)

lemma worker_catch_simps [simp]:
  "map fst (answers (worker_catch E c cid what h)) = map fst (answers h) @ [c]"
  "jobs (worker_catch E c cid what h) = jobs h"
  "locals (worker_catch E c cid what h) = (locals h)(c := None)"
  "active_jobs (worker_catch E c cid what h) = active_jobs h"
  "h_devices (worker_catch E c cid what h) = h_devices h"
  "completed_jobs (worker_catch E c cid what h) = completed_jobs h"
  "job_id_dispenser (worker_catch E c cid what h) = job_id_dispenser h"
  by (simp_all add: worker_catch_def end_frame_def)

lemma worker_no_jobs_simps [simp]:
  "map fst (answers (worker_no_jobs E c cid h)) = map fst (answers h) @ [c]"
  "jobs (worker_no_jobs E c cid h) = jobs h" "locals (worker_no_jobs E c cid h) = locals h"
  "active_jobs (worker_no_jobs E c cid h) = active_jobs h"
  "h_devices (worker_no_jobs E c cid h) = h_devices h"
  "completed_jobs (worker_no_jobs E c cid h) = completed_jobs h"
  "job_id_dispenser (worker_no_jobs E c cid h) = job_id_dispenser h"
  by (simp_all add: worker_no_jobs_def)

lemma enqueue_None [handler_ops]:
  "enqueue cfg j q = (None, q') \<longleftrightarrow> length q < unat (request_limit (server cfg)) \<and> q' = pq_push j q"
  by (auto simp: enqueue_def)

lemma enqueue_Some [handler_ops]:
  "enqueue cfg j q = (Some what, q') \<longleftrightarrow> \<not> length q < unat (request_limit (server cfg)) \<and>
     what = ''Work request limit exceeded'' \<and> q' = q"
  by (auto simp: enqueue_def)

lemma worker_pop_True [handler_ops]:
  "worker_pop c h = (True, h') \<longleftrightarrow> jobs h \<noteq> [] \<and>
     h' = h\<lparr>jobs := tl (jobs h), locals := (locals h)(c \<mapsto> hd (jobs h))\<rparr>"
  by (auto simp: worker_pop_def pq_empty_def pq_pop_def pq_top_def)

lemma worker_pop_False [handler_ops]: "worker_pop c h = (False, h') \<longleftrightarrow> jobs h = [] \<and> h' = h"
  by (auto simp: worker_pop_def pq_empty_def)

lemma scan_Inr:
  "scan_outcome lost h (Inr i, h') \<longleftrightarrow> i < length (h_devices h) \<and> \<not> busy (h_devices h ! i)
    \<and> h' = h\<lparr>h_devices := (h_devices h)[i := (h_devices h ! i)\<lparr>busy := True\<rparr>]\<rparr>"
  by (simp add: scan_outcome.simps try_aquire_def)

lemma scan_Inl: "scan_outcome lost h (Inl what, h') \<Longrightarrow> (lost \<or> (\<forall>d \<in> set (h_devices h). busy d)) \<and> h' = h"
  by (simp add: scan_outcome.simps)

text \<open>A scan that nothing interleaves with is the function of the code.\<close>

lemma scan_undisturbed: "scan_outcome lost h (worker_acquire h)"
proof -
  obtain r ds where r: "find_available (h_devices h) = (r, ds)" by (cases "find_available (h_devices h)")
  show ?thesis
  proof (cases r)
    case None
    then show ?thesis
      using r find_available_None [of "h_devices h" ds]
      by (simp add: worker_acquire_def aquire_first_available_device_def scan_outcome.simps)
  next
    case (Some i)
    then show ?thesis
      using r find_available_Some [of "h_devices h" i ds]
      by (simp add: worker_acquire_def aquire_first_available_device_def scan_Inr)
  qed
qed

lemma worker_start_Some [handler_ops]:
  "worker_start now c h = Some h' \<longleftrightarrow> (\<exists>j ys. locals h c = Some j \<and>
     follow ((locals h)(c \<mapsto> job_start now j)) (active_jobs h) = Some ys \<and>
     h' = h\<lparr>locals := (locals h)(c \<mapsto> job_start now j), active_jobs := map fst (set_insert (c, job_start now j) ys)\<rparr>)"
  by (auto simp: worker_start_def active_insert_def Let_def split: option.splits)

lemma worker_answer_Some [handler_ops]:
  "worker_answer E c cid mr h = Some h' \<longleftrightarrow> (\<exists>j. locals h c = Some j \<and>
     h' = h\<lparr>locals := (locals h)(c \<mapsto> j\<lparr>job_res := snd mr\<rparr>),
            answers := answers h @ [(c, write_json E (work_response E cid (fst mr) (snd mr)))]\<rparr>)"
  by (auto simp: worker_answer_def respond_def split: option.splits)

lemma worker_release_Some [handler_ops]:
  "worker_release now c i h = Some h' \<longleftrightarrow> (\<exists>j. locals h c = Some j \<and>
     h' = h\<lparr>h_devices := release_device i (h_devices h), locals := (locals h)(c \<mapsto> job_stop now j)\<rparr>)"
  by (auto simp: worker_release_def split: option.splits)

lemma worker_finish_Some [handler_ops]:
  "worker_finish c h = Some h' \<longleftrightarrow> (\<exists>j ys. locals h c = Some j \<and>
     follow (locals h) (active_jobs h) = Some ys \<and>
     h' = h\<lparr>locals := (locals h)(c := None), active_jobs := map fst (set_erase j ys),
            completed_jobs := circular_push j (completed_jobs h)\<rparr>)"
  by (auto simp: worker_finish_def active_erase_def end_frame_def split: option.splits)

lemma handle_queue_request_Some [handler_ops]:
  "handle_queue_request E c h = Some h' \<longleftrightarrow>
     (\<exists>response. queue_response E h = Some response \<and> h' = respond c (write_json E response) h)"
  by (auto simp: handle_queue_request_def)

section \<open>Arrivals\<close>

lemma fill_job_id: "fill_job E cfg req j = Inr j' \<Longrightarrow> job_id j' = job_id j"
  by (auto simp: fill_job_def bind_result_Inr Let_def set_priority_def split: option.splits if_splits)

lemma job_ctor_id: "job_ctor M256 M128 d = Inr (j, d') \<Longrightarrow> job_id j = d \<and> d' = d + 1"
  by (auto simp: job_ctor_def bind_result_Inr)

lemma parse_generate_Inr:
  "parse_generate E cfg req d = (Inr j, d') \<Longrightarrow> devices cfg \<noteq> [] \<and> job_id j = d \<and> d' = d + 1"
  using fill_job_id job_ctor_id by (fastforce simp: parse_generate_def split: if_splits sum.splits)

lemma parse_generate_Inl: "parse_generate E cfg req d = (Inl what, d') \<Longrightarrow> d' = d \<or> d' = d + 1"
  by (auto simp: parse_generate_def split: if_splits sum.splits dest: job_ctor_id)

lemma parse_Enqueue:
  "parse_request E cfg body d = (Enqueue cid j, d') \<Longrightarrow> devices cfg \<noteq> [] \<and> job_id j = d \<and> d' = d + 1"
  by (auto simp: parse_request_def Let_def split: sum.splits if_splits prod.splits dest: parse_generate_Inr)

lemma parse_dispenser: "parse_request E cfg body d = (outcome, d') \<Longrightarrow> d' = d \<or> d' = d + 1"
  by (auto simp: parse_request_def Let_def split: sum.splits if_splits prod.splits
      dest: parse_generate_Inr parse_generate_Inl)

lemma work_cancel_queue:
  "work_cancel E cid req q = (r, q') \<Longrightarrow> queue_ordered q \<Longrightarrow> \<exists>P. q' = filter P q"
proof -
  assume cancel: "work_cancel E cid req q = (r, q')" and q: "queue_ordered q"
  then have "q' = q \<or> (\<exists>hash. q' = snd (remove_job (mp256 E) hash q))"
    by (auto simp: work_cancel_def Let_def split: option.splits sum.splits prod.splits if_splits) (metis snd_conv)+
  moreover have same: "\<exists>P. q = filter P q" by (rule exI [of _ "\<lambda>_. True"]) simp
  moreover have "\<exists>P. snd (remove_job (mp256 E) hash q) = filter P q" for hash
    unfolding remove_job_eq [OF q] snd_conv by (rule exI) (rule refl)
  ultimately show ?thesis by metis
qed

text \<open>
  A request is answered at once or becomes a flight; it changes the queue only when it cancels, and
  then by leaving jobs out.
\<close>

lemma arrive_cases [consumes 0, case_names now flight]:
  obtains (now) reply d q where "handle_request_async E cfg body s = s\<lparr>next_request := Suc (next_request s),
      hs := respond (next_request s) reply ((hs s)\<lparr>job_id_dispenser := d, jobs := q\<rparr>)\<rparr>"
      and "d = job_id_dispenser (hs s) \<or> d = job_id_dispenser (hs s) + 1"
      and "\<not> is_cancel E cfg body s \<Longrightarrow> q = jobs (hs s)"
      and "queue_ordered (jobs (hs s)) \<Longrightarrow> \<exists>P. q = filter P (jobs (hs s))"
  | (flight) cid j where "handle_request_async E cfg body s = s\<lparr>next_request := Suc (next_request s),
      hs := (hs s)\<lparr>job_id_dispenser := job_id_dispenser (hs s) + 1\<rparr>,
      flights := flights s @ [(next_request s, Locking cid j)]\<rparr>"
      and "devices cfg \<noteq> []" and "job_id j = job_id_dispenser (hs s)"
proof -
  obtain outcome d where parse: "parse_request E cfg body (job_id_dispenser (hs s)) = (outcome, d)"
    by (cases "parse_request E cfg body (job_id_dispenser (hs s))")
  note d = parse_dispenser [OF parse]
  have all: "\<exists>P. jobs (hs s) = filter P (jobs (hs s))" by (rule exI [of _ "\<lambda>_. True"]) simp
  show thesis
  proof (cases outcome)
    case (Refused cid what)
    show thesis
      by (rule now [where d = d and q = "jobs (hs s)"]) (use parse Refused d all in \<open>simp_all add: handle_request_async_def Let_def\<close>)
  next
    case (Enqueue cid j)
    then show thesis
      using parse parse_Enqueue [of E cfg body "job_id_dispenser (hs s)" cid j d]
      by (intro flight [where cid = cid and j = j]) (simp_all add: handle_request_async_def Let_def)
  next
    case (Validated cid r)
    show thesis
      by (rule now [where d = d and q = "jobs (hs s)"]) (use parse Validated d all in \<open>simp_all add: handle_request_async_def Let_def\<close>)
  next
    case (Cancel cid req)
    obtain r q where cancel: "work_cancel E cid req (jobs (hs s)) = (r, q)"
      by (cases "work_cancel E cid req (jobs (hs s))")
    show thesis
      by (rule now [where reply = "case r of Inl what \<Rightarrow> create_error_response E cid what | Inr x \<Rightarrow> write_json E x" and d = d and q = q])
        (use parse Cancel d cancel work_cancel_queue [OF cancel] in
          \<open>simp_all add: handle_request_async_def Let_def cancel_def is_cancel_def split: sum.splits\<close>)
  qed
qed

section \<open>Where the requests are\<close>

text \<open>Threads outside the pool do nothing, and without devices no request is taken in.\<close>

definition pool_ok :: "config \<Rightarrow> sys \<Rightarrow> bool" where
  "pool_ok cfg s \<longleftrightarrow> (\<forall>t. workers s t \<noteq> Idle \<longrightarrow> t < length (devices cfg)) \<and>
     (devices cfg = [] \<longrightarrow> flights s = [] \<and> posted s = [])"

lemma pool_ok_step: "sys_step fails withdraws E cfg s s' \<Longrightarrow> pool_ok cfg s \<Longrightarrow> pool_ok cfg s'"
proof (induction rule: sys_step.induct)
  case (arrive body s)
  then show ?case by (cases rule: arrive_cases [of E cfg body s]) (auto simp: pool_ok_def)
qed (auto simp: pool_ok_def split: if_splits)

lemma reachable_pool_ok: "reachable fails withdraws E cfg s \<Longrightarrow> pool_ok cfg s"
  by (rule reachable_invariant) (auto simp: pool_ok_def sys_init_def dest: pool_ok_step [unfolded pool_ok_def])

fun pc_owner :: "worker_pc \<Rightarrow> nat multiset" where
  "pc_owner (Begun c _) = {#c#}"
| "pc_owner (Popped c _) = {#c#}"
| "pc_owner (Acquired c _ _) = {#c#}"
| "pc_owner (Active c _ _) = {#c#}"
| "pc_owner _ = {#}"

text \<open>A quantity that each thread of the pool contributes to.\<close>

definition pool_sum :: "config \<Rightarrow> (worker_pc \<Rightarrow> 'a::comm_monoid_add) \<Rightarrow> (nat \<Rightarrow> worker_pc) \<Rightarrow> 'a" where
  "pool_sum cfg f w = (\<Sum>t < length (devices cfg). f (w t))"

lemma pool_sum_upd:
  assumes "t < length (devices cfg)"
  shows "pool_sum cfg f (w(t := x)) + f (w t) = pool_sum cfg f w + f x"
  unfolding pool_sum_def by (rule sum_fun_upd [OF assms])

lemma pool_sum_move:
  assumes "pool_ok cfg s" and "workers s t \<noteq> Idle"
  shows "pool_sum cfg f ((workers s)(t := pc)) + f (workers s t) = pool_sum cfg f (workers s) + f pc"
  using assms by (intro pool_sum_upd) (simp add: pool_ok_def)

lemma pool_sum_same:
  fixes f :: "worker_pc \<Rightarrow> 'a::cancel_comm_monoid_add"
  assumes "pool_ok cfg s" and "workers s t \<noteq> Idle" and "f (workers s t) = f pc"
  shows "pool_sum cfg f ((workers s)(t := pc)) = pool_sum cfg f (workers s)"
  using pool_sum_move [OF assms(1,2), of f pc] assms(3) by simp

lemma pool_sum_idle:
  "(\<And>t. w t = Idle) \<Longrightarrow> f Idle = 0 \<Longrightarrow> pool_sum cfg f w = 0"
  by (simp add: pool_sum_def)

text \<open>The requests that have an answer, are in flight, posted, or being worked on.\<close>

definition whereabouts :: "config \<Rightarrow> sys \<Rightarrow> nat multiset" where
  "whereabouts cfg s = mset (map fst (answers (hs s))) + mset (map fst (flights s))
     + mset (map fst (posted s)) + pool_sum cfg pc_owner (workers s)"

lemma whereabouts_worker:
  assumes "pool_ok cfg s" and "whereabouts cfg s = mset [0..<next_request s]" and "workers s t \<noteq> Idle"
    and "mset (map fst (answers h)) + pc_owner pc = mset (map fst (answers (hs s))) + pc_owner (workers s t)"
  shows "whereabouts cfg (set_worker t pc h s) = mset [0..<next_request (set_worker t pc h s)]"
proof -
  have move: "a + f + p + b = a' + f + p + b'"
    if "a + y = a' + x" and "b + x = b' + y" for a a' b b' f p x y :: "nat multiset"
  proof -
    have "(a + y) + (b + x) + (f + p) = (a' + x) + (b' + y) + (f + p)" by (simp only: that)
    then have "(a + f + p + b) + (x + y) = (a' + f + p + b') + (x + y)" by (simp only: ac_simps)
    then show ?thesis by (rule add_right_imp_eq)
  qed
  have "whereabouts cfg (set_worker t pc h s) = whereabouts cfg s"
    using move [OF assms(4) pool_sum_move [OF assms(1,3), of pc_owner pc]]
    by (simp add: whereabouts_def)
  then show ?thesis using assms(2) by simp
qed

lemma whereabouts_step:
  assumes "sys_step fails withdraws E cfg s s'"
    and "pool_ok cfg s" and "whereabouts cfg s = mset [0..<next_request s]"
  shows "whereabouts cfg s' = mset [0..<next_request s']"
  using assms
proof (induction rule: sys_step.induct)
  case (arrive body s)
  then show ?case by (cases rule: arrive_cases [of E cfg body s]) (auto simp: whereabouts_def)
next
  case (take_task t s c cid rest)
  then show ?case using pool_sum_upd [of t cfg pc_owner "workers s" "Begun c cid"]
    by (simp add: whereabouts_def)
next
  case (no_device s t c cid what h)
  then show ?case by (intro whereabouts_worker) (auto dest: scan_Inl)
next
  case (acquire s t c cid i h)
  then show ?case by (intro whereabouts_worker) (auto simp: scan_Inr)
qed ((rule whereabouts_worker; force simp: handler_ops) |
    (auto simp: whereabouts_def handler_ops handle_queue_delete_request_def; fail))+

lemma reachable_whereabouts:
  "reachable fails withdraws E cfg s \<Longrightarrow> whereabouts cfg s = mset [0..<next_request s]"
proof -
  assume reach: "reachable fails withdraws E cfg s"
  have "pool_ok cfg s \<and> whereabouts cfg s = mset [0..<next_request s]"
    using reach
  proof (rule reachable_invariant)
    show "pool_ok cfg (sys_init cfg) \<and> whereabouts cfg (sys_init cfg) = mset [0..<next_request (sys_init cfg)]"
      by (simp add: pool_ok_def whereabouts_def sys_init_def handler_ctor_def pool_sum_idle)
  qed (use pool_ok_step whereabouts_step in blast)
  then show ?thesis by simp
qed

section \<open>Jobs and tickets\<close>

text \<open>A ticket is a request whose handler has yet to take a job: about to be posted, posted or begun.\<close>

fun is_posting :: "request_pc \<Rightarrow> bool" where
  "is_posting (Posting _) = True"
| "is_posting (Locking _ _) = False"

fun pc_ticket :: "worker_pc \<Rightarrow> nat" where
  "pc_ticket (Begun _ _) = 1"
| "pc_ticket _ = 0"

definition tickets :: "config \<Rightarrow> sys \<Rightarrow> nat" where
  "tickets cfg s = length (filter (is_posting \<circ> snd) (flights s)) + length (posted s)
     + pool_sum cfg pc_ticket (workers s)"

definition queue_inv :: "bool \<Rightarrow> config \<Rightarrow> sys \<Rightarrow> bool" where
  "queue_inv withdraws cfg s \<longleftrightarrow> queue_ordered (jobs (hs s))
     \<and> length (jobs (hs s)) \<le> unat (request_limit (server cfg))
     \<and> length (jobs (hs s)) \<le> tickets cfg s
     \<and> (\<not> withdraws \<longrightarrow> length (jobs (hs s)) = tickets cfg s)"

lemma length_filter_le_trans: "length xs \<le> n \<Longrightarrow> length (filter P xs) \<le> n"
  by (rule order_trans [OF length_filter_le])

lemma queue_inv_step:
  assumes "sys_step fails withdraws E cfg s s'"
    and "pool_ok cfg s" and "queue_inv withdraws cfg s"
  shows "queue_inv withdraws cfg s'"
  using assms
proof (induction rule: sys_step.induct)
  case (arrive body s)
  then show ?case
  proof (cases rule: arrive_cases [of E cfg body s])
    case (now reply d q)
    obtain P where q: "q = filter P (jobs (hs s))" using now arrive.prems by (auto simp: queue_inv_def)
    have "q = jobs (hs s)" if "\<not> withdraws" using that now(3) arrive.hyps by blast
    then show ?thesis using now arrive.prems unfolding queue_inv_def tickets_def
      by (auto simp: q intro: sorted_wrt_filter length_filter_le_trans)
  qed (auto simp: queue_inv_def tickets_def)
next
  case (delete_queue s)
  then show ?case by (auto simp: queue_inv_def tickets_def handle_queue_delete_request_def)
next
  case (lock s xs c cid j ys q)
  then have q: "q = pq_push j (jobs (hs s))" and "queue_ordered (jobs (hs s))"
    by (simp_all add: handler_ops queue_inv_def)
  then have "queue_ordered q" and "length q = Suc (length (jobs (hs s)))"
    by (simp only: queue_ordered_push, simp add: pq_push_def)
  then show ?case using lock by (auto simp: queue_inv_def tickets_def handler_ops)
next
  case (take_task t s c cid rest)
  then show ?case using pool_sum_upd [of t cfg pc_ticket "workers s" "Begun c cid"]
    by (simp add: queue_inv_def tickets_def)
next
  case (pop s t c cid h)
  then show ?case using pool_sum_move [of cfg s t pc_ticket "Popped c cid"]
    by (cases "jobs (hs s)") (auto simp: queue_inv_def tickets_def handler_ops)
next
  case (no_jobs s t c cid h)
  then show ?case using pool_sum_move [of cfg s t pc_ticket Idle]
    by (auto simp: queue_inv_def tickets_def handler_ops)
next
  case (acquire s t c cid i h)
  then show ?case by (auto simp: queue_inv_def tickets_def pool_sum_same scan_Inr)
next
  case (no_device s t c cid what h)
  then show ?case by (auto simp: queue_inv_def tickets_def pool_sum_same dest!: scan_Inl)
qed (auto simp: queue_inv_def tickets_def handler_ops pool_sum_same)

lemma reachable_queue_inv: "reachable fails withdraws E cfg s \<Longrightarrow> queue_inv withdraws cfg s"
proof -
  assume reach: "reachable fails withdraws E cfg s"
  have "pool_ok cfg s \<and> queue_inv withdraws cfg s"
    using reach
  proof (rule reachable_invariant)
    show "pool_ok cfg (sys_init cfg) \<and> queue_inv withdraws cfg (sys_init cfg)"
      by (simp add: pool_ok_def queue_inv_def tickets_def sys_init_def handler_ctor_def pool_sum_idle)
  qed (use pool_ok_step queue_inv_step in blast)
  then show ?thesis by simp
qed

section \<open>One frame per request\<close>

fun pc_client :: "worker_pc \<Rightarrow> nat multiset" where
  "pc_client Idle = {#}"
| "pc_client (Begun c _) = {#c#}"
| "pc_client (Popped c _) = {#c#}"
| "pc_client (Acquired c _ _) = {#c#}"
| "pc_client (Active c _ _) = {#c#}"
| "pc_client (Answered c _ _) = {#c#}"
| "pc_client (Released c _) = {#c#}"

text \<open>The thread has a variable \<open>job\<close>; it may be in \<open>active_jobs\<close>; it holds a device.\<close>

fun pc_job :: "worker_pc \<Rightarrow> nat option" where
  "pc_job Idle = None"
| "pc_job (Begun _ _) = None"
| "pc_job (Popped c _) = Some c"
| "pc_job (Acquired c _ _) = Some c"
| "pc_job (Active c _ _) = Some c"
| "pc_job (Answered c _ _) = Some c"
| "pc_job (Released c _) = Some c"

fun pc_listed :: "worker_pc \<Rightarrow> nat option" where
  "pc_listed (Active c _ _) = Some c"
| "pc_listed (Answered c _ _) = Some c"
| "pc_listed (Released c _) = Some c"
| "pc_listed _ = None"

fun pc_device :: "worker_pc \<Rightarrow> nat option" where
  "pc_device (Acquired _ _ i) = Some i"
| "pc_device (Active _ _ i) = Some i"
| "pc_device (Answered _ _ i) = Some i"
| "pc_device _ = None"

lemma pc_job_client: "pc_job pc = Some c \<Longrightarrow> pc_client pc = {#c#}"
  by (cases pc) auto

lemma pc_listed_job: "pc_listed pc = Some c \<Longrightarrow> pc_job pc = Some c"
  by (cases pc) auto

definition present :: "config \<Rightarrow> sys \<Rightarrow> nat multiset" where
  "present cfg s = mset (map fst (flights s)) + mset (map fst (posted s)) + pool_sum cfg pc_client (workers s)"

definition requests :: "nat \<Rightarrow> nat multiset" where
  "requests n = mset [0..<n]"

lemma requests_Suc [simp]: "requests (Suc n) = add_mset n (requests n)"
  by (simp add: requests_def)

definition present_inv :: "config \<Rightarrow> sys \<Rightarrow> bool" where
  "present_inv cfg s \<longleftrightarrow> present cfg s \<subseteq># requests (next_request s)"

lemma sub_add_mset: "M \<subseteq># N \<Longrightarrow> M \<subseteq># add_mset x N"
  by (metis mset_subset_eq_add_right add_mset_add_single subset_mset.order_trans union_commute)

lemma present_inv_worker:
  assumes "pool_ok cfg s" and "present_inv cfg s" and "workers s t \<noteq> Idle"
    and "pc_client pc \<subseteq># pc_client (workers s t)"
  shows "present_inv cfg (set_worker t pc h s)"
proof -
  have "pool_sum cfg pc_client ((workers s)(t := pc)) + pc_client (workers s t)
      \<subseteq># pool_sum cfg pc_client (workers s) + pc_client (workers s t)"
    unfolding pool_sum_move [OF assms(1,3)] by (rule subset_mset.add_left_mono [OF assms(4)])
  then have "pool_sum cfg pc_client ((workers s)(t := pc)) \<subseteq># pool_sum cfg pc_client (workers s)"
    by simp
  then have "present cfg (set_worker t pc h s) \<subseteq># present cfg s"
    by (simp add: present_def)
  then show ?thesis using assms(2) unfolding present_inv_def by (auto intro: subset_mset.order_trans)
qed

lemma present_inv_step:
  assumes "sys_step fails withdraws E cfg s s'" and "pool_ok cfg s" and "present_inv cfg s"
  shows "present_inv cfg s'"
  using assms
proof (induction rule: sys_step.induct)
  case (arrive body s)
  then show ?case
    by (cases rule: arrive_cases [of E cfg body s]) (simp_all add: present_inv_def present_def sub_add_mset add.assoc)
next
  case (lock_full s xs c cid j ys what q)
  then have "present cfg s = add_mset c (present cfg (s\<lparr>flights := xs @ ys\<rparr>))" by (simp add: present_def)
  then have "add_mset c (present cfg (s\<lparr>flights := xs @ ys\<rparr>)) \<subseteq># requests (next_request s)"
    using lock_full.prems by (simp add: present_inv_def)
  then show ?case
    by (auto simp: present_inv_def present_def dest: mset_subset_eq_insertD intro: subset_mset.less_imp_le)
next
  case (take_task t s c cid rest)
  then show ?case using pool_sum_upd [of t cfg pc_client "workers s" "Begun c cid"]
    by (simp add: present_inv_def present_def)
qed ((rule present_inv_worker; force) | (simp add: present_inv_def present_def sub_add_mset; fail))+

lemma pool_sum_two:
  fixes f :: "worker_pc \<Rightarrow> 'a multiset"
  assumes "t \<noteq> u" and "t < length (devices cfg)" and "u < length (devices cfg)"
  shows "f (w t) + f (w u) \<subseteq># pool_sum cfg f w"
proof -
  let ?N = "{..<length (devices cfg)}"
  have t: "t \<in> ?N" and u: "u \<in> ?N - {t}" using assms by auto
  have "pool_sum cfg f w = f (w t) + (f (w u) + (\<Sum>v \<in> ?N - {t} - {u}. f (w v)))"
    unfolding pool_sum_def by (simp only: sum.remove [OF _ t] sum.remove [OF _ u] finite_lessThan finite_Diff)
  then show ?thesis by (simp add: add.assoc [symmetric])
qed

lemma one_client:
  assumes "pool_ok cfg s" and "present_inv cfg s"
    and "pc_client (workers s t) = {#c#}" and "pc_client (workers s u) = {#c#}"
  shows "t = u"
proof (rule ccontr)
  assume "t \<noteq> u"
  moreover have "t < length (devices cfg)" "u < length (devices cfg)"
    using assms(1,3,4) by (force simp: pool_ok_def)+
  ultimately have "{#c#} + {#c#} \<subseteq># pool_sum cfg pc_client (workers s)"
    using pool_sum_two [of t u cfg pc_client "workers s"] assms(3,4) by metis
  then have "{#c#} + {#c#} \<subseteq># requests (next_request s)"
    using assms(2) unfolding present_inv_def present_def
    by (meson mset_subset_eq_add_right subset_mset.order_trans)
  then have "count ({#c#} + {#c#}) c \<le> count (requests (next_request s)) c"
    by (rule mset_subset_eq_count)
  moreover have "count (requests n) c \<le> 1" for n
    by (simp add: requests_def count_mset_set')
  ultimately show False by (metis count_add_mset count_single add_mset_add_single not_less_eq_eq One_nat_def)
qed

lemma one_frame:
  "pool_ok cfg s \<Longrightarrow> present_inv cfg s \<Longrightarrow> pc_job (workers s t) = Some c \<Longrightarrow>
   pc_job (workers s u) = Some c \<Longrightarrow> t = u"
  using one_client [of cfg s t c u] pc_job_client by blast

section \<open>Devices\<close>

definition device_inv :: "bool \<Rightarrow> config \<Rightarrow> sys \<Rightarrow> bool" where
  "device_inv fails cfg s \<longleftrightarrow> length (h_devices (hs s)) = length (devices cfg)
     \<and> (\<forall>t i. pc_device (workers s t) = Some i \<longrightarrow> i < length (devices cfg) \<and> busy (h_devices (hs s) ! i))
     \<and> (\<forall>t u i. pc_device (workers s t) = Some i \<longrightarrow> pc_device (workers s u) = Some i \<longrightarrow> t = u)
     \<and> (\<not> fails \<longrightarrow> (\<forall>i < length (devices cfg). busy (h_devices (hs s) ! i) \<longrightarrow>
          (\<exists>t. pc_device (workers s t) = Some i)))"

lemma device_inv_worker:
  assumes "device_inv fails cfg s" and "pc_device pc = pc_device (workers s t)" and "h_devices h = h_devices (hs s)"
  shows "device_inv fails cfg (set_worker t pc h s)"
proof -
  have "pc_device (((workers s)(t := pc)) u) = pc_device (workers s u)" for u using assms(2) by simp
  then show ?thesis using assms(1,3) by (simp add: device_inv_def)
qed

lemma device_inv_same:
  "device_inv fails cfg s \<Longrightarrow> workers s' = workers s \<Longrightarrow> h_devices (hs s') = h_devices (hs s) \<Longrightarrow>
   device_inv fails cfg s'"
  by (simp add: device_inv_def)

lemma device_inv_step:
  assumes "sys_step fails withdraws E cfg s s'" and "device_inv fails cfg s"
  shows "device_inv fails cfg s'"
  using assms
proof (induction rule: sys_step.induct)
  case (arrive body s)
  then show ?case
    by (cases rule: arrive_cases [of E cfg body s]) (auto intro: device_inv_same)
next
  case (take_task t s c cid rest)
  then have "pc_device (((workers s)(t := Begun c cid)) u) = pc_device (workers s u)" for u by simp
  then show ?case using take_task by (simp add: device_inv_def)
next
  case (acquire s t c cid i h)
  note hit = scan_Inr [THEN iffD1, OF acquire.hyps(2)]
  have other: "pc_device (workers s u) \<noteq> Some i" for u using acquire.prems hit by (auto simp: device_inv_def)
  have "\<exists>u. pc_device (((workers s)(t := Acquired c cid i)) u) = Some k"
    if k: "\<not> fails" "k < length (devices cfg)" "busy ((h_devices (hs s))[i := (h_devices (hs s) ! i)\<lparr>busy := True\<rparr>] ! k)" for k
  proof (cases "k = i")
    case True
    then show ?thesis by (intro exI [of _ t]) simp
  next
    case False
    then obtain u where "pc_device (workers s u) = Some k" using k acquire.prems by (auto simp: device_inv_def)
    then show ?thesis using acquire.hyps(1) by (intro exI [of _ u]) auto
  qed
  then show ?case using acquire.prems hit other by (auto simp: device_inv_def nth_list_update)
next
  case (no_device s t c cid what h)
  then show ?case by (intro device_inv_worker) (auto dest: scan_Inl)
next
  case (throw s t c cid i j rd what)
  then show ?case by (auto simp: device_inv_def)
next
  case (release s t c cid i now h)
  then obtain j where h: "h = (hs s)\<lparr>h_devices := release_device i (h_devices (hs s)), locals := (locals (hs s))(c \<mapsto> j)\<rparr>"
    by (auto simp: handler_ops)
  have "\<exists>u. pc_device (((workers s)(t := Released c cid)) u) = Some k"
    if k: "\<not> fails" "k < length (devices cfg)" "busy (release_device i (h_devices (hs s)) ! k)" for k
  proof -
    have "pc_device (workers s t) = Some i" using release.hyps by simp
    then have i: "i < length (h_devices (hs s))" using release.prems by (simp add: device_inv_def)
    then have "k \<noteq> i" using k by (auto simp: release_device_def release_def)
    then have "busy (h_devices (hs s) ! k)" using k by (simp add: release_device_def)
    then obtain u where u: "pc_device (workers s u) = Some k"
      using k release.prems unfolding device_inv_def by blast
    then have "u \<noteq> t" using \<open>k \<noteq> i\<close> release.hyps(1) by auto
    then show ?thesis using u by (intro exI [of _ u]) simp
  qed
  moreover have "busy (release_device i (h_devices (hs s)) ! k)"
    if k: "pc_device (((workers s)(t := Released c cid)) u) = Some k" for u k
  proof -
    have u: "u \<noteq> t" "pc_device (workers s u) = Some k" using k by (auto split: if_splits)
    then have "k \<noteq> i" using release by (auto simp: device_inv_def)
    then show ?thesis using u release.prems by (simp add: release_device_def device_inv_def)
  qed
  ultimately show ?case using release.prems unfolding h
    by (auto simp: device_inv_def release_device_def split: if_splits)
qed ((rule device_inv_worker; force simp: handler_ops) |
    (erule device_inv_same; auto simp: handler_ops handle_queue_delete_request_def))+

text \<open>Without failures a thread that looks for a device finds one, by the pigeonhole principle.\<close>

lemma device_available:
  assumes "device_inv False cfg s" and "pool_ok cfg s" and "workers s t = Popped c cid"
  shows "\<not> (\<forall>d \<in> set (h_devices (hs s)). busy d)"
proof
  assume "\<forall>d \<in> set (h_devices (hs s)). busy d"
  then have "\<exists>u. pc_device (workers s u) = Some i" if "i < length (devices cfg)" for i
    using that assms(1) by (simp add: device_inv_def)
  then obtain f where f: "\<And>i. i < length (devices cfg) \<Longrightarrow> pc_device (workers s (f i)) = Some i" by metis
  let ?N = "{..<length (devices cfg)}"
  have "inj_on f ?N" by (rule inj_onI) (metis f lessThan_iff option.inject)
  moreover have "f ` ?N \<subseteq> ?N - {t}"
  proof
    fix u assume "u \<in> f ` ?N"
    then obtain i where "i < length (devices cfg)" "u = f i" by auto
    then have "pc_device (workers s u) = Some i" using f by simp
    then show "u \<in> ?N - {t}" using assms(2,3) by (cases "workers s u") (auto simp: pool_ok_def)
  qed
  ultimately have "card ?N \<le> card (?N - {t})" by (metis card_inj_on_le finite_Diff finite_lessThan)
  moreover have "t \<in> ?N" using assms(2,3) by (simp add: pool_ok_def)
  ultimately show False by (simp add: card_Diff_singleton)
qed

lemma scan_succeeds:
  assumes "device_inv False cfg s" and "pool_ok cfg s" and "workers s t = Popped c cid"
  shows "\<exists>i h. worker_acquire (hs s) = (Inr i, h)"
proof (cases "worker_acquire (hs s)")
  case (Pair r h)
  then show ?thesis
    using scan_undisturbed [of False "hs s"] device_available [OF assms] by (cases r) (auto dest: scan_Inl)
qed

section \<open>References\<close>

lemma set_insert_subset: "set (set_insert x ys) \<subseteq> insert x (set ys)"
  by (induction x ys rule: set_insert.induct) auto

lemma set_erase_subset:
  assumes "follow m as = Some ys" and "m c = Some j"
  shows "fst ` set (set_erase j ys) \<subseteq> set as - {c}"
proof
  fix a assume "a \<in> fst ` set (set_erase j ys)"
  then obtain j' where "(a, j') \<in> set ys" and not_equiv: "comparator j j' \<or> comparator j' j"
    by (auto simp: set_erase_def)
  then have "a \<in> set as" "m a = Some j'" using follow_Some [OF assms(1)] by force+
  then show "a \<in> set as - {c}" using not_equiv assms(2) by auto
qed

text \<open>
  Every local variable that a thread uses exists; without failures every reference in
  \<open>active_jobs\<close> belongs to a thread that is between inserting and erasing it.
\<close>

definition ref_inv :: "bool \<Rightarrow> sys \<Rightarrow> bool" where
  "ref_inv fails s \<longleftrightarrow>
     (\<forall>t c. pc_job (workers s t) = Some c \<longrightarrow> locals (hs s) c \<noteq> None) \<and>
     (\<not> fails \<longrightarrow> (\<forall>a \<in> set (active_jobs (hs s)). \<exists>t. pc_listed (workers s t) = Some a))"

lemma ref_inv_same:
  "ref_inv fails s \<Longrightarrow> workers s' = workers s \<Longrightarrow> locals (hs s') = locals (hs s) \<Longrightarrow>
   active_jobs (hs s') = active_jobs (hs s) \<Longrightarrow> ref_inv fails s'"
  by (simp add: ref_inv_def)

lemma ref_inv_local: "ref_inv fails s \<Longrightarrow> pc_job (workers s t) = Some c \<Longrightarrow> \<exists>j. locals (hs s) c = Some j"
  by (auto simp: ref_inv_def)

lemma ref_inv_end_frame:
  assumes "ref_inv fails s" and "pool_ok cfg s" and "present_inv cfg s"
    and "pc_job (workers s t) = Some c" and "locals h = (locals (hs s))(c := None)"
    and "\<not> fails \<Longrightarrow> \<forall>a \<in> set (active_jobs h). a \<in> set (active_jobs (hs s)) \<and> pc_listed (workers s t) \<noteq> Some a"
  shows "ref_inv fails (set_worker t Idle h s)"
proof -
  have "locals h a \<noteq> None" if a: "pc_job (((workers s)(t := Idle)) u) = Some a" for u a
  proof -
    have u: "u \<noteq> t" "pc_job (workers s u) = Some a" using a by (auto split: if_splits)
    then have "a \<noteq> c" using one_frame [OF assms(2,3,4)] by blast
    then show ?thesis using u assms(1,5) by (simp add: ref_inv_def)
  qed
  moreover have "\<exists>u. pc_listed (((workers s)(t := Idle)) u) = Some a"
    if a: "\<not> fails" "a \<in> set (active_jobs h)" for a
  proof -
    obtain u where u: "pc_listed (workers s u) = Some a"
      using assms(1) assms(6) [OF a(1)] a unfolding ref_inv_def by blast
    then have "u \<noteq> t" using assms(6) [OF a(1)] a by blast
    then show ?thesis using u by (intro exI [of _ u]) simp
  qed
  ultimately show ?thesis unfolding ref_inv_def by simp
qed

lemma ref_inv_worker:
  assumes "ref_inv fails s" and "pc_job pc \<noteq> None \<Longrightarrow> locals h (the (pc_job pc)) \<noteq> None"
    and "\<And>a. locals (hs s) a \<noteq> None \<Longrightarrow> locals h a \<noteq> None"
    and "pc_listed (workers s t) \<noteq> None \<Longrightarrow> pc_listed pc = pc_listed (workers s t)"
    and "set (active_jobs h) \<subseteq> set_option (pc_listed pc) \<union> set (active_jobs (hs s))"
  shows "ref_inv fails (set_worker t pc h s)"
proof -
  have "locals h a \<noteq> None" if a: "pc_job (((workers s)(t := pc)) u) = Some a" for u a
    using assms(1-3) a by (cases "u = t") (auto simp: ref_inv_def)
  moreover have "\<exists>u. pc_listed (((workers s)(t := pc)) u) = Some a"
    if a: "\<not> fails" "a \<in> set (active_jobs h)" for a
  proof (cases "pc_listed pc = Some a")
    case True
    then show ?thesis by (intro exI [of _ t]) simp
  next
    case False
    then have "a \<in> set (active_jobs (hs s))" using assms(5) a by auto
    then obtain u where u: "pc_listed (workers s u) = Some a"
      using assms(1) a unfolding ref_inv_def by blast
    then have "u \<noteq> t" using assms(4) False by auto
    then show ?thesis using u by (intro exI [of _ u]) simp
  qed
  ultimately show ?thesis unfolding ref_inv_def by simp
qed

lemma ref_inv_step:
  assumes "sys_step fails withdraws E cfg s s'"
    and "pool_ok cfg s" and "present_inv cfg s" and "ref_inv fails s"
  shows "ref_inv fails s'"
  using assms
proof (induction rule: sys_step.induct)
  case (arrive body s)
  then show ?case
    by (cases rule: arrive_cases [of E cfg body s]) (auto intro: ref_inv_same)
next
  case (take_task t s c cid rest)
  then show ?case using ref_inv_worker [of fails s "Begun c cid" "hs s" t] by (simp add: ref_inv_def)
next
  case (acquire s t c cid i h)
  then show ?case using ref_inv_local [of fails s t c]
    by (intro ref_inv_worker) (auto simp: scan_Inr)
next
  case (no_device s t c cid what h)
  then show ?case by (intro ref_inv_end_frame [where c = c]) (auto dest!: scan_Inl)
next
  case (throw s t c cid i j rd what)
  then show ?case by (intro ref_inv_end_frame [where c = c]) auto
next
  case (start s t c cid i now h)
  then obtain j ys where follow: "follow ((locals (hs s))(c \<mapsto> job_start now j)) (active_jobs (hs s)) = Some ys"
    and h: "h = (hs s)\<lparr>locals := (locals (hs s))(c \<mapsto> job_start now j),
              active_jobs := map fst (set_insert (c, job_start now j) ys)\<rparr>"
    by (auto simp: handler_ops)
  have "fst ` set (set_insert (c, job_start now j) ys) \<subseteq> insert c (fst ` set ys)"
    using set_insert_subset [of "(c, job_start now j)" ys] by auto
  also have "fst ` set ys = set (active_jobs (hs s))" using follow_Some [OF follow] by (metis set_map)
  finally show ?case using start by (intro ref_inv_worker) (auto simp: h)
next
  case (finish s t c cid h)
  then obtain j ys where "locals (hs s) c = Some j" and "follow (locals (hs s)) (active_jobs (hs s)) = Some ys"
    and h: "h = (hs s)\<lparr>locals := (locals (hs s))(c := None), active_jobs := map fst (set_erase j ys),
              completed_jobs := circular_push j (completed_jobs (hs s))\<rparr>"
    by (auto simp: handler_ops)
  then have "fst ` set (set_erase j ys) \<subseteq> set (active_jobs (hs s)) - {c}"
    by (intro set_erase_subset)
  then show ?case using finish by (intro ref_inv_end_frame [where c = c]) (auto simp: h)
qed ((rule ref_inv_worker; force simp: handler_ops) |
    (erule ref_inv_same; auto simp: handler_ops handle_queue_delete_request_def))+

end
