(* ===== verification/Requests.thy ===== *)
theory Requests
  imports System
begin

text \<open>
  What the run of the work server guarantees: every request is answered exactly once, the queue
  stays within its limit, references stay valid while nothing throws; and what it does not: that
  the answer to a request is work for its own hash, and that a device survives an exception.
\<close>

section \<open>The invariants together\<close>

definition sys_inv :: "bool \<Rightarrow> config \<Rightarrow> sys \<Rightarrow> bool" where
  "sys_inv fails cfg s \<longleftrightarrow> pool_ok cfg s \<and> present_inv cfg s \<and> device_inv fails cfg s \<and> ref_inv fails s
     \<and> length (completed_jobs (hs s)) \<le> completed_capacity"

lemma length_circular_push: "length buf \<le> completed_capacity \<Longrightarrow> length (circular_push j buf) \<le> completed_capacity"
  by (simp add: circular_push_def)

lemma completed_step:
  "sys_step fails withdraws E cfg s s' \<Longrightarrow> length (completed_jobs (hs s)) \<le> completed_capacity \<Longrightarrow>
   length (completed_jobs (hs s')) \<le> completed_capacity"
proof (induction rule: sys_step.induct)
  case (arrive body s)
  then show ?case by (cases rule: arrive_cases [of E cfg body s]) auto
next
  case (acquire s t c cid i h)
  then show ?case by (auto simp: scan_Inr)
next
  case (no_device s t c cid what h)
  then show ?case by (auto dest!: scan_Inl)
qed (auto simp: handler_ops handle_queue_delete_request_def intro: length_circular_push)

lemma sys_inv_init: "sys_inv fails cfg (sys_init cfg)"
  by (simp add: sys_inv_def pool_ok_def present_inv_def present_def device_inv_def ref_inv_def
      sys_init_def handler_ctor_def pool_sum_idle requests_def register_device_def)

lemma sys_inv_step: "sys_inv fails cfg s \<Longrightarrow> sys_step fails withdraws E cfg s s' \<Longrightarrow> sys_inv fails cfg s'"
  unfolding sys_inv_def
  using pool_ok_step present_inv_step device_inv_step ref_inv_step completed_step by metis

lemma reachable_sys_inv: "reachable fails withdraws E cfg s \<Longrightarrow> sys_inv fails cfg s"
  by (rule reachable_invariant) (auto intro: sys_inv_init sys_inv_step)

lemma references_valid: "sys_inv False cfg s \<Longrightarrow> \<exists>ys. follow (locals (hs s)) (active_jobs (hs s)) = Some ys"
proof -
  assume inv: "sys_inv False cfg s"
  have "locals (hs s) a \<noteq> None" if a: "a \<in> set (active_jobs (hs s))" for a
  proof -
    obtain t where "pc_listed (workers s t) = Some a"
      using inv a unfolding sys_inv_def ref_inv_def by blast
    then have "pc_job (workers s t) = Some a" by (rule pc_listed_job)
    then show ?thesis using inv ref_inv_local by (fastforce simp: sys_inv_def)
  qed
  then have "follow (locals (hs s)) (active_jobs (hs s)) \<noteq> None" using follow_defined by blast
  then show ?thesis by simp
qed

section \<open>Every request comes to an end\<close>

text \<open>The number of steps that a request still needs.\<close>

fun request_work :: "request_pc \<Rightarrow> nat" where
  "request_work (Locking _ _) = 9"
| "request_work (Posting _) = 8"

fun pc_work :: "worker_pc \<Rightarrow> nat" where
  "pc_work Idle = 0"
| "pc_work (Begun _ _) = 6"
| "pc_work (Popped _ _) = 5"
| "pc_work (Acquired _ _ _) = 4"
| "pc_work (Active _ _ _) = 3"
| "pc_work (Answered _ _ _) = 2"
| "pc_work (Released _ _) = 1"

definition work_left :: "config \<Rightarrow> sys \<Rightarrow> nat" where
  "work_left cfg s = sum_list (map (request_work \<circ> snd) (flights s)) + 7 * length (posted s)
     + pool_sum cfg pc_work (workers s)"

lemma work_left_worker:
  assumes "pool_ok cfg s" and "workers s t \<noteq> Idle" and "pc_work pc < pc_work (workers s t)"
  shows "work_left cfg (set_worker t pc h s) < work_left cfg s"
  using pool_sum_move [OF assms(1,2), of pc_work pc] assms(3) by (simp add: work_left_def)

text \<open>The steps that take in no new request are the internal ones; each of them makes progress.\<close>

definition internal_step :: "bool \<Rightarrow> bool \<Rightarrow> ('p, 'f) env \<Rightarrow> config \<Rightarrow> sys \<Rightarrow> sys \<Rightarrow> bool" where
  "internal_step fails withdraws E cfg s s' \<longleftrightarrow>
     sys_step fails withdraws E cfg s s' \<and> next_request s' = next_request s"

lemma internal_step_decreases:
  assumes "sys_step fails withdraws E cfg s s'" and "next_request s' = next_request s" and "pool_ok cfg s"
  shows "work_left cfg s' < work_left cfg s"
  using assms
proof (induction rule: sys_step.induct)
  case (arrive body s)
  then show ?case by (cases rule: arrive_cases [of E cfg body s]) auto
next
  case (take_task t s c cid rest)
  then show ?case using pool_sum_upd [of t cfg pc_work "workers s" "Begun c cid"]
    by (simp add: work_left_def)
qed ((rule work_left_worker; force) | (simp add: work_left_def; fail))+

lemma mock_or_search: "env_ok E \<Longrightarrow> \<exists>mr. generate E cfg (Inr dis) req = Inr mr"
  using mock_result_Inr [of E] by (auto simp: generate_def)

text \<open>A thread in a handler can take a step, and leaves the handler only at its ends.\<close>

lemma thread_can_step:
  assumes inv: "sys_inv False cfg s" and env: "env_ok E" and t: "workers s t \<noteq> Idle"
  shows "\<exists>s'. internal_step False withdraws E cfg s s' \<and> pc_work (workers s' t) < pc_work (workers s t)
    \<and> (workers s' t = Idle \<longrightarrow> pc_work (workers s t) \<in> {1, 6})"
proof -
  note pool = inv [unfolded sys_inv_def]
  obtain ys where ys: "follow (locals (hs s)) (active_jobs (hs s)) = Some ys"
    using references_valid [OF inv] by blast
  have loc: "\<exists>j. locals (hs s) c = Some j" if "pc_job (workers s t) = Some c" for c
    using ref_inv_local that pool by blast
  have moved: ?thesis if "sys_step False withdraws E cfg s (set_worker t pc h s)"
      "pc_work pc < pc_work (workers s t)" "pc = Idle \<longrightarrow> pc_work (workers s t) \<in> {1, 6}" for pc h
    using that by (intro exI [of _ "set_worker t pc h s"]) (simp add: internal_step_def)
  show ?thesis
  proof (cases "workers s t")
    case (Begun c cid)
    obtain found h where pop: "worker_pop c (hs s) = (found, h)" by (cases "worker_pop c (hs s)")
    show ?thesis
    proof (cases found)
      case True
      show ?thesis by (rule moved [OF sys_step.pop [OF Begun]]) (use pop True Begun in simp_all)
    next
      case False
      show ?thesis by (rule moved [OF sys_step.no_jobs [OF Begun]]) (use pop False Begun in simp_all)
    qed
  next
    case (Popped c cid)
    then obtain i h where "worker_acquire (hs s) = (Inr i, h)" using scan_succeeds pool by blast
    then have "scan_outcome False (hs s) (Inr i, h)" by (metis scan_undisturbed)
    then show ?thesis by (intro moved [OF sys_step.acquire [OF Popped]]) (simp_all add: Popped)
  next
    case (Acquired c cid i)
    then obtain j where j: "locals (hs s) c = Some j" using loc by auto
    have "follow ((locals (hs s))(c \<mapsto> job_start 0 j)) (active_jobs (hs s)) \<noteq> None"
      using ys unfolding follow_defined [symmetric] by (metis fun_upd_apply option.distinct(1) follow_defined)
    then obtain h where "worker_start 0 c (hs s) = Some h" using j by (auto simp: handler_ops)
    then show ?thesis by (intro moved [OF sys_step.start [OF Acquired]]) (simp_all add: Acquired)
  next
    case (Active c cid i)
    then obtain j where j: "locals (hs s) c = Some j" using loc by auto
    obtain mr where mr: "generate E cfg (Inr (\<lambda>_. 0)) (request j) = Inr mr"
      using mock_or_search [OF env] by blast
    obtain h where "worker_answer E c cid mr (hs s) = Some h" using j by (auto simp: handler_ops)
    then show ?thesis by (intro moved [OF sys_step.answer [OF Active j mr]]) (simp_all add: Active)
  next
    case (Answered c cid i)
    then obtain j where "locals (hs s) c = Some j" using loc by auto
    then obtain h where "worker_release 0 c i (hs s) = Some h" by (auto simp: handler_ops)
    then show ?thesis by (intro moved [OF sys_step.release [OF Answered]]) (simp_all add: Answered)
  next
    case (Released c cid)
    then obtain j where "locals (hs s) c = Some j" using loc by auto
    then obtain h where "worker_finish c (hs s) = Some h" using ys by (auto simp: handler_ops)
    then show ?thesis by (intro moved [OF sys_step.finish [OF Released]]) (simp_all add: Released)
  qed (use t in simp)
qed

text \<open>As long as a request needs a step, some thread can take one.\<close>

lemma can_step:
  assumes inv: "sys_inv False cfg s" and env: "env_ok E" and left: "work_left cfg s \<noteq> 0"
  shows "\<exists>s'. internal_step False withdraws E cfg s s'"
proof (cases "\<exists>t. workers s t \<noteq> Idle")
  case True
  then show ?thesis using thread_can_step [OF inv env] by blast
next
  case False
  then have idle: "workers s t = Idle" for t by blast
  have pool: "pool_ok cfg s" using inv by (simp add: sys_inv_def)
  have nonempty: "flights s \<noteq> [] \<or> posted s \<noteq> []"
    using left idle by (auto simp: work_left_def pool_sum_idle)
  then have devices: "0 < length (devices cfg)" using pool by (auto simp: pool_ok_def)
  have "\<exists>s'. sys_step False withdraws E cfg s s' \<and> next_request s' = next_request s"
  proof (cases "posted s")
    case (Cons p rest)
    then show ?thesis using sys_step.take_task [OF devices idle] by (cases p) fastforce
  next
    case Nil
    then obtain c r ys where flights: "flights s = [] @ (c, r) # ys"
      using nonempty by (cases "flights s") auto
    show ?thesis
    proof (cases r)
      case (Locking cid j)
      then show ?thesis using flights sys_step.lock [of s "[]" c cid j ys cfg] sys_step.lock_full [of s "[]" c cid j ys cfg]
        by (cases "enqueue cfg j (jobs (hs s))"; cases "fst (enqueue cfg j (jobs (hs s)))") fastforce+
    next
      case (Posting cid)
      then show ?thesis using flights sys_step.post [of s "[]" c cid ys] by fastforce
    qed
  qed
  then show ?thesis by (simp add: internal_step_def)
qed

lemma request_work_pos [simp]: "request_work r \<noteq> 0"
  by (cases r) auto

lemma pc_work_0: "pc_work pc = 0 \<longleftrightarrow> pc = Idle"
  by (cases pc) auto

lemma no_work_left:
  assumes "pool_ok cfg s" and "work_left cfg s = 0"
  shows "flights s = [] \<and> posted s = [] \<and> (\<forall>t. workers s t = Idle)"
proof -
  have flights: "flights s = []" using assms(2) by (cases "flights s") (simp_all add: work_left_def)
  have "workers s t = Idle" for t
  proof (rule ccontr)
    assume busy: "workers s t \<noteq> Idle"
    then have "t < length (devices cfg)" using assms(1) by (simp add: pool_ok_def)
    then have "pc_work (workers s t) = 0" using assms(2) by (simp add: work_left_def pool_sum_def)
    then show False using busy by (simp add: pc_work_0)
  qed
  then show ?thesis using flights assms(2) by (simp add: work_left_def)
qed

lemma quiescence_reached:
  assumes "reachable fails withdraws E cfg s"
  shows "\<exists>s'. reachable fails withdraws E cfg s' \<and> next_request s' = next_request s
    \<and> (\<forall>s''. \<not> internal_step fails withdraws E cfg s' s'')"
  by (rule sys_runs.comes_to_rest [OF assms, where m = "work_left cfg"])
    (auto simp: internal_step_def intro: internal_step_decreases reachable_pool_ok)

text \<open>The answers are for different requests that have arrived.\<close>

lemma answers_of_requests:
  assumes "reachable fails withdraws E cfg s"
  shows "mset (map fst (answers (hs s))) \<subseteq># mset [0..<next_request s]"
  unfolding reachable_whereabouts [OF assms, symmetric] by (simp add: whereabouts_def add.assoc)

lemma answers_distinct:
  assumes "reachable fails withdraws E cfg s"
  shows "distinct (map fst (answers (hs s)))"
proof -
  obtain others where "mset [0..<next_request s] = mset (map fst (answers (hs s)) @ others)"
    using answers_of_requests [OF assms] by (metis ex_mset mset_append mset_subset_eq_exists_conv)
  then have "distinct (map fst (answers (hs s)) @ others)" by (metis distinct_upt mset_eq_imp_distinct_iff)
  then show ?thesis by simp
qed

lemma quiescent_answers:
  assumes "env_ok E" and "reachable False withdraws E cfg s"
    and "\<And>s'. \<not> internal_step False withdraws E cfg s s'"
  shows "mset (map fst (answers (hs s))) = mset [0..<next_request s]"
proof -
  have inv: "sys_inv False cfg s" by (rule reachable_sys_inv [OF assms(2)])
  then have "work_left cfg s = 0" using can_step [OF inv assms(1)] assms(3) by blast
  then have "flights s = [] \<and> posted s = [] \<and> (\<forall>t. workers s t = Idle)"
    using no_work_left [of cfg s] inv unfolding sys_inv_def by blast
  then show ?thesis
    using reachable_whereabouts [OF assms(2)] by (simp add: whereabouts_def pool_sum_idle)
qed

text \<open>A device that is busy and that no thread holds is never released and never acquired again.\<close>

definition leaked :: "nat \<Rightarrow> sys \<Rightarrow> bool" where
  "leaked i s \<longleftrightarrow> i < length (h_devices (hs s)) \<and> busy (h_devices (hs s) ! i) \<and>
     (\<forall>t. pc_device (workers s t) \<noteq> Some i)"

lemma leaked_worker:
  assumes "leaked i s" and "h_devices h = h_devices (hs s)"
    and "pc_device pc = pc_device (workers s t) \<or> pc_device pc = None"
  shows "leaked i (set_worker t pc h s)"
  using assms by (auto simp: leaked_def)

lemma leaked_step: "sys_step fails withdraws E cfg s s' \<Longrightarrow> leaked i s \<Longrightarrow> leaked i s'"
proof (induction rule: sys_step.induct)
  case (arrive body s)
  then show ?case
    by (cases rule: arrive_cases [of E cfg body s]) (auto simp: leaked_def)
next
  case (acquire s t c cid k h)
  note hit = scan_Inr [THEN iffD1, OF acquire.hyps(2)]
  then have "k \<noteq> i" using acquire.prems by (auto simp: leaked_def)
  then show ?case using hit acquire.prems by (auto simp: leaked_def)
next
  case (no_device s t c cid what h)
  then have "h_devices h = h_devices (hs s)" by (auto dest: scan_Inl)
  then show ?case by (intro leaked_worker [OF no_device.prems]) auto
next
  case (release s t c cid k now h)
  then have "pc_device (workers s t) = Some k" by simp
  then have "k \<noteq> i" using release.prems by (auto simp: leaked_def)
  then show ?case using release by (auto simp: leaked_def handler_ops release_device_def)
qed ((erule leaked_worker; force simp: handler_ops) |
    (auto simp: leaked_def handler_ops handle_queue_delete_request_def; fail))+

lemma leaked_forever: "(sys_step fails withdraws E cfg)\<^sup>*\<^sup>* s s' \<Longrightarrow> leaked i s \<Longrightarrow> leaked i s'"
  by (induction rule: rtranclp_induct) (auto intro: leaked_step)

section \<open>Properties: every request is answered\<close>

text \<open>
  C1: when nothing throws, every request gets exactly one answer. Whenever the server cannot take a
  step without a new request (and \<open>steps_terminate\<close> says that it gets there), the answers are those
  of all requests so far, one each.
\<close>

theorem every_request_answered_once:
  assumes "env_ok E" and "reachable False withdraws E cfg s"
    and "\<And>s'. \<not> internal_step False withdraws E cfg s s'"
  shows "mset (map fst (answers (hs s))) = mset [0..<next_request s]"
  by (rule quiescent_answers [OF assms])

text \<open>
  C16: between two arrivals the server takes finitely many steps, whatever the schedule and the
  exceptions.
\<close>

theorem steps_terminate:
  "wf {(s', s). reachable fails withdraws E cfg s \<and> internal_step fails withdraws E cfg s s'}"
proof (rule wf_subset [OF wf_measure [of "work_left cfg"]])
  show "{(s', s). reachable fails withdraws E cfg s \<and> internal_step fails withdraws E cfg s s'}
      \<subseteq> measure (work_left cfg)"
    using internal_step_decreases reachable_pool_ok by (fastforce simp: internal_step_def)
qed

text \<open>
  C9: the queue never holds more than \<open>server.request_limit\<close> jobs and is always in serving order, and
  at most 128 completed jobs are kept.
\<close>

theorem queue_bounded:
  assumes "reachable fails withdraws E cfg s"
  shows "length (jobs (hs s)) \<le> unat (request_limit (server cfg)) \<and> queue_ordered (jobs (hs s))
    \<and> length (completed_jobs (hs s)) \<le> 128"
  using reachable_queue_inv [OF assms] reachable_sys_inv [OF assms]
  by (simp add: queue_inv_def sys_inv_def completed_capacity_def)

text \<open>
  C17: unless jobs are cancelled or the queue is deleted, there are exactly as many jobs as handlers
  that have yet to take one, so \<open>No jobs available\<close> is never answered.
\<close>

theorem job_for_every_handler:
  assumes "reachable fails False E cfg s"
  shows "length (jobs (hs s)) = tickets cfg s \<and> (workers s t = Begun c cid \<longrightarrow> jobs (hs s) \<noteq> [])"
proof -
  have eq: "length (jobs (hs s)) = tickets cfg s"
    using reachable_queue_inv [OF assms] by (simp add: queue_inv_def)
  have "jobs (hs s) \<noteq> []" if "workers s t = Begun c cid"
  proof -
    have t: "t < length (devices cfg)" using reachable_pool_ok [OF assms] that by (simp add: pool_ok_def)
    have "pc_ticket (workers s t) \<le> pool_sum cfg pc_ticket (workers s)"
      unfolding pool_sum_def using t by (intro member_le_sum) auto
    then show ?thesis using eq that by (auto simp: tickets_def)
  qed
  then show ?thesis using eq by blast
qed

text \<open>
  C7: while nothing throws, the references in \<open>active_jobs\<close> are valid, so the queue can be listed at
  any time; and a device is busy exactly when a thread holds it, so a thread that has taken a job
  always gets a device.
\<close>

theorem references_and_devices_safe:
  assumes "reachable False withdraws E cfg s"
  shows "(\<exists>h. handle_queue_request E (next_request s) (hs s) = Some h)
    \<and> (\<forall>i < length (devices cfg). busy (h_devices (hs s) ! i) = (\<exists>t. pc_device (workers s t) = Some i))
    \<and> (workers s t = Popped c cid \<longrightarrow> (\<exists>i h. worker_acquire (hs s) = (Inr i, h)))"
proof -
  have inv: "sys_inv False cfg s" by (rule reachable_sys_inv [OF assms])
  obtain ys where "follow (locals (hs s)) (active_jobs (hs s)) = Some ys"
    using references_valid [OF inv] by blast
  then have "\<exists>h. handle_queue_request E (next_request s) (hs s) = Some h"
    by (simp add: handle_queue_request_def queue_response_def)
  moreover have "busy (h_devices (hs s) ! i) = (\<exists>t. pc_device (workers s t) = Some i)"
    if "i < length (devices cfg)" for i
    using inv that unfolding sys_inv_def device_inv_def by blast
  ultimately show ?thesis using scan_succeeds inv by (auto simp: sys_inv_def)
qed

section \<open>Properties: exceptions\<close>

text \<open>
  C18: an exception that is thrown while a thread works on a job takes its device out of service for
  good: in every later state the device is busy although no thread holds it.
\<close>

theorem exception_leaks_device:
  assumes "reachable fails withdraws E cfg s" and "workers s t = Active c cid i"
    and "(sys_step fails withdraws E cfg)\<^sup>*\<^sup>* (set_worker t Idle (worker_catch E c cid what (hs s)) s) s'"
  shows "busy (h_devices (hs s') ! i) \<and> (\<forall>u. pc_device (workers s' u) \<noteq> Some i)"
proof -
  have inv: "device_inv fails cfg s" using reachable_sys_inv [OF assms(1)] by (simp add: sys_inv_def)
  have hold: "pc_device (workers s t) = Some i" using assms(2) by simp
  then have "u = t" if "pc_device (workers s u) = Some i" for u
    using inv that by (auto simp: device_inv_def)
  then have "leaked i (set_worker t Idle (worker_catch E c cid what (hs s)) s)"
    using inv hold by (auto simp: leaked_def device_inv_def)
  then show ?thesis using leaked_forever [OF assms(3)] by (auto simp: leaked_def)
qed

end
