(* ===== verification/Replies.thy ===== *)
theory Replies
  imports Handler
begin

text \<open>
  What \<open>handle_request_async\<close> and the queue requests answer, request by request: the job that a
  \<open>work_generate\<close> request becomes, the answers of \<open>work_validate\<close> and \<open>work_cancel\<close>, the correlation
  id, and the queue listing.
\<close>

section \<open>Lemmas\<close>

lemma map_of_pt_put: "map_of (pt_put k v t) x = (if x = k then Some v else map_of t x)"
  by (simp add: pt_put_def update_conv')

lemma map_of_attach:
  "map_of (attach_correlation_id ident t) x =
     (if x = ''id'' \<and> ident \<noteq> None then map_option JString ident else map_of t x)"
  by (auto simp: attach_correlation_id_def map_of_pt_put split: option.splits)


section \<open>Properties\<close>


text \<open>
  \<open>work_validate\<close> never looks at the work. Every request whose fields parse is answered with
  \<open>valid\<close> 1, the same difficulty and the same multiplier, for every hash, work and configuration.
\<close>

theorem work_validate_always_valid:
  assumes "work_validate E cfg cid req = Inr response"
  shows "response = attach_correlation_id cid [(''valid'', JString ''1''),
     (''difficulty'', JString ''0x2000000000000000''), (''multiplier'', JString ''1.0'')]"
  using assms
  by (auto simp: work_validate_def bind_result_Inr Let_def pt_put_def split: option.splits)

definition validate_request :: demo_request where
  "validate_request = \<lparr>dr_strings = [(''hash'', ''1''), (''work'', ''0'')], dr_multiplier = Fin 0, dr_priority = 0\<rparr>"

definition reply_config :: config where
  "reply_config = \<lparr>server = default_server ''::1'' 4, devices = [],
     work = \<lparr>base_difficulty = bi_set ref128 1, mock_work_generation_delay = 0\<rparr>, admin = default_admin\<rparr>"

theorem work_validate_always_valid_witness:
  "work_validate (demo_env [] id) reply_config None validate_request = Inr [(''valid'', JString ''1''),
     (''difficulty'', JString ''0x2000000000000000''), (''multiplier'', JString ''1.0'')]"
proof -
  have hex: "bi_of_string ref256 ''1'' = Inr (bi_set ref256 1)" "bi_of_string ref128 ''0'' = Inr (bi_set ref128 0)"
    using u256.from_hex_digits [of "''1''"] u128.from_hex_digits [of "''0''"]
    by (simp_all add: bi_of_string_def hex_value_def hex_digit_def is_hex_def)
  obtain response where valid: "work_validate (demo_env [] id) reply_config None validate_request = Inr response"
    by (simp add: work_validate_def validate_request_def demo_env_def hex read_difficulty_def Let_def)
  then show ?thesis
    using work_validate_always_valid [OF valid] by (simp add: attach_correlation_id_def)
qed

text \<open>
  \<open>work_cancel\<close> takes the jobs for its hash out of the queue and no others. It is answered with
  \<open>cancelled\<close> exactly when there was one; otherwise it is an error and the queue is as it was.
\<close>

theorem work_cancel_removes:
  assumes "env_ok E" and "queue_ordered q" and "\<forall>j \<in> set q. length (req_root_hash (request j)) = 32"
    and "get_string E req ''hash'' = Some hash_hex" and "bi_of_string (mp256 E) hash_hex = Inr rt"
    and "bi_of_string (mp256 E) ''0'' = Inr zero"
  shows "work_cancel E cid req q =
    (if rt \<in> (\<lambda>j. req_root_hash (request j)) ` set q
     then (Inr (attach_correlation_id cid [(''status'', JString ''cancelled'')]),
           filter (\<lambda>j. req_root_hash (request j) \<noteq> rt) q)
     else (Inl ''Hash not found in work queue'', q))"
proof -
  note mp = env_okD(2) [OF assms(1)]
  have rt: "length rt = 32" using multiprecision.of_string_length [OF mp assms(5)] by simp
  have from_hex: "bi_from_hex (mp256 E) zero hash_hex = (rt, None)"
    using assms(5) by (auto simp: bi_of_string_def bi_from_hex_def split: if_splits sum.splits prod.splits)
  have same: "same_root (mp256 E) rt j \<longleftrightarrow> req_root_hash (request j) = rt" if "j \<in> set q" for j
    using that rt assms(3) multiprecision.number_inject [OF mp] by simp
  then have "filter (\<lambda>j. \<not> same_root (mp256 E) rt j) q = filter (\<lambda>j. req_root_hash (request j) \<noteq> rt) q"
    by (auto intro: filter_cong)
  moreover have "(\<exists>j \<in> set q. same_root (mp256 E) rt j) \<longleftrightarrow> rt \<in> (\<lambda>j. req_root_hash (request j)) ` set q"
    using same by auto
  moreover have "filter (\<lambda>j. req_root_hash (request j) \<noteq> rt) q = q"
    if "rt \<notin> (\<lambda>j. req_root_hash (request j)) ` set q"
    using that by (auto simp: filter_id_conv)
  ultimately have "remove_job (mp256 E) rt q = (rt \<in> (\<lambda>j. req_root_hash (request j)) ` set q,
      if rt \<in> (\<lambda>j. req_root_hash (request j)) ` set q then filter (\<lambda>j. req_root_hash (request j) \<noteq> rt) q else q)"
    using remove_job_eq [OF assms(2), of "mp256 E" rt] by simp
  then show ?thesis
    using assms(4,6) from_hex by (simp add: work_cancel_def pt_put_def)
qed

definition cancel_request :: demo_request where
  "cancel_request = \<lparr>dr_strings = [(''hash'', ''0'')], dr_multiplier = Fin 0, dr_priority = 0\<rparr>"

theorem work_cancel_removes_witness:
  "\<exists>response. work_cancel (demo_env [] id) None cancel_request [(demo_job 0 1)\<lparr>request := (request (demo_job 0 1))
     \<lparr>req_root_hash := bi_set ref256 0\<rparr>\<rparr>] = (Inr response, [])"
proof -
  have zero: "bi_of_string ref256 ''0'' = Inr (bi_set ref256 0)"
    using u256.from_hex_digits [of "''0''"] by (simp add: bi_of_string_def hex_value_def hex_digit_def is_hex_def)
  let ?q = "[(demo_job 0 1)\<lparr>request := (request (demo_job 0 1))\<lparr>req_root_hash := bi_set ref256 0\<rparr>\<rparr>]"
  have env: "mp256 (demo_env [] id) = ref256" "get_string (demo_env [] id) cancel_request ''hash'' = Some ''0''"
    by (simp_all add: demo_env_def cancel_request_def)
  have "work_cancel (demo_env [] id) None cancel_request ?q =
      (Inr (attach_correlation_id None [(''status'', JString ''cancelled'')]), [])"
    using work_cancel_removes [OF demo_env_ok _ _ env(2), of ?q "bi_set ref256 0" "bi_set ref256 0" None]
    by (simp add: env zero)
  then show ?thesis by blast
qed

text \<open>
  Every response to a request that carries a correlation id has it under the key \<open>id\<close>, and the id
  displaces nothing: the other entries are those of the response without an id.
\<close>

theorem correlation_id_attached:
  "map_of (attach_correlation_id (Some i) t) ''id'' = Some (JString i)
   \<and> (\<forall>k. k \<noteq> ''id'' \<longrightarrow> map_of (attach_correlation_id (Some i) t) k = map_of (attach_correlation_id None t) k)
   \<and> map_of (work_response E (Some i) mock r) ''id'' = Some (JString i)
   \<and> map_of (work_response E None mock r) ''id'' = None"
  by (auto simp: map_of_attach work_response_def Let_def map_of_pt_put)

theorem correlation_id_attached_witness:
  "map_of (attach_correlation_id (Some ''7'') [(''error'', JString ''e'')]) ''error'' = Some (JString ''e'')"
proof -
  have "\<forall>k. k \<noteq> ''id'' \<longrightarrow> map_of (attach_correlation_id (Some ''7'') [(''error'', JString ''e'')]) k
      = map_of (attach_correlation_id None [(''error'', JString ''e'')]) k"
    using correlation_id_attached [of "''7''" "[(''error'', JString ''e'')]" "demo_env [] id" False
      "\<lparr>res_work = [], res_difficulty = [], res_multiplier = Fin 1\<rparr>"] by blast
  then show ?thesis by (simp add: map_of_attach)
qed

text \<open>
  The queue listing shows the pending jobs in the order in which they will be served, one entry
  each, and the jobs that have ended from the oldest on.
\<close>

theorem queue_listing:
  assumes "queue_response E h = Some response"
  shows "map_of response ''queued'' = Some (JArray (map (populate_json E) (jobs h)))
    \<and> map_of response ''completed'' = Some (JArray (map (populate_json E) (completed_jobs h)))
    \<and> (\<exists>active. map fst active = active_jobs h \<and> (\<forall>a \<in> set active. locals h (fst a) = Some (snd a))
         \<and> map_of response ''active'' = Some (JArray (map (populate_json E \<circ> snd) active)))"
proof -
  obtain active where active: "follow (locals h) (active_jobs h) = Some active"
    using assms by (auto simp: queue_response_def)
  then have "map fst active = active_jobs h \<and> (\<forall>a \<in> set active. locals h (fst a) = Some (snd a))"
    by (rule follow_Some)
  then show ?thesis using assms active by (auto simp: queue_response_def drain_list)
qed

text \<open>
  The listing writes the work of a found job differently from the answer. The answer has the work
  as 16 digits; the listing has 32 digits whose value is the work with its eight bytes reversed,
  followed by eight zero bytes.
\<close>

theorem listed_work_is_reversed:
  assumes "env_ok E"
  shows "length (bi_to_hex (mp128 E) (res_work (pow_result E base dis req))) = 32
    \<and> hex_value (bi_to_hex (mp128 E) (res_work (pow_result E base dis req)))
        = unat (byte_reverse (work_value (pow_search E dis req))) * 2 ^ 64
    \<and> hex_value (work_hex (res_work (pow_result E base dis req))) = unat (work_value (pow_search E dis req))"
proof -
  let ?v = "work_value (pow_search E dis req)"
  note mp = env_okD(1) [OF assms]
  have w: "res_work (pow_result E base dis req) = le_bytes64 ?v @ replicate 8 0"
    by (simp add: pow_result_def Let_def)
  have rev: "be_value (le_bytes64 ?v) = unat (byte_reverse ?v)"
    using byte_reverse_value [of "le_bytes64 ?v"] by (metis append_Nil2 length_le_bytes64 of_le_bytes64_le_bytes64 order_refl take_all)
  have "be_value (replicate 8 0) = 0" by (simp add: be_value_def)
  then have "be_value (le_bytes64 ?v @ replicate 8 0) = unat (byte_reverse ?v) * 2 ^ 64"
    by (simp add: be_value_append rev)
  then have "unat (bi_number (mp128 E) (le_bytes64 ?v @ replicate 8 0)) = unat (byte_reverse ?v) * 2 ^ 64"
    using multiprecision.unat_number [OF mp, of "le_bytes64 ?v @ replicate 8 0"] by simp
  moreover have "hex_value (work_hex (le_bytes64 ?v @ replicate 8 0)) = unat ?v"
    using work_hex_value [of "le_bytes64 ?v @ replicate 8 0"] by (simp add: be_value_def le_bytes64_value)
  ultimately show ?thesis
    using multiprecision.length_to_hex [OF mp] multiprecision.hex_value_to_hex [OF mp] by (simp add: w)
qed

theorem listed_work_is_reversed_witness:
  "length (bi_to_hex ref128 (res_work (pow_result demo_pow_env (bi_set ref128 1) (\<lambda>_. 1) (demo_req 1)))) = 32"
  using listed_work_is_reversed [of demo_pow_env "bi_set ref128 1" "\<lambda>_. 1" "demo_req 1"] by simp

end
