(* ===== verification/Runs.thy ===== *)
theory Runs
  imports Requests Replies
begin

text \<open>
  Runs of the work server on concrete requests: one device, two requests for different hashes, and
  priorities enabled. They witness the properties of \<open>Requests\<close>, and they exhibit two defects: the
  answer to a request can be the work for another request's hash, and an exception while the work
  is being generated takes the device out of service.
\<close>

section \<open>Two requests\<close>

definition demo_generate :: "string \<Rightarrow> u32 \<Rightarrow> demo_request" where
  "demo_generate hash prio =
     \<lparr>dr_strings = [(''action'', ''work_generate''), (''hash'', hash)], dr_multiplier = Fin 0, dr_priority = prio\<rparr>"

text \<open>
  The digest is zero when the lowest byte of the work is the last byte of the root, so each of the two
  hashes has work that is not valid for the other one.
\<close>

definition run_digest :: "u8 list \<Rightarrow> u8 list" where
  "run_digest m = (if hd m = last m then replicate 64 0 else replicate 64 255)"

definition run_env :: "(demo_request, double) env" where
  "run_env = demo_env [(''low'', demo_generate ''1'' 0), (''high'', demo_generate ''2'' 7)] run_digest"

definition run_config :: config where
  "run_config = \<lparr>server = (default_server ''::1'' 4)\<lparr>allow_prioritization := True\<rparr>, devices = [default_device],
     work = \<lparr>base_difficulty = bi_set ref128 1, mock_work_generation_delay = 0\<rparr>, admin = default_admin\<rparr>"

definition run_job :: "256 word \<Rightarrow> u32 \<Rightarrow> u32 \<Rightarrow> job" where
  "run_job hash prio ident =
     \<lparr>start_time = 0, end_time = 0,
      request = \<lparr>req_root_hash = bi_set ref256 hash, req_difficulty = bi_set ref128 1, req_multiplier = Fin 1\<rparr>,
      job_res = \<lparr>res_work = bi_set ref128 0, res_difficulty = bi_set ref128 0, res_multiplier = Fin 1\<rparr>,
      priority = prio, job_id = ident\<rparr>"

lemma run_job_simps [simp]:
  "priority (run_job hash prio ident) = prio" "job_id (run_job hash prio ident) = ident"
  "req_root_hash (request (run_job hash prio ident)) = bi_set ref256 hash"
  by (simp_all add: run_job_def)

lemma run_env_simps [simp]:
  "env_ok run_env" "mp128 run_env = ref128" "mp256 run_env = ref256"
  "get_string run_env r k = map_of (dr_strings r) k" "get_double run_env r k d = dr_multiplier r"
  "get_unsigned run_env r k n = dr_priority r"
  "read_json run_env ''low'' = Inr (demo_generate ''1'' 0)"
  "read_json run_env ''high'' = Inr (demo_generate ''2'' 7)"
  "read_json run_env ''x'' = Inl ''expected value''"
  "write_json run_env t = json_text (JObject t)" "blake2b512 run_env m = run_digest m"
  by (simp_all add: run_env_def demo_env_ok) (simp_all add: demo_env_def run_digest_def)

lemma digit_of_string:
  "bi_of_string ref256 ''0'' = Inr (bi_set ref256 0)" "bi_of_string ref256 ''1'' = Inr (bi_set ref256 1)"
  "bi_of_string ref256 ''2'' = Inr (bi_set ref256 2)" "bi_of_string ref128 ''0'' = Inr (bi_set ref128 0)"
  using u256.from_hex_digits [of "''0''"] u256.from_hex_digits [of "''1''"] u256.from_hex_digits [of "''2''"]
    u128.from_hex_digits [of "''0''"]
  by (simp_all add: bi_of_string_def hex_value_def hex_digit_def is_hex_def)

lemma run_ctor: "job_ctor ref256 ref128 d = Inr (run_job 0 0 d \<lparr>request := \<lparr>req_root_hash = bi_set ref256 0,
    req_difficulty = bi_set ref128 0, req_multiplier = Fin 1\<rparr>\<rparr>, d + 1)"
  by (simp add: job_ctor_def digit_of_string run_job_def)

lemma run_parse:
  "parse_request run_env run_config ''low'' d = (Enqueue None (run_job 1 0 d), d + 1)"
  "parse_request run_env run_config ''high'' d = (Enqueue None (run_job 2 7 d), d + 1)"
  "parse_request run_env run_config ''x'' d = (Refused None ''expected value'', d)"
  by (simp_all add: parse_request_def parse_generate_def run_ctor fill_job_def read_difficulty_def
      apply_multiplier_def set_priority_def demo_generate_def run_config_def digit_of_string run_job_def)

section \<open>A run\<close>

abbreviation run_steps :: "bool \<Rightarrow> sys \<Rightarrow> sys \<Rightarrow> bool" where
  "run_steps fails \<equiv> (sys_step fails False run_env run_config)\<^sup>*\<^sup>*"

lemma run_step:
  "run_steps fails s0 s \<Longrightarrow> sys_step fails False run_env run_config s s1 \<Longrightarrow> s1 = s2 \<Longrightarrow> run_steps fails s0 s2"
  by simp

lemma reachable_run: "run_steps fails s s' \<Longrightarrow> reachable fails False run_env run_config s \<Longrightarrow>
  reachable fails False run_env run_config s'"
  by (induction rule: rtranclp_induct) (auto intro: reachable.step)

definition first_in :: sys where
  "first_in = handle_request_async run_env run_config ''low'' (sys_init run_config)"

definition idle_handler :: handler where
  "idle_handler = handler_ctor run_config"

text \<open>Both requests are accepted: the second job is ahead, the first handler is next.\<close>

definition both_posted :: sys where
  "both_posted = \<lparr>hs = idle_handler\<lparr>jobs := [run_job 2 7 2, run_job 1 0 1], job_id_dispenser := 3\<rparr>,
     flights = [], posted = [(0, None), (1, None)], workers = (\<lambda>_. Idle), next_request = 2\<rparr>"

lemma first_in_reachable: "reachable fails False run_env run_config first_in"
  unfolding first_in_def
  by (rule reachable.step [OF reachable.init arrive]) (simp add: is_cancel_def run_parse)

lemma first_in_eq:
  "first_in = \<lparr>hs = idle_handler\<lparr>job_id_dispenser := 2\<rparr>, flights = [(0, Locking None (run_job 1 0 1))],
     posted = [], workers = (\<lambda>_. Idle), next_request = 1\<rparr>"
  by (simp add: first_in_def handle_request_async_def sys_init_def handler_ctor_def run_parse
      job_id_dispenser_init_def idle_handler_def)

lemma run_config_simps [simp]:
  "devices run_config = [default_device]" "unat (request_limit (server run_config)) = 16384"
  "base_difficulty (work run_config) = bi_set ref128 1" "mock_work_generation_delay (work run_config) = 0"
  by (simp_all add: run_config_def default_server_def)

lemma run_both_posted: "run_steps fails first_in both_posted"
proof -
  let ?h = "idle_handler\<lparr>job_id_dispenser := 3\<rparr>"
  let ?j1 = "run_job 1 0 1" and ?j2 = "run_job 2 7 2"
  have idle: "jobs idle_handler = []" "job_id_dispenser idle_handler = 1"
    by (simp_all add: idle_handler_def handler_ctor_def job_id_dispenser_init_def)
  have "run_steps fails first_in first_in" by simp
  then have "run_steps fails first_in (first_in\<lparr>hs := ?h, flights := flights first_in @ [(1, Locking None ?j2)], next_request := 2\<rparr>)"
    by (rule run_step [OF _ arrive [where body = "''high''"]])
      ((simp add: is_cancel_def run_parse handle_request_async_def first_in_eq)+)
  then have "run_steps fails first_in (first_in\<lparr>hs := ?h\<lparr>jobs := [?j1]\<rparr>,
      flights := [(0, Posting None), (1, Locking None ?j2)], next_request := 2\<rparr>)"
    by (rule run_step [OF _ lock [where xs = "[]"]])
      ((simp add: first_in_eq idle handler_ops pq_push_def)+)
  then have "run_steps fails first_in (first_in\<lparr>hs := ?h\<lparr>jobs := [?j2, ?j1]\<rparr>,
      flights := [(0, Posting None), (1, Posting None)], next_request := 2\<rparr>)"
    by (rule run_step [OF _ lock [where xs = "[(0, Posting None)]"]])
      ((simp add: first_in_eq idle handler_ops pq_push_def comparator_def)+)
  then have "run_steps fails first_in (first_in\<lparr>hs := ?h\<lparr>jobs := [?j2, ?j1]\<rparr>,
      flights := [(1, Posting None)], posted := [(0, None)], next_request := 2\<rparr>)"
    by (rule run_step [OF _ post [where xs = "[]"]])
      ((simp add: first_in_eq)+)
  then show ?thesis
    by (rule run_step [OF _ post [where xs = "[]"]])
      ((simp add: first_in_eq both_posted_def)+)
qed

text \<open>
  The first handler runs: it answers request 0, and works on the job of request 1. The device is
  taken, the job is started at time 0.
\<close>

definition one_served :: sys where
  "one_served = both_posted\<lparr>hs := (hs both_posted)\<lparr>
       h_devices := [(register_device default_device)\<lparr>busy := True\<rparr>], jobs := [run_job 1 0 1],
       locals := [0 \<mapsto> run_job 2 7 2], active_jobs := [0]\<rparr>,
     posted := [(1, None)], workers := (\<lambda>_. Idle)(0 := Active 0 None 0)\<rparr>"

lemma run_one_served: "run_steps fails first_in one_served"
proof -
  have idle: "jobs idle_handler = []" "h_devices idle_handler = [register_device default_device]"
      "locals idle_handler = Map.empty" "active_jobs idle_handler = []" "busy (register_device default_device) = False"
    by (simp_all add: idle_handler_def handler_ctor_def register_device_def)
  have started: "job_start 0 (run_job 2 7 2) = run_job 2 7 2" by (simp add: job_start_def run_job_def)
  let ?h = "(hs both_posted)\<lparr>jobs := [run_job 1 0 1], locals := [0 \<mapsto> run_job 2 7 2]\<rparr>"
  have "run_steps fails first_in both_posted" by (rule run_both_posted)
  then have "run_steps fails first_in (both_posted\<lparr>posted := [(1, None)], workers := (\<lambda>_. Idle)(0 := Begun 0 None)\<rparr>)"
    by (rule run_step [OF _ take_task [where t = 0]]) ((simp add: both_posted_def)+)
  then have "run_steps fails first_in (both_posted\<lparr>hs := ?h, posted := [(1, None)],
      workers := (\<lambda>_. Idle)(0 := Popped 0 None)\<rparr>)"
    by (rule run_step [OF _ pop [where t = 0]]) ((simp add: both_posted_def handler_ops idle)+)
  then have "run_steps fails first_in (both_posted\<lparr>
      hs := ?h\<lparr>h_devices := [(register_device default_device)\<lparr>busy := True\<rparr>]\<rparr>,
      posted := [(1, None)], workers := (\<lambda>_. Idle)(0 := Acquired 0 None 0)\<rparr>)"
    by (rule run_step [OF _ acquire [where t = 0 and i = 0 and
          h = "?h\<lparr>h_devices := [(register_device default_device)\<lparr>busy := True\<rparr>]\<rparr>"]])
      ((simp add: both_posted_def scan_Inr idle)+)
  then show ?thesis
    by (rule run_step [OF _ start [where t = 0 and now = 0]])
      ((simp add: both_posted_def one_served_def handler_ops idle started)+)
qed

section \<open>Properties\<close>

text \<open>Work is valid for a request when it passes the test of the search.\<close>

definition solves :: "('p, 'f) env \<Rightarrow> u64 \<Rightarrow> job_request \<Rightarrow> bool" where
  "solves E w req \<longleftrightarrow> hash_reversed (blake2b512 E) w (req_root_hash req)
     < difficulty_threshold (base_diff_64 (mp128 E) (req_difficulty req))"

lemma run_hash:
  assumes "length r = 32"
  shows "hash_reversed run_digest w r = (if (ucast w :: u8) = last r then 0 else - 1)"
proof -
  have "last (pow_input w r) = last r" using assms by (cases r rule: rev_cases) (simp_all add: pow_input_def)
  moreover have "unat (hash_reversed run_digest w r) = be_value (take 8 (run_digest (pow_input w r)))"
    by (simp add: hash_reversed_def Let_def byte_reverse_value run_digest_def)
  ultimately have "unat (hash_reversed run_digest w r) = unat (if (ucast w :: u8) = last r then 0 else - 1 :: u64)"
    by (simp add: run_digest_def hd_pow_input be_value_def unat_minus_1 replicate8)
  then show ?thesis by (rule unsigned_word_eqI)
qed

lemma run_roots: "last (bi_set ref256 1) = (1 :: u8)" "last (bi_set ref256 2) = (2 :: u8)"
proof -
  have root: "bi_set ref256 v = replicate 31 0 @ [b]" if "unat v = unat b" for v and b :: u8
  proof (rule be_value_inject)
    have "be_value (replicate 31 0) = 0" by (simp add: be_value_def)
    then show "be_value (bi_set ref256 v) = be_value (replicate 31 0 @ [b])"
      using that u256.be_value_set [of v] by (simp add: be_value_append) (simp add: be_value_def)
  qed (use u256.length_set in simp)
  show "last (bi_set ref256 1) = (1 :: u8)" by (simp add: root [of 1 1])
  show "last (bi_set ref256 2) = (2 :: u8)" by (simp add: root [of 2 2])
qed

lemma run_solves:
  "solves run_env w (request (run_job hash prio ident)) \<longleftrightarrow> (ucast w :: u8) = last (bi_set ref256 hash)"
proof -
  have blake: "blake2b512 run_env = run_digest" by (rule ext) simp
  have "(0 :: u64) < - 1" by (simp add: word_less_nat_alt unat_minus_1)
  moreover have "length (bi_set ref256 hash) = 32" using u256.length_set by simp
  ultimately show ?thesis
    by (simp add: solves_def blake run_hash) (simp add: run_job_def demo_threshold)
qed

text \<open>The search for the hash 2, started at 1, finds the work 2.\<close>

lemma run_search:
  "pow_search run_env (\<lambda>_. 1) (request (run_job 2 prio ident))
     = \<lparr>work_value = 2, iterations = 1, found = True, draws = 1\<rparr>"
proof -
  have blake: "blake2b512 run_env = run_digest" by (rule ext) simp
  have pos: "(0 :: u64) < - 1" by (simp add: word_less_nat_alt unat_minus_1)
  have len: "length (bi_set ref256 2) = 32" using u256.length_set by simp
  have req: "req_difficulty (request (run_job 2 prio ident)) = bi_set ref128 1" by (simp add: run_job_def)
  show ?thesis
    by (simp add: pow_search_def blake req demo_threshold pow_start_def max_iterations_def
        pow_loop_step run_hash [OF len] run_roots pow_next_def pos)
qed

lemma run_work:
  "res_work (pow_result run_env base (\<lambda>_. 1) (request (run_job 2 prio ident))) = le_bytes64 2 @ replicate 8 0"
  by (simp add: pow_result_def run_search Let_def)

lemma run_work_hex: "work_hex (le_bytes64 2 @ replicate 8 0) = ''0000000000000002''"
  by (simp add: work_hex_eq le_bytes64_def upt8) code_simp

text \<open>
  C14: the handler posted for a request answers it with the work of whichever job is ahead in the
  queue. With priorities enabled, a request for the hash 1 that is overtaken by a request for the
  hash 2 is answered, as its only answer, with work that is valid for the hash 2 and not for its own.
\<close>

theorem answer_for_another_request:
  "\<exists>s rest. run_steps False (handle_request_async run_env run_config ''low'' (sys_init run_config)) s
    \<and> parse_request run_env run_config ''low'' 1 = (Enqueue None (run_job 1 0 1), 2)
    \<and> parse_request run_env run_config ''high'' 2 = (Enqueue None (run_job 2 7 2), 3)
    \<and> answers (hs s) = [(0, ''{\"work\":\"0000000000000002\",'' @ rest)]
    \<and> hex_value ''0000000000000002'' = unat (2 :: u64)
    \<and> solves run_env 2 (request (run_job 2 7 2)) \<and> \<not> solves run_env 2 (request (run_job 1 0 1))"
proof -
  let ?j = "run_job 2 7 2"
  let ?mr = "(False, pow_result run_env (bi_set ref128 1) (\<lambda>_. 1) (request ?j))"
  let ?h = "(hs one_served)\<lparr>locals := [0 \<mapsto> ?j\<lparr>job_res := snd ?mr\<rparr>],
    answers := [(0, write_json run_env (work_response run_env None (fst ?mr) (snd ?mr)))]\<rparr>"
  have idle: "answers idle_handler = []" by (simp add: idle_handler_def handler_ctor_def)
  have run: "run_steps False first_in (set_worker 0 (Answered 0 None 0) ?h one_served)"
    by (rule run_step [OF run_one_served answer [where t = 0 and rd = "Inr (\<lambda>_. 1)" and j = ?j and mr = ?mr]])
      ((simp add: one_served_def both_posted_def handler_ops generate_def idle del: run_env_simps(10))+)
  have "\<exists>rest. write_json run_env (work_response run_env None (fst ?mr) (snd ?mr))
      = ''{\"work\":\"0000000000000002\",'' @ rest"
    by (simp add: work_response_def Let_def pt_put_def attach_correlation_id_def run_work run_work_hex json_quote_def)
  then obtain rest where "write_json run_env (work_response run_env None (fst ?mr) (snd ?mr))
      = ''{\"work\":\"0000000000000002\",'' @ rest" by blast
  then have "answers (hs (set_worker 0 (Answered 0 None 0) ?h one_served)) = [(0, ''{\"work\":\"0000000000000002\",'' @ rest)]"
    by simp
  moreover have "hex_value ''0000000000000002'' = unat (2 :: u64)" by (simp add: hex_value_def hex_digit_def)
  moreover have "solves run_env 2 (request (run_job 2 7 2))" "\<not> solves run_env 2 (request (run_job 1 0 1))"
    by (simp_all add: run_solves run_roots)
  ultimately show ?thesis using run run_parse(1) [of 1] run_parse(2) [of 2] unfolding first_in_def
    by (intro exI [of _ "set_worker 0 (Answered 0 None 0) ?h one_served"] exI [of _ rest]) simp
qed

text \<open>
  After an exception in the search, the reference to the job's variable stays in \<open>active_jobs\<close>
  although the variable is gone: listing the queue then follows a dangling reference.
\<close>

theorem exception_leaves_dangling_reference:
  "\<exists>s. reachable True False run_env run_config s \<and> map fst (answers (hs s)) = [0]
    \<and> active_jobs (hs s) = [0] \<and> locals (hs s) 0 = None
    \<and> handle_queue_request run_env (next_request s) (hs s) = None"
proof -
  let ?s = "set_worker 0 Idle (worker_catch run_env 0 None ''no entropy'' (hs one_served)) one_served"
  have idle: "answers idle_handler = []" by (simp add: idle_handler_def handler_ctor_def)
  have "run_steps True first_in ?s"
    by (rule run_step [OF run_one_served throw [where t = 0 and rd = "Inl ''no entropy''" and j = "run_job 2 7 2"]])
      ((simp add: one_served_def both_posted_def generate_def)+)
  then have "reachable True False run_env run_config ?s"
    using reachable_run first_in_reachable by blast
  then show ?thesis
    by (intro exI [of _ ?s])
      (simp add: one_served_def both_posted_def idle handle_queue_request_def queue_response_def)
qed

section \<open>Witnesses\<close>

lemma one_served_reachable: "reachable fails False run_env run_config one_served"
  using reachable_run [OF run_one_served first_in_reachable] .

theorem every_request_answered_once_witness:
  "\<exists>s. reachable False False run_env run_config s \<and> mset (map fst (answers (hs s))) = {#0, 1#}"
proof -
  obtain s where s: "reachable False False run_env run_config s" "next_request s = 2"
      "\<And>s'. \<not> internal_step False False run_env run_config s s'"
    using quiescence_reached [OF one_served_reachable] by (auto simp: one_served_def both_posted_def)
  then have "mset (map fst (answers (hs s))) = mset [0..<2]"
    using every_request_answered_once [OF run_env_simps(1) s(1,3)] by simp
  then have "mset (map fst (answers (hs s))) = {#0, 1#}" by (simp add: numeral_2_eq_2 add_mset_commute)
  then show ?thesis using s(1) by blast
qed

theorem queue_bounded_witness:
  "length (jobs (hs both_posted)) \<le> 16384 \<and> map job_id (jobs (hs both_posted)) = [2, 1]"
proof -
  have "reachable False False run_env run_config both_posted"
    using reachable_run [OF run_both_posted first_in_reachable] .
  then show ?thesis using queue_bounded by (fastforce simp: both_posted_def)
qed

theorem job_for_every_handler_witness: "length (jobs (hs one_served)) = tickets run_config one_served"
  using job_for_every_handler [OF one_served_reachable] by blast

theorem references_and_devices_safe_witness:
  "\<exists>h. handle_queue_request run_env 2 (hs one_served) = Some h"
  using references_and_devices_safe [OF one_served_reachable]
  by (simp add: one_served_def both_posted_def)

theorem exception_leaks_device_witness:
  "busy (h_devices (hs (set_worker 0 Idle (worker_catch run_env 0 None ''no entropy'' (hs one_served)) one_served)) ! 0)"
proof -
  have active: "workers one_served 0 = Active 0 None 0" by (simp add: one_served_def)
  show ?thesis
    using exception_leaks_device [OF one_served_reachable active rtranclp.rtrancl_refl] by blast
qed


theorem queue_listing_witness:
  "\<exists>response. queue_response run_env (hs one_served) = Some response \<and>
     map_of response ''queued'' = Some (JArray [populate_json run_env (run_job 1 0 1)])"
proof -
  have "\<exists>response. queue_response run_env (hs one_served) = Some response"
    by (simp add: queue_response_def one_served_def both_posted_def)
  then obtain response where response: "queue_response run_env (hs one_served) = Some response" by blast
  then show ?thesis using queue_listing [OF response] by (simp add: one_served_def)
qed

end
