(* ===== verification/Lifecycle.thy ===== *)
theory Lifecycle
  imports Runs
begin

text \<open>
  What the work server promises of jobs, without threads, devices and locks: a specification with
  seven rules, and the proof that the server of the theory \<open>System\<close> refines it. The abstraction keeps
  of a job what never changes, its key.
\<close>

section \<open>The specification\<close>

type_synonym job_key = "job_request \<times> u32 \<times> u32"

definition job_key :: "job \<Rightarrow> job_key" where
  "job_key j = (request j, priority j, job_id j)"

text \<open>By priority, and within a priority by age.\<close>

definition served_after :: "job_key \<Rightarrow> job_key \<Rightarrow> bool" where
  "served_after = (\<lambda>(_, p, i) (_, p', i'). if p \<noteq> p' then p' > p else i > i')"

text \<open>
  The jobs that wait, the job that is worked on for a request, the jobs that were completed last,
  and the requests that have been answered, in this order.
\<close>

record spec =
  waiting :: "job_key multiset"
  working :: "nat \<rightharpoonup> job_key"
  finished :: "job_key list"
  answered :: "nat list"

definition spec_init :: spec where
  "spec_init = \<lparr>waiting = {#}, working = Map.empty, finished = [], answered = []\<rparr>"

definition keep_last :: "'a \<Rightarrow> 'a list \<Rightarrow> 'a list" where
  "keep_last x xs = drop (Suc (length xs) - 128) (xs @ [x])"

inductive spec_step :: "bool \<Rightarrow> bool \<Rightarrow> nat \<Rightarrow> spec \<Rightarrow> spec \<Rightarrow> bool"
  for fails withdraws limit where
  submit: "size (waiting a) < limit \<Longrightarrow>
    spec_step fails withdraws limit a (a\<lparr>waiting := add_mset k (waiting a)\<rparr>)"
| refuse: "working a c = None \<Longrightarrow> c \<notin> set (answered a) \<Longrightarrow>
    spec_step fails withdraws limit a (a\<lparr>answered := answered a @ [c]\<rparr>)"
| withdraw: "withdraws \<Longrightarrow> kept \<subseteq># waiting a \<Longrightarrow> working a c = None \<Longrightarrow> c \<notin> set (answered a) \<Longrightarrow>
    spec_step fails withdraws limit a (a\<lparr>waiting := kept, answered := answered a @ [c]\<rparr>)"
| serve: "k \<in># waiting a \<Longrightarrow> \<forall>k' \<in># waiting a. \<not> served_after k k' \<Longrightarrow> working a c = None \<Longrightarrow>
    c \<notin> set (answered a) \<Longrightarrow>
    spec_step fails withdraws limit a (a\<lparr>waiting := waiting a - {#k#}, working := (working a)(c \<mapsto> k)\<rparr>)"
| reply: "working a c = Some k \<Longrightarrow> c \<notin> set (answered a) \<Longrightarrow>
    spec_step fails withdraws limit a (a\<lparr>answered := answered a @ [c]\<rparr>)"
| complete: "working a c = Some k \<Longrightarrow> c \<in> set (answered a) \<Longrightarrow>
    spec_step fails withdraws limit a (a\<lparr>working := (working a)(c := None), finished := keep_last k (finished a)\<rparr>)"
| abort: "fails \<Longrightarrow> working a c = Some k \<Longrightarrow> c \<notin> set (answered a) \<Longrightarrow>
    spec_step fails withdraws limit a (a\<lparr>working := (working a)(c := None), answered := answered a @ [c]\<rparr>)"

section \<open>The abstraction\<close>

definition abs_spec :: "handler \<Rightarrow> spec" where
  "abs_spec h = \<lparr>waiting = mset (map job_key (jobs h)), working = (\<lambda>c. map_option job_key (locals h c)),
     finished = map job_key (completed_jobs h), answered = map fst (answers h)\<rparr>"

lemma job_key_simps [simp]:
  "job_key (job_start now j) = job_key j" "job_key (job_stop now j) = job_key j"
  "job_key (j\<lparr>job_res := r\<rparr>) = job_key j"
  by (simp_all add: job_key_def job_start_def job_stop_def)

lemma served_after_key: "served_after (job_key a) (job_key b) \<longleftrightarrow> comparator a b"
  by (simp add: served_after_def job_key_def comparator_def)

lemma circular_push_key: "map job_key (circular_push j buf) = keep_last (job_key j) (map job_key buf)"
  by (simp add: circular_push_def keep_last_def completed_capacity_def drop_map)

lemma abs_spec_simps [simp]:
  "abs_spec (h\<lparr>job_id_dispenser := d\<rparr>) = abs_spec h" "abs_spec (h\<lparr>h_devices := ds\<rparr>) = abs_spec h"
  "abs_spec (h\<lparr>active_jobs := as\<rparr>) = abs_spec h"
  "abs_spec (respond c x h) = (abs_spec h)\<lparr>answered := answered (abs_spec h) @ [c]\<rparr>"
  "abs_spec (h\<lparr>jobs := q\<rparr>) = (abs_spec h)\<lparr>waiting := mset (map job_key q)\<rparr>"
  "abs_spec (h\<lparr>locals := m\<rparr>) = (abs_spec h)\<lparr>working := (\<lambda>c. map_option job_key (m c))\<rparr>"
  "abs_spec (h\<lparr>completed_jobs := js\<rparr>) = (abs_spec h)\<lparr>finished := map job_key js\<rparr>"
  "waiting (abs_spec h) = mset (map job_key (jobs h))" "working (abs_spec h) c = map_option job_key (locals h c)"
  "finished (abs_spec h) = map job_key (completed_jobs h)" "answered (abs_spec h) = map fst (answers h)"
  by (simp_all add: abs_spec_def respond_def)

section \<open>Frames\<close>

text \<open>A local variable belongs to a thread, and a thread that has answered is past its answer.\<close>

fun pc_past :: "worker_pc \<Rightarrow> nat option" where
  "pc_past (Answered c _ _) = Some c"
| "pc_past (Released c _) = Some c"
| "pc_past _ = None"

definition frames_inv :: "sys \<Rightarrow> bool" where
  "frames_inv s \<longleftrightarrow> (\<forall>c \<in> dom (locals (hs s)). \<exists>t. pc_job (workers s t) = Some c)
     \<and> (\<forall>t c. pc_past (workers s t) = Some c \<longrightarrow> c \<in> fst ` set (answers (hs s)))"

lemma frames_inv_same:
  assumes "frames_inv s" and "workers s' = workers s" and "locals (hs s') = locals (hs s)"
    and "fst ` set (answers (hs s)) \<subseteq> fst ` set (answers (hs s'))"
  shows "frames_inv s'"
  using assms(1,4) unfolding frames_inv_def assms(2,3) by blast

lemma frames_inv_worker:
  assumes "frames_inv s" and "dom (locals h) \<subseteq> dom (locals (hs s)) \<union> set_option (pc_job pc)"
    and "\<And>c. pc_job (workers s t) = Some c \<Longrightarrow> pc_job pc = Some c \<or> c \<notin> dom (locals h)"
    and "fst ` set (answers (hs s)) \<subseteq> fst ` set (answers h)"
    and "\<And>c. pc_past pc = Some c \<Longrightarrow> c \<in> fst ` set (answers h)"
  shows "frames_inv (set_worker t pc h s)"
proof -
  have "\<exists>u. pc_job (((workers s)(t := pc)) u) = Some c" if c: "c \<in> dom (locals h)" for c
  proof (cases "pc_job pc = Some c")
    case True
    then show ?thesis by (intro exI [of _ t]) simp
  next
    case False
    then have "c \<in> dom (locals (hs s))" using assms(2) c by auto
    then obtain u where "pc_job (workers s u) = Some c" using assms(1) unfolding frames_inv_def by blast
    moreover from this have "u \<noteq> t" using assms(3) False c by blast
    ultimately show ?thesis by (intro exI [of _ u]) simp
  qed
  moreover have "c \<in> fst ` set (answers h)"
    if c: "pc_past (((workers s)(t := pc)) u) = Some c" for u c
  proof (cases "u = t")
    case True
    then show ?thesis using assms(5) c by simp
  next
    case False
    then have "c \<in> fst ` set (answers (hs s))" using assms(1) c by (simp add: frames_inv_def)
    then show ?thesis using assms(4) by blast
  qed
  ultimately show ?thesis unfolding frames_inv_def by simp
qed

lemma frames_inv_step:
  assumes "sys_step fails withdraws E cfg s s'" and "frames_inv s"
  shows "frames_inv s'"
  using assms
proof (induction rule: sys_step.induct)
  case (arrive body s)
  then show ?case
    by (cases rule: arrive_cases [of E cfg body s]) (auto simp: frames_inv_def)
next
  case (take_task t s c cid rest)
  then have "frames_inv (set_worker t (Begun c cid) (hs s) s)"
    by (intro frames_inv_worker) auto
  then show ?case by (rule frames_inv_same) simp_all
next
  case (acquire s t c cid i h)
  then show ?case by (intro frames_inv_worker) (auto simp: scan_Inr)
next
  case (no_device s t c cid what h)
  then show ?case by (intro frames_inv_worker) (auto dest!: scan_Inl simp: worker_catch_def end_frame_def split: if_splits)
next
  case (throw s t c cid i j rd what)
  then show ?case by (intro frames_inv_worker) (auto simp: worker_catch_def end_frame_def split: if_splits)
next
  case (release s t c cid i now h)
  then have "pc_past (workers s t) = Some c" by simp
  then have "c \<in> fst ` set (answers (hs s))" using release.prems unfolding frames_inv_def by blast
  then show ?case using release by (intro frames_inv_worker) (auto simp: handler_ops)
next
  case (finish s t c cid h)
  then show ?case by (intro frames_inv_worker) (auto simp: handler_ops split: if_splits)
next
  case (no_jobs s t c cid h)
  then show ?case by (intro frames_inv_worker) (auto simp: handler_ops worker_no_jobs_def)
next
  case (start s t c cid i now h)
  then show ?case by (intro frames_inv_worker) (auto simp: handler_ops)
next
  case (answer s t c cid i j rd mr h)
  then show ?case by (intro frames_inv_worker) (auto simp: handler_ops)
next
  case (pop s t c cid h)
  then show ?case by (intro frames_inv_worker) (auto simp: handler_ops)
qed (erule frames_inv_same; auto simp: handler_ops handle_queue_delete_request_def)+

text \<open>A request that has no thread at work for it has no frame.\<close>

lemma frame_counted:
  assumes "sys_inv fails cfg s" and "frames_inv s" and "locals (hs s) c \<noteq> None"
  shows "c \<in># pool_sum cfg pc_client (workers s)"
proof -
  obtain u where u: "pc_job (workers s u) = Some c" using assms(2,3) unfolding frames_inv_def by blast
  then have "u < length (devices cfg)" using assms(1) by (force simp: sys_inv_def pool_ok_def)
  then have "pc_client (workers s u) \<subseteq># pool_sum cfg pc_client (workers s)"
    unfolding pool_sum_def by (simp add: sum.remove [of _ u])
  then show ?thesis using pc_job_client [OF u] by simp
qed

lemma requests_count: "count (requests n) c \<le> 1" "c \<in># requests n \<longleftrightarrow> c < n"
  by (simp_all add: requests_def count_mset_set')

lemma no_frame_outside:
  assumes "sys_inv fails cfg s" and "frames_inv s"
    and "c = next_request s \<or> c \<in> fst ` set (flights s)"
  shows "locals (hs s) c = None"
proof (rule ccontr)
  assume "locals (hs s) c \<noteq> None"
  then have pool: "c \<in># pool_sum cfg pc_client (workers s)" by (rule frame_counted [OF assms(1,2)])
  have sub: "present cfg s \<subseteq># requests (next_request s)"
    using assms(1) by (simp add: sys_inv_def present_inv_def)
  have "c \<in># present cfg s" using pool by (simp add: present_def)
  then have "c < next_request s" using sub requests_count(2) by (blast dest: mset_subset_eqD)
  moreover have "c \<notin> fst ` set (flights s)"
  proof
    assume "c \<in> fst ` set (flights s)"
    then have "c \<in># mset (map fst (flights s))" by simp
    then have "0 < count (mset (map fst (flights s))) c" "0 < count (pool_sum cfg pc_client (workers s)) c"
      using pool by simp_all
    then have "2 \<le> count (present cfg s) c" unfolding present_def count_union by linarith
    then show False
      using mset_subset_eq_count [OF sub, of c] requests_count(1) [of "next_request s" c] by simp
  qed
  ultimately show False using assms(3) by simp
qed

lemma begun_has_no_frame:
  assumes "sys_inv fails cfg s" and "frames_inv s" and "workers s t = Begun c cid"
  shows "locals (hs s) c = None"
proof (rule ccontr)
  assume "locals (hs s) c \<noteq> None"
  then obtain u where u: "pc_job (workers s u) = Some c" using assms(2) unfolding frames_inv_def by blast
  have "pool_ok cfg s" "present_inv cfg s" using assms(1) by (simp_all add: sys_inv_def)
  then have "t = u" using one_client [of cfg s t c u] assms(3) pc_job_client [OF u] by simp
  then show False using assms(3) u by simp
qed

section \<open>The server refines the specification\<close>

lemma frames_inv_init: "frames_inv (sys_init cfg)"
  by (simp add: frames_inv_def sys_init_def handler_ctor_def)

lemma reachable_frames_inv: "reachable fails withdraws E cfg s \<Longrightarrow> frames_inv s"
  by (rule reachable_invariant) (use frames_inv_init frames_inv_step in blast)+

text \<open>A new answer is the first one for its request.\<close>

lemma new_answer:
  assumes "reachable fails withdraws E cfg s" and "sys_step fails withdraws E cfg s s'"
    and "map fst (answers (hs s')) = map fst (answers (hs s)) @ [c]"
  shows "c \<notin> fst ` set (answers (hs s))"
proof -
  have "distinct (map fst (answers (hs s')))"
    by (rule answers_distinct [OF reachable.step [OF assms(1,2)]])
  then show ?thesis unfolding assms(3) by simp
qed

lemma owner_unanswered:
  assumes "reachable fails withdraws E cfg s" and "pc_owner (workers s t) = {#c#}"
  shows "c \<notin> fst ` set (answers (hs s))"
proof
  assume "c \<in> fst ` set (answers (hs s))"
  then have "0 < count (mset (map fst (answers (hs s)))) c" by simp
  moreover have "t < length (devices cfg)"
    using reachable_pool_ok [OF assms(1)] assms(2) by (force simp: pool_ok_def)
  then have "pc_owner (workers s t) \<subseteq># pool_sum cfg pc_owner (workers s)"
    unfolding pool_sum_def by (simp add: sum.remove [of _ t])
  then have "0 < count (pool_sum cfg pc_owner (workers s)) c"
    using mset_subset_eq_count [of "{#c#}" _ c] unfolding assms(2) by simp
  ultimately have "2 \<le> count (whereabouts cfg s) c" unfolding whereabouts_def count_union by linarith
  then show False
    using requests_count(1) [of "next_request s" c]
    unfolding reachable_whereabouts [OF assms(1)] requests_def by simp
qed

lemma simulates_step:
  assumes "reachable fails withdraws E cfg s" and "sys_step fails withdraws E cfg s s'"
  shows "(spec_step fails withdraws (unat (request_limit (server cfg))))\<^sup>=\<^sup>= (abs_spec (hs s)) (abs_spec (hs s'))"
    (is "?spec (abs_spec (hs s)) (abs_spec (hs s'))")
proof -
  note inv = reachable_sys_inv [OF assms(1)] and frames = reachable_frames_inv [OF assms(1)]
  note new = new_answer [OF assms] and outside = no_frame_outside [OF inv frames]
  have refusal: "?spec (abs_spec (hs s)) (abs_spec (hs s'))"
    if "abs_spec (hs s') = (abs_spec (hs s))\<lparr>answered := answered (abs_spec (hs s)) @ [c]\<rparr>"
      "locals (hs s) c = None" for c
  proof -
    have "map fst (answers (hs s')) = map fst (answers (hs s)) @ [c]"
      using arg_cong [OF that(1), of answered] by simp
    then have "c \<notin> fst ` set (answers (hs s))" by (rule new)
    then have "spec_step fails withdraws (unat (request_limit (server cfg))) (abs_spec (hs s)) (abs_spec (hs s'))"
      unfolding that(1) using that(2) by (intro spec_step.refuse) simp_all
    then show ?thesis by simp
  qed
  have withdrawal: "?spec (abs_spec (hs s)) (abs_spec (hs s'))"
    if "withdraws" "abs_spec (hs s') = (abs_spec (hs s))\<lparr>waiting := mset (map job_key (filter P (jobs (hs s)))),
        answered := answered (abs_spec (hs s)) @ [c]\<rparr>" "locals (hs s) c = None" for c P
  proof -
    have "map fst (answers (hs s')) = map fst (answers (hs s)) @ [c]"
      using arg_cong [OF that(2), of answered] by simp
    then have "c \<notin> fst ` set (answers (hs s))" by (rule new)
    moreover have "mset (map job_key (filter P (jobs (hs s)))) \<subseteq># mset (map job_key (jobs (hs s)))"
      by (simp add: image_mset_subseteq_mono)
    ultimately have "spec_step fails withdraws (unat (request_limit (server cfg))) (abs_spec (hs s)) (abs_spec (hs s'))"
      unfolding that(2) using that(1,3) by (intro spec_step.withdraw) simp_all
    then show ?thesis by simp
  qed
  have abortion: "?spec (abs_spec (hs s)) (abs_spec (hs s'))"
    if "fails" "hs s' = worker_catch E c cid what (hs s)" "locals (hs s) c = Some j" for c cid what j
  proof -
    have h: "abs_spec (hs s') = (abs_spec (hs s))\<lparr>working := (working (abs_spec (hs s)))(c := None),
        answered := answered (abs_spec (hs s)) @ [c]\<rparr>"
      using that(2) by (simp add: abs_spec_def fun_eq_iff)
    have "map fst (answers (hs s')) = map fst (answers (hs s)) @ [c]"
      using arg_cong [OF h, of answered] by simp
    then have "spec_step fails withdraws (unat (request_limit (server cfg))) (abs_spec (hs s)) (abs_spec (hs s'))"
      unfolding h using that(1,3) new by (intro spec_step.abort) simp_all
    then show ?thesis by simp
  qed
  from assms(2) show ?thesis
  proof cases
    case (arrive body)
    show ?thesis
    proof (cases rule: arrive_cases [of E cfg body s])
      case (now reply d q)
      have none: "locals (hs s) (next_request s) = None" by (rule outside) simp
      show ?thesis
      proof (cases "is_cancel E cfg body s")
        case True
        obtain P where "q = filter P (jobs (hs s))"
          using now(4) reachable_queue_inv [OF assms(1)] by (auto simp: queue_inv_def)
        then show ?thesis
          using withdrawal [where P = P and c = "next_request s"] arrive now(1) none True by simp
      next
        case False
        then show ?thesis using refusal [of "next_request s"] arrive now(1,3) none by simp
      qed
    next
      case (flight cid j)
      then show ?thesis using arrive by simp
    qed
  next
    case (list_queue h)
    then show ?thesis using refusal [of "next_request s"] outside by (auto simp: handler_ops)
  next
    case (reply_at_once text_l)
    then show ?thesis using refusal [of "next_request s"] outside by simp
  next
    case delete_queue
    then show ?thesis
      using refusal [of "next_request s"] withdrawal [where P = "\<lambda>_. False" and c = "next_request s"] outside
      by (cases "allow_control (server cfg)") (simp_all add: handle_queue_delete_request_def)
  next
    case (lock xs c cid j ys q)
    then have "spec_step fails withdraws (unat (request_limit (server cfg))) (abs_spec (hs s))
        ((abs_spec (hs s))\<lparr>waiting := add_mset (job_key j) (waiting (abs_spec (hs s)))\<rparr>)"
      by (intro spec_step.submit) (simp add: handler_ops)
    then show ?thesis using lock by (simp add: handler_ops pq_push_def)
  next
    case (lock_full xs c cid j ys what q)
    then show ?thesis using refusal [of c] outside [of c] by (auto simp: handler_ops)
  next
    case (pop t c cid h)
    then have h: "jobs (hs s) \<noteq> []" "h = (hs s)\<lparr>jobs := tl (jobs (hs s)), locals := (locals (hs s))(c \<mapsto> hd (jobs (hs s)))\<rparr>"
      by (simp_all add: handler_ops)
    obtain j js where js: "jobs (hs s) = j # js" using h(1) by (cases "jobs (hs s)") auto
    have none: "locals (hs s) c = None" by (rule begun_has_no_frame [OF inv frames pop(2)])
    have "c \<notin> fst ` set (answers (hs s))"
      using owner_unanswered [OF assms(1), of t c] pop(2) by simp
    moreover have "\<forall>k \<in># mset (map job_key (jobs (hs s))). \<not> served_after (job_key j) k"
      using reachable_queue_inv [OF assms(1)] js by (auto simp: queue_inv_def served_after_key)
    ultimately have "spec_step fails withdraws (unat (request_limit (server cfg))) (abs_spec (hs s))
        ((abs_spec (hs s))\<lparr>waiting := waiting (abs_spec (hs s)) - {#job_key j#},
           working := (working (abs_spec (hs s)))(c \<mapsto> job_key j)\<rparr>)"
      using none js by (intro spec_step.serve) simp_all
    moreover have "abs_spec (hs s') = (abs_spec (hs s))\<lparr>waiting := waiting (abs_spec (hs s)) - {#job_key j#},
           working := (working (abs_spec (hs s)))(c \<mapsto> job_key j)\<rparr>"
      using pop(1) h(2) js by (simp add: abs_spec_def fun_eq_iff)
    ultimately show ?thesis by simp
  next
    case (no_jobs t c cid h)
    then show ?thesis
      using refusal [of c] begun_has_no_frame [OF inv frames no_jobs(2)] by (simp add: handler_ops worker_no_jobs_def)
  next
    case (acquire t c cid i h)
    then show ?thesis by (auto simp: scan_Inr)
  next
    case (no_device t c cid what h)
    have fails
    proof (rule ccontr)
      assume fails: "\<not> fails"
      then have "device_inv False cfg s" "pool_ok cfg s" using inv by (simp_all add: sys_inv_def)
      then show False using device_available [OF _ _ no_device(2)] scan_Inl [OF no_device(3)] fails by blast
    qed
    moreover obtain j where "locals (hs s) c = Some j"
      using inv ref_inv_local [of fails s t c] no_device(2) by (auto simp: sys_inv_def)
    ultimately show ?thesis
      using abortion [of c] scan_Inl [OF no_device(3)] no_device(1) by simp
  next
    case (start t c cid i now h)
    then show ?thesis by (auto simp: handler_ops abs_spec_def fun_eq_iff)
  next
    case (answer t c cid i j rd mr h)
    then have h: "abs_spec (hs s') = (abs_spec (hs s))\<lparr>answered := answered (abs_spec (hs s)) @ [c]\<rparr>"
      by (auto simp: handler_ops abs_spec_def fun_eq_iff)
    have "map fst (answers (hs s')) = map fst (answers (hs s)) @ [c]"
      using arg_cong [OF h, of answered] by simp
    then have "spec_step fails withdraws (unat (request_limit (server cfg))) (abs_spec (hs s)) (abs_spec (hs s'))"
      unfolding h using new answer(3) by (intro spec_step.reply) simp_all
    then show ?thesis by simp
  next
    case (throw t c cid i j rd what)
    then show ?thesis using abortion [of c] by simp
  next
    case (release t c cid i now h)
    then show ?thesis by (auto simp: handler_ops abs_spec_def fun_eq_iff)
  next
    case (finish t c cid h)
    then obtain j where j: "locals (hs s) c = Some j"
      and h: "abs_spec (hs s') = (abs_spec (hs s))\<lparr>working := (working (abs_spec (hs s)))(c := None),
         finished := keep_last (job_key j) (finished (abs_spec (hs s)))\<rparr>"
      by (auto simp: handler_ops abs_spec_def fun_eq_iff circular_push_key)
    have "pc_past (workers s t) = Some c" using finish(2) by simp
    then have "c \<in> fst ` set (answers (hs s))" using frames unfolding frames_inv_def by blast
    then have "spec_step fails withdraws (unat (request_limit (server cfg))) (abs_spec (hs s)) (abs_spec (hs s'))"
      unfolding h using j by (intro spec_step.complete) simp_all
    then show ?thesis by simp
  qed simp_all
qed

abbreviation server_spec :: "bool \<Rightarrow> bool \<Rightarrow> config \<Rightarrow> spec \<Rightarrow> spec \<Rightarrow> bool" where
  "server_spec fails withdraws cfg \<equiv> spec_step fails withdraws (unat (request_limit (server cfg)))"

interpretation lifecycle: simulation "\<lambda>s. s = sys_init cfg" "sys_step fails withdraws E cfg" "reachable fails withdraws E cfg"
    spec_init "server_spec fails withdraws cfg" "\<lambda>s. abs_spec (hs s)" for fails withdraws E cfg
proof unfold_locales
  show "abs_spec (hs s) = spec_init" if "s = sys_init cfg" for s
    using that by (simp add: abs_spec_def spec_init_def sys_init_def handler_ctor_def)
qed (rule simulates_step)

text \<open>What holds of the specification holds of the server.\<close>

definition spec_inv :: "nat \<Rightarrow> spec \<Rightarrow> bool" where
  "spec_inv limit a \<longleftrightarrow> size (waiting a) \<le> limit \<and> length (finished a) \<le> 128 \<and> distinct (answered a)"

lemma spec_inv_step:
  assumes "spec_step fails withdraws limit a b" and "spec_inv limit a"
  shows "spec_inv limit b"
  using assms
proof (induction rule: spec_step.induct)
  case (withdraw kept a c)
  then show ?case using size_mset_mono [OF withdraw.hyps(2)] by (simp add: spec_inv_def)
next
  case (serve k a c)
  then show ?case using size_Diff1_le [of "waiting a" k] by (simp add: spec_inv_def)
qed (simp_all add: spec_inv_def keep_last_def)

lemma server_spec_inv:
  assumes "reachable fails withdraws E cfg s"
  shows "spec_inv (unat (request_limit (server cfg))) (abs_spec (hs s))"
  by (rule lifecycle.invariant_transfer [OF assms]) (use spec_inv_step in \<open>auto simp: spec_inv_def spec_init_def\<close>)

section \<open>Properties\<close>

text \<open>
  C5: the server refines the specification of what happens to jobs. A job that is accepted waits; of
  the jobs that wait, one of highest priority, and among these the oldest, is served for a request
  that has no answer yet; the request is answered while the job is worked on, and then the job
  is completed. Jobs are lost only through cancellations, and through exceptions, which answer
  the request. Every step under every interleaving is a step of the specification or does
  not show in it.
\<close>

theorem server_refines_spec:
  assumes "reachable fails withdraws E cfg s"
  shows "abs_spec (hs (sys_init cfg)) = spec_init
    \<and> (\<forall>s'. sys_step fails withdraws E cfg s s' \<longrightarrow>
          (server_spec fails withdraws cfg)\<^sup>=\<^sup>= (abs_spec (hs s)) (abs_spec (hs s')))
    \<and> (server_spec fails withdraws cfg)\<^sup>*\<^sup>* spec_init (abs_spec (hs s))"
  using lifecycle.abstracts_initial [OF refl] lifecycle.simulates [OF assms] lifecycle.run_refines [OF assms]
  by blast

theorem server_refines_spec_witness:
  "(server_spec True False run_config)\<^sup>*\<^sup>* spec_init
     \<lparr>waiting = {#job_key (run_job 1 0 1)#}, working = [0 \<mapsto> job_key (run_job 2 7 2)], finished = [], answered = []\<rparr>"
proof -
  have "abs_spec (hs one_served) = \<lparr>waiting = {#job_key (run_job 1 0 1)#},
      working = [0 \<mapsto> job_key (run_job 2 7 2)], finished = [], answered = []\<rparr>"
    by (simp add: abs_spec_def one_served_def both_posted_def idle_handler_def handler_ctor_def fun_eq_iff)
  then show ?thesis
    using server_refines_spec [OF one_served_reachable [of True]] by simp
qed

end
