(* ===== verification/Orderly.thy ===== *)
theory Orderly
  imports Runs
begin

text \<open>
  The counterpart of \<open>answer_for_another_request\<close>: with one device, without priorities and with one
  request at a time on the way to the queue (one I/O thread), each request is answered with the
  work for its own hash, as long as the 32 bit ids of the jobs do not wrap around.
\<close>

section \<open>One request at a time\<close>




section \<open>The invariant\<close>











section \<open>Every step keeps the invariant\<close>











section \<open>Property\<close>


section \<open>Witness\<close>

text \<open>The run of one request on one device, up to its answer.\<close>

definition plain_config :: config where
  "plain_config = run_config\<lparr>server := (server run_config)\<lparr>allow_prioritization := False\<rparr>\<rparr>"

lemma plain_config_simps [simp]:
  "devices plain_config = [default_device]" "\<not> allow_prioritization (server plain_config)"
  "unat (request_limit (server plain_config)) = 16384" "work plain_config = work run_config"
  by (simp_all add: plain_config_def)




definition plain_handler :: handler where
  "plain_handler = (handler_ctor plain_config)\<lparr>job_id_dispenser := 2\<rparr>"

lemma plain_handler_simps [simp]:
  "jobs plain_handler = []" "h_devices plain_handler = [register_device default_device]"
  "locals plain_handler = Map.empty" "active_jobs plain_handler = []" "answers plain_handler = []"
  "\<not> busy (register_device default_device)" "job_start 0 (run_job r p i) = run_job r p i"
  by (simp_all add: plain_handler_def handler_ctor_def register_device_def job_start_def run_job_def)





end
