(* ===== verification/Listing.thy ===== *)
theory Listing
  imports Runs
begin

text \<open>
  The ids of the jobs that are on their way, and with them the contents of \<open>active_jobs\<close>: as long as
  the 32 bit ids do not wrap around, no two of these jobs have the same id, so that the ordered set
  neither refuses nor loses an element, and the listing of the queue shows what the threads work on.
\<close>

section \<open>Different jobs have different ids\<close>

definition frame_id :: "(nat \<rightharpoonup> job) \<Rightarrow> worker_pc \<Rightarrow> u32 multiset" where
  "frame_id m pc = (case pc_job pc of None \<Rightarrow> {#} | Some c \<Rightarrow> (case m c of None \<Rightarrow> {#} | Some j \<Rightarrow> {#job_id j#}))"

fun flight_id :: "request_pc \<Rightarrow> u32 multiset" where
  "flight_id (Locking cid j) = {#job_id j#}"
| "flight_id (Posting cid) = {#}"

definition live_ids :: "config \<Rightarrow> sys \<Rightarrow> u32 multiset" where
  "live_ids cfg s = mset (map job_id (jobs (hs s))) + sum_list (map (flight_id \<circ> snd) (flights s))
     + pool_sum cfg (frame_id (locals (hs s))) (workers s)"

definition id_inv :: "config \<Rightarrow> sys \<Rightarrow> bool" where
  "id_inv cfg s \<longleftrightarrow> live_ids cfg s \<subseteq># mset_set {x. x < job_id_dispenser (hs s)}
     \<and> unat (job_id_dispenser (hs s)) \<le> Suc (next_request s)"

lemma ids_extend:
  assumes "unat d \<le> Suc n" and "n + 2 < 2 ^ 32"
  shows "mset_set {x. x < d + (1 :: u32)} = add_mset d (mset_set {x. x < d})" and "unat (d + 1) \<le> Suc (Suc n)"
    and "d < d + 1"
proof -
  have "unat d + 1 < 2 ^ LENGTH(32)" using assms by simp
  then have u: "unat (d + 1) = unat d + 1" by (simp add: unat_word_ariths)
  then show "unat (d + 1) \<le> Suc (Suc n)" "d < d + 1" using assms(1) by (simp_all add: word_less_nat_alt)
  have "{x. x < d + 1} = insert d {x. x < d}"
    by (auto simp: word_less_nat_alt u less_Suc_eq word_unat_eq_iff)
  then show "mset_set {x. x < d + 1} = add_mset d (mset_set {x. x < d})" by simp
qed

lemma id_inv_smaller:
  assumes "id_inv cfg s" and "live_ids cfg s' \<subseteq># live_ids cfg s"
    and "job_id_dispenser (hs s') = job_id_dispenser (hs s)" and "next_request s \<le> next_request s'"
  shows "id_inv cfg s'"
proof -
  have "live_ids cfg s' \<subseteq># mset_set {x. x < job_id_dispenser (hs s')}"
    using assms(1,2) subset_mset.order_trans unfolding id_inv_def assms(3) by blast
  then show ?thesis using assms(1,3,4) by (simp add: id_inv_def)
qed

text \<open>A pool thread moves on; the frames of the others stay as they are.\<close>

lemma frames_move:
  assumes "pool_ok cfg s" and "workers s t \<noteq> Idle"
    and "\<And>u. u \<noteq> t \<Longrightarrow> frame_id m (workers s u) = frame_id (locals (hs s)) (workers s u)"
  shows "pool_sum cfg (frame_id m) ((workers s)(t := pc)) + frame_id (locals (hs s)) (workers s t)
    = pool_sum cfg (frame_id (locals (hs s))) (workers s) + frame_id m pc"
proof -
  have t: "t \<in> {..<length (devices cfg)}" using assms(1,2) by (simp add: pool_ok_def)
  have same: "(\<Sum>u \<in> {..<length (devices cfg)} - {t}. frame_id m (((workers s)(t := pc)) u))
      = (\<Sum>u \<in> {..<length (devices cfg)} - {t}. frame_id (locals (hs s)) (workers s u))"
    by (rule sum.cong) (auto simp: assms(3))
  show ?thesis
    unfolding pool_sum_def sum.remove [OF finite_lessThan t] same by simp
qed

lemma other_frames:
  assumes "pool_ok cfg s" and "present_inv cfg s" and "pc_client (workers s t) = {#c#}"
    and "\<And>a. a \<noteq> c \<Longrightarrow> m a = locals (hs s) a" and "u \<noteq> t"
  shows "frame_id m (workers s u) = frame_id (locals (hs s)) (workers s u)"
proof (cases "pc_job (workers s u)")
  case (Some a)
  then have "a \<noteq> c" using one_client [OF assms(1,2,3)] pc_job_client [of "workers s u" a] assms(5) by metis
  then show ?thesis using Some assms(4) by (simp add: frame_id_def)
qed (simp add: frame_id_def)

lemma id_inv_worker:
  assumes "id_inv cfg s" and "pool_ok cfg s" and "present_inv cfg s" and "pc_client (workers s t) = {#c#}"
    and "\<And>a. a \<noteq> c \<Longrightarrow> locals h a = locals (hs s) a"
    and "mset (map job_id (jobs h)) + frame_id (locals h) pc
      \<subseteq># mset (map job_id (jobs (hs s))) + frame_id (locals (hs s)) (workers s t)"
    and "job_id_dispenser h = job_id_dispenser (hs s)"
  shows "id_inv cfg (set_worker t pc h s)"
proof (rule id_inv_smaller [OF assms(1)])
  have "workers s t \<noteq> Idle" using assms(4) by auto
  then have "pool_sum cfg (frame_id (locals h)) ((workers s)(t := pc)) + frame_id (locals (hs s)) (workers s t)
      = pool_sum cfg (frame_id (locals (hs s))) (workers s) + frame_id (locals h) pc"
    by (rule frames_move [OF assms(2)]) (rule other_frames [OF assms(2-5)])
  note move = this
  have "live_ids cfg (set_worker t pc h s) + frame_id (locals (hs s)) (workers s t)
      = mset (map job_id (jobs h)) + frame_id (locals h) pc + sum_list (map (flight_id \<circ> snd) (flights s))
        + pool_sum cfg (frame_id (locals (hs s))) (workers s)"
    using move by (simp add: live_ids_def ac_simps)
  also have "\<dots> \<subseteq># live_ids cfg s + frame_id (locals (hs s)) (workers s t)"
    using assms(6) by (simp add: live_ids_def ac_simps subset_mset.add_left_mono)
  finally show "live_ids cfg (set_worker t pc h s) \<subseteq># live_ids cfg s" by simp
qed (use assms(7) in simp_all)

lemma id_inv_step:
  assumes "sys_step fails withdraws E cfg s s'" and "id_inv cfg s" and "pool_ok cfg s" and "present_inv cfg s"
    and "queue_ordered (jobs (hs s))" and "next_request s + 2 < 2 ^ 32"
  shows "id_inv cfg s'"
  using assms(1)
proof cases
  case (arrive body)
  have bound: "unat (job_id_dispenser (hs s)) \<le> Suc (next_request s)" using assms(2) by (simp add: id_inv_def)
  note ext = ids_extend [OF bound assms(6)]
  show ?thesis
  proof (cases rule: arrive_cases [of E cfg body s])
    case (now reply d q)
    obtain P where q: "q = filter P (jobs (hs s))" using now(4) assms(5) by blast
    have sub: "live_ids cfg s' \<subseteq># live_ids cfg s"
      unfolding arrive(1) now(1) live_ids_def q
      by (simp add: image_mset_subseteq_mono)
    have "{x. x < job_id_dispenser (hs s)} \<subseteq> {x. x < d}"
      using now(2) ext(3) by auto
    then have "mset_set {x. x < job_id_dispenser (hs s)} \<subseteq># mset_set {x. x < d}"
      by (simp add: subset_imp_msubset_mset_set)
    then have "live_ids cfg s' \<subseteq># mset_set {x. x < d}"
      using sub assms(2) unfolding id_inv_def by (meson subset_mset.order_trans)
    then show ?thesis
      using now(2) ext(2) bound by (auto simp: arrive(1) now(1) id_inv_def)
  next
    case (flight cid j)
    have "live_ids cfg s' = add_mset (job_id_dispenser (hs s)) (live_ids cfg s)"
      by (simp add: arrive(1) flight live_ids_def)
    then show ?thesis
      using assms(2) ext by (simp add: arrive(1) flight(1) id_inv_def)
  qed
next
  case (pop t c cid h)
  then show ?thesis
    using assms(2-4)
    by (cases "jobs (hs s)") (auto simp: handler_ops frame_id_def intro!: id_inv_worker [where c = c])
next
  case (lock xs c cid j ys q)
  have "live_ids cfg s' = live_ids cfg s"
    using lock by (simp add: live_ids_def handler_ops pq_push_def)
  then show ?thesis using lock(1) by (intro id_inv_smaller [OF assms(2)]) simp_all
next
  case (lock_full xs c cid j ys what q)
  then have "live_ids cfg s' \<subseteq># live_ids cfg s"
    by (simp add: live_ids_def handler_ops)
  then show ?thesis using lock_full(1) by (intro id_inv_smaller [OF assms(2)]) simp_all
next
  case (post xs c cid ys)
  then have "live_ids cfg s' = live_ids cfg s" by (simp add: live_ids_def)
  then show ?thesis using post(1) by (intro id_inv_smaller [OF assms(2)]) simp_all
next
  case (take_task t c cid rest)
  then have "live_ids cfg s' = live_ids cfg s"
    using pool_sum_upd [of t cfg "frame_id (locals (hs s))" "workers s" "Begun c cid"]
    by (simp add: live_ids_def frame_id_def)
  then show ?thesis using take_task(1) by (intro id_inv_smaller [OF assms(2)]) simp_all
next
  case (list_queue h)
  then have "live_ids cfg s' = live_ids cfg s" by (auto simp: live_ids_def handler_ops)
  then show ?thesis using list_queue by (intro id_inv_smaller [OF assms(2)]) (auto simp: handler_ops)
next
  case (reply_at_once text_l)
  then have "live_ids cfg s' = live_ids cfg s" by (simp add: live_ids_def)
  then show ?thesis using reply_at_once by (intro id_inv_smaller [OF assms(2)]) simp_all
next
  case delete_queue
  then have "live_ids cfg s' \<subseteq># live_ids cfg s"
    by (simp add: live_ids_def handle_queue_delete_request_def)
  then show ?thesis
    using delete_queue by (intro id_inv_smaller [OF assms(2)]) (simp_all add: handle_queue_delete_request_def)
next
  case (acquire t c cid i h)
  then show ?thesis using assms(3,4)
    by (auto simp: scan_Inr frame_id_def intro!: id_inv_worker [OF assms(2), where c = c])
next
  case (no_device t c cid what h)
  then show ?thesis using assms(3,4) scan_Inl [OF no_device(3)]
    by (auto simp: frame_id_def intro!: id_inv_worker [OF assms(2), where c = c])
next
  case (throw t c cid i j rd what)
  then show ?thesis using assms(3,4)
    by (auto simp: frame_id_def intro!: id_inv_worker [OF assms(2), where c = c])
next
  case (no_jobs t c cid h)
  then show ?thesis using assms(3,4)
    by (auto simp: handler_ops worker_no_jobs_def frame_id_def intro!: id_inv_worker [OF assms(2), where c = c])
next
  case (start t c cid i now h)
  then show ?thesis using assms(3,4)
    by (auto simp: handler_ops frame_id_def job_start_def intro!: id_inv_worker [OF assms(2), where c = c])
next
  case (answer t c cid i j rd mr h)
  then show ?thesis using assms(3,4)
    by (auto simp: handler_ops frame_id_def intro!: id_inv_worker [OF assms(2), where c = c])
next
  case (release t c cid i now h)
  then show ?thesis using assms(3,4)
    by (auto simp: handler_ops frame_id_def job_stop_def intro!: id_inv_worker [OF assms(2), where c = c])
next
  case (finish t c cid h)
  then show ?thesis using assms(3,4)
    by (auto simp: handler_ops frame_id_def intro!: id_inv_worker [OF assms(2), where c = c])
qed

lemma next_request_mono: "sys_step fails withdraws E cfg s s' \<Longrightarrow> next_request s \<le> next_request s'"
proof (induction rule: sys_step.induct)
  case (arrive body s)
  then show ?case by (cases rule: arrive_cases [of E cfg body s]) simp_all
qed simp_all

lemma reachable_id_inv:
  assumes "reachable fails withdraws E cfg s" and "next_request s + 2 < 2 ^ 32"
  shows "id_inv cfg s"
  using assms
proof (rule sys_runs.bounded_invariant_holds)
  fix s s' assume step: "reachable fails withdraws E cfg s" "sys_step fails withdraws E cfg s s'" "id_inv cfg s"
    and bound: "next_request s' + 2 < 2 ^ 32"
  then show "id_inv cfg s'"
    using next_request_mono [OF step(2)] reachable_sys_inv [OF step(1)] reachable_queue_inv [OF step(1)]
    by (intro id_inv_step [OF step(2)]) (simp_all add: sys_inv_def queue_inv_def)
next
  fix s s' assume "sys_step fails withdraws E cfg s s'" "next_request s' + 2 < 2 ^ 32"
  then show "next_request s + 2 < 2 ^ 32" using next_request_mono by fastforce
qed (simp add: id_inv_def live_ids_def sys_init_def handler_ctor_def pool_sum_def frame_id_def job_id_dispenser_init_def)

lemma ids_differ:
  assumes "id_inv cfg s" and "pool_ok cfg s" and "pc_job (workers s t) = Some a" and "pc_job (workers s u) = Some b"
    and "a \<noteq> b" and "locals (hs s) a = Some j" and "locals (hs s) b = Some k"
  shows "job_id j \<noteq> job_id k"
proof
  assume same: "job_id j = job_id k"
  let ?f = "frame_id (locals (hs s))" and ?D = "{x. x < job_id_dispenser (hs s)}"
  have "t \<noteq> u" using assms(3-5) by auto
  moreover have "t < length (devices cfg)" "u < length (devices cfg)"
    using assms(2-4) by (force simp: pool_ok_def)+
  ultimately have two: "?f (workers s t) + ?f (workers s u) \<subseteq># pool_sum cfg ?f (workers s)"
    by (rule pool_sum_two)
  have "?f (workers s t) + ?f (workers s u) = {#job_id k, job_id k#}"
    using assms(3,4,6,7) same by (simp add: frame_id_def)
  then have "{#job_id k, job_id k#} \<subseteq># pool_sum cfg ?f (workers s)" using two by simp
  moreover have "pool_sum cfg ?f (workers s) \<subseteq># live_ids cfg s" by (simp add: live_ids_def)
  moreover have "live_ids cfg s \<subseteq># mset_set ?D" using assms(1) by (simp add: id_inv_def)
  ultimately have "{#job_id k, job_id k#} \<subseteq># mset_set ?D" by (meson subset_mset.order_trans)
  then have "count {#job_id k, job_id k#} (job_id k) \<le> count (mset_set ?D) (job_id k)" by (rule mset_subset_eq_count)
  then show False by (simp add: count_mset_set' split: if_splits)
qed

section \<open>The active jobs\<close>

definition listed :: "sys \<Rightarrow> nat set" where
  "listed s = {c. \<exists>t. pc_listed (workers s t) = Some c}"

definition key_order :: "(nat \<rightharpoonup> job) \<Rightarrow> nat \<Rightarrow> nat \<Rightarrow> bool" where
  "key_order m a b \<longleftrightarrow> comparator (the (m a)) (the (m b))"

definition active_inv :: "sys \<Rightarrow> bool" where
  "active_inv s \<longleftrightarrow> set (active_jobs (hs s)) = listed s
     \<and> sorted_wrt (key_order (locals (hs s))) (active_jobs (hs s))"

definition same_key :: "job \<Rightarrow> job \<Rightarrow> bool" where
  "same_key j k \<longleftrightarrow> priority j = priority k \<and> job_id j = job_id k"

lemma key_order_same:
  "same_key (the (m a)) (the (m' a)) \<Longrightarrow> same_key (the (m b)) (the (m' b)) \<Longrightarrow> key_order m a b = key_order m' a b"
  by (simp add: key_order_def comparator_def same_key_def)

lemma listed_worker: "listed (set_worker t pc h s) = set_option (pc_listed pc) \<union> {c. \<exists>u. u \<noteq> t \<and> pc_listed (workers s u) = Some c}"
  by (auto simp: listed_def)

lemma active_inv_same:
  "active_inv s \<Longrightarrow> workers s' = workers s \<Longrightarrow> active_jobs (hs s') = active_jobs (hs s) \<Longrightarrow>
   locals (hs s') = locals (hs s) \<Longrightarrow> active_inv s'"
  by (simp add: active_inv_def listed_def)

lemma active_inv_worker:
  assumes "active_inv s" and "active_jobs h = active_jobs (hs s)" and "pc_listed pc = pc_listed (workers s t)"
    and "\<And>a. a \<in> listed s \<Longrightarrow> same_key (the (locals (hs s) a)) (the (locals h a))"
  shows "active_inv (set_worker t pc h s)"
proof -
  have "pc_listed (((workers s)(t := pc)) u) = pc_listed (workers s u)" for u using assms(3) by simp
  then have "listed (set_worker t pc h s) = listed s" by (simp add: listed_def)
  moreover have "sorted_wrt (key_order (locals h)) (active_jobs (hs s))"
  proof (rule sorted_wrt_mono_rel [of _ "key_order (locals (hs s))"])
    show "sorted_wrt (key_order (locals (hs s))) (active_jobs (hs s))" using assms(1) by (simp add: active_inv_def)
    show "key_order (locals h) a b"
      if "a \<in> set (active_jobs (hs s))" "b \<in> set (active_jobs (hs s))" "key_order (locals (hs s)) a b" for a b
      using that assms(1,4) key_order_same by (metis active_inv_def)
  qed
  ultimately show ?thesis using assms(1,2) by (simp add: active_inv_def)
qed

text \<open>A request whose thread is not between inserting and erasing is not listed.\<close>

lemma not_listed:
  assumes "pool_ok cfg s" and "present_inv cfg s" and "pc_client (workers s t) = {#c#}" and "pc_listed (workers s t) = None"
  shows "c \<notin> listed s"
proof
  assume "c \<in> listed s"
  then obtain u where u: "pc_listed (workers s u) = Some c" by (auto simp: listed_def)
  then have "pc_client (workers s u) = {#c#}" using pc_listed_job pc_job_client by blast
  then have "t = u" using one_client [OF assms(1-3)] by blast
  then show False using assms(4) u by simp
qed

lemma follow_pairs: "follow m as = Some ys \<Longrightarrow> ys = map (\<lambda>a. (a, the (m a))) as"
  by (induction as arbitrary: ys) (auto split: option.splits)

abbreviation pair_order :: "nat \<times> job \<Rightarrow> nat \<times> job \<Rightarrow> bool" where
  "pair_order a b \<equiv> comparator (snd a) (snd b)"

lemma set_insert_all:
  assumes "\<forall>y \<in> set ys. pair_order x y \<or> pair_order y x" and "sorted_wrt pair_order ys"
  shows "set (set_insert x ys) = insert x (set ys) \<and> sorted_wrt pair_order (set_insert x ys)"
  using assms
proof (induction ys)
  case (Cons y ys)
  show ?case
  proof (cases "pair_order x y")
    case True
    then show ?thesis using Cons.prems comparator_trans by fastforce
  next
    case False
    then have "pair_order y x" using Cons.prems by simp
    then show ?thesis using False Cons by auto
  qed
qed simp

lemma sorted_pairs:
  assumes "sorted_wrt pair_order zs" and "\<forall>z \<in> set zs. m (fst z) = Some (snd z)"
  shows "sorted_wrt (key_order m) (map fst zs)"
  unfolding sorted_wrt_map
  by (rule sorted_wrt_mono_rel [OF _ assms(1)]) (use assms(2) in \<open>simp add: key_order_def\<close>)

lemma active_inv_start:
  assumes inv: "active_inv s" "id_inv cfg s" "pool_ok cfg s" "present_inv cfg s" "ref_inv False s"
    and pc: "workers s t = Acquired c cid i" and h: "worker_start now c (hs s) = Some h"
  shows "active_inv (set_worker t (Active c cid i) h s)"
proof -
  let ?m = "locals (hs s)" and ?as = "active_jobs (hs s)"
  obtain j ys where j: "?m c = Some j" and ys: "follow (?m(c \<mapsto> job_start now j)) ?as = Some ys"
    and h': "h = (hs s)\<lparr>locals := ?m(c \<mapsto> job_start now j), active_jobs := map fst (set_insert (c, job_start now j) ys)\<rparr>"
    using h by (auto simp: handler_ops)
  let ?m' = "?m(c \<mapsto> job_start now j)"
  have c: "c \<notin> listed s" by (rule not_listed [OF inv(3,4), of t]) (simp_all add: pc)
  have as: "set ?as = listed s" "sorted_wrt (key_order ?m) ?as" using inv(1) by (simp_all add: active_inv_def)
  have pairs: "ys = map (\<lambda>a. (a, the (?m' a))) ?as" by (rule follow_pairs [OF ys])
  have same: "the (?m' a) = the (?m a)" if "a \<in> set ?as" for a using that c as(1) by auto
  have sorted: "sorted_wrt pair_order ys"
    unfolding pairs sorted_wrt_map snd_conv
    by (rule sorted_wrt_mono_rel [OF _ as(2)]) (simp only: same key_order_def)
  have differ: "pair_order (c, job_start now j) y \<or> pair_order y (c, job_start now j)" if y: "y \<in> set ys" for y
  proof -
    obtain a where a: "a \<in> set ?as" "y = (a, the (?m' a))" using y pairs by auto
    then obtain u where u: "pc_listed (workers s u) = Some a" using as(1) by (auto simp: listed_def)
    then have job: "pc_job (workers s u) = Some a" by (rule pc_listed_job)
    then obtain k where k: "?m a = Some k" using ref_inv_local [OF inv(5)] by blast
    have "a \<noteq> c" using a(1) c as(1) by blast
    then have "job_id k \<noteq> job_id j" using ids_differ [OF inv(2,3) job _ _ k j, of t] pc by simp
    then show ?thesis using a k \<open>a \<noteq> c\<close> comparator_total [of "job_start now j" k] by (simp add: job_start_def)
  qed
  have ins: "set (set_insert (c, job_start now j) ys) = insert (c, job_start now j) (set ys)
      \<and> sorted_wrt pair_order (set_insert (c, job_start now j) ys)"
    using differ by (intro set_insert_all sorted) blast
  have "\<forall>z \<in> set (set_insert (c, job_start now j) ys). ?m' (fst z) = Some (snd z)"
    using ins follow_Some [OF ys] by simp
  then have "sorted_wrt (key_order ?m') (map fst (set_insert (c, job_start now j) ys))"
    using ins by (intro sorted_pairs) blast+
  moreover have "set (map fst (set_insert (c, job_start now j) ys)) = insert c (set ?as)"
    using ins pairs by (auto simp: image_image)
  moreover have "listed (set_worker t (Active c cid i) h s) = insert c (listed s)"
  proof -
    have "u \<noteq> t" if "pc_listed (workers s u) = Some a" for u a using that pc by auto
    then show ?thesis unfolding listed_worker by (auto simp: listed_def)
  qed
  ultimately show ?thesis using as(1) by (simp add: active_inv_def h')
qed

lemma active_inv_finish:
  assumes inv: "active_inv s" "id_inv cfg s" "pool_ok cfg s" "present_inv cfg s" "ref_inv False s"
    and pc: "workers s t = Released c cid" and h: "worker_finish c (hs s) = Some h"
  shows "active_inv (set_worker t Idle h s)"
proof -
  let ?m = "locals (hs s)" and ?as = "active_jobs (hs s)"
  obtain j ys where j: "?m c = Some j" and ys: "follow ?m ?as = Some ys"
    and h': "h = (hs s)\<lparr>locals := ?m(c := None), active_jobs := map fst (set_erase j ys),
      completed_jobs := circular_push j (completed_jobs (hs s))\<rparr>"
    using h by (auto simp: handler_ops)
  have as: "set ?as = listed s" "sorted_wrt (key_order ?m) ?as" using inv(1) by (simp_all add: active_inv_def)
  have pairs: "ys = map (\<lambda>a. (a, the (?m a))) ?as" by (rule follow_pairs [OF ys])
  have sorted: "sorted_wrt pair_order ys"
    unfolding pairs sorted_wrt_map snd_conv
    by (rule sorted_wrt_mono_rel [OF _ as(2)]) (simp add: key_order_def)
  have keep: "comparator j (the (?m a)) \<or> comparator (the (?m a)) j" if a: "a \<in> set ?as" "a \<noteq> c" for a
  proof -
    obtain u where u: "pc_listed (workers s u) = Some a" using a as(1) by (auto simp: listed_def)
    then have job: "pc_job (workers s u) = Some a" by (rule pc_listed_job)
    then obtain k where k: "?m a = Some k" using ref_inv_local [OF inv(5)] by blast
    then have "job_id k \<noteq> job_id j" using ids_differ [OF inv(2,3) job _ a(2) k j, of t] pc by simp
    then show ?thesis using k comparator_total by auto
  qed
  have erase: "map fst (set_erase j ys) = filter (\<lambda>a. a \<noteq> c) ?as"
    unfolding pairs set_erase_def filter_map comp_def map_map fst_conv snd_conv map_ident
    by (rule filter_cong) (use keep j in auto)
  have "sorted_wrt (key_order (?m(c := None))) (filter (\<lambda>a. a \<noteq> c) ?as)"
    by (rule sorted_wrt_mono_rel [OF _ sorted_wrt_filter [OF as(2)]]) (simp add: key_order_def)
  moreover have "listed (set_worker t Idle h s) = listed s - {c}"
  proof -
    have "u = t" if "pc_listed (workers s u) = Some c" for u
      using that one_client [OF inv(3,4), of u c t] pc pc_listed_job pc_job_client by simp
    then show ?thesis unfolding listed_worker using pc by (auto simp: listed_def) (metis option.inject pc_listed.simps(3))
  qed
  ultimately show ?thesis using as(1) by (auto simp: active_inv_def h' erase)
qed

lemma same_key_refl [simp]: "same_key j j"
  by (simp add: same_key_def)

lemma active_inv_step:
  assumes "sys_step False withdraws E cfg s s'" and inv: "active_inv s" "id_inv cfg s" "sys_inv False cfg s"
  shows "active_inv s'"
proof -
  have parts: "pool_ok cfg s" "present_inv cfg s" "ref_inv False s" using inv(3) by (simp_all add: sys_inv_def)
  from assms(1) show ?thesis
  proof cases
    case (arrive body)
    then show ?thesis
      by (cases rule: arrive_cases [of E cfg body s]) (auto intro: active_inv_same [OF inv(1)])
  next
    case (list_queue h)
    then show ?thesis by (auto simp: handler_ops intro: active_inv_same [OF inv(1)])
  next
    case (reply_at_once text_l)
    then show ?thesis by (auto intro: active_inv_same [OF inv(1)])
  next
    case delete_queue
    then show ?thesis by (auto simp: handle_queue_delete_request_def intro: active_inv_same [OF inv(1)])
  next
    case (lock xs c cid j ys q)
    then show ?thesis by (auto intro: active_inv_same [OF inv(1)])
  next
    case (lock_full xs c cid j ys what q)
    then show ?thesis by (auto intro: active_inv_same [OF inv(1)])
  next
    case (post xs c cid ys)
    then show ?thesis by (auto intro: active_inv_same [OF inv(1)])
  next
    case (take_task t c cid rest)
    have "active_inv (set_worker t (Begun c cid) (hs s) s)"
      by (rule active_inv_worker [OF inv(1)]) (simp_all add: take_task)
    then show ?thesis by (simp add: take_task(1) active_inv_def listed_def)
  next
    case (pop t c cid h)
    have "c \<notin> listed s" by (rule not_listed [OF parts(1,2), of t]) (simp_all add: pop(2))
    then show ?thesis
      using pop by (auto simp: handler_ops intro!: active_inv_worker [OF inv(1)])
  next
    case (no_jobs t c cid h)
    then show ?thesis by (auto simp: handler_ops worker_no_jobs_def intro!: active_inv_worker [OF inv(1)])
  next
    case (acquire t c cid i h)
    then show ?thesis by (auto simp: scan_Inr intro!: active_inv_worker [OF inv(1)])
  next
    case (no_device t c cid what h)
    then show ?thesis
      using device_available [OF _ parts(1) no_device(2)] scan_Inl [OF no_device(3)] inv(3)
      by (simp add: sys_inv_def)
  next
    case (start t c cid i now h)
    show ?thesis unfolding start(1) by (rule active_inv_start [OF inv(1,2) parts start(2,3)])
  next
    case (answer t c cid i j rd mr h)
    then show ?thesis
      by (auto simp: handler_ops same_key_def intro!: active_inv_worker [OF inv(1)])
  next
    case (release t c cid i now h)
    then show ?thesis
      by (auto simp: handler_ops same_key_def job_stop_def intro!: active_inv_worker [OF inv(1)])
  next
    case (finish t c cid h)
    show ?thesis unfolding finish(1) by (rule active_inv_finish [OF inv(1,2) parts finish(2,3)])
  qed simp
qed

lemma reachable_active_inv:
  assumes "reachable False withdraws E cfg s" and "next_request s + 2 < 2 ^ 32"
  shows "active_inv s"
  using assms
proof (rule sys_runs.bounded_invariant_holds)
  fix s s' assume step: "reachable False withdraws E cfg s" "sys_step False withdraws E cfg s s'" "active_inv s"
    and bound: "next_request s' + 2 < 2 ^ 32"
  then show "active_inv s'"
    using next_request_mono [OF step(2)] reachable_id_inv [OF step(1)] reachable_sys_inv [OF step(1)]
    by (intro active_inv_step [OF step(2)]) simp_all
next
  fix s s' assume "sys_step False withdraws E cfg s s'" "next_request s' + 2 < 2 ^ 32"
  then show "next_request s + 2 < 2 ^ 32" using next_request_mono by fastforce
qed (simp add: active_inv_def listed_def sys_init_def handler_ctor_def)

lemma distinct_sorted_wrt: "sorted_wrt R xs \<Longrightarrow> (\<And>x. \<not> R x x) \<Longrightarrow> distinct xs"
  by (induction xs) auto

section \<open>Property\<close>

text \<open>
  C12: the queue listing shows what the server is doing. While nothing throws and the ids of the jobs
  do not wrap around, listing succeeds at any time: the active jobs are exactly those that a thread has
  started and not yet ended, one entry each, behind the pending jobs in the order in which they will be
  served and the jobs that have ended.
\<close>

theorem listing_shows_work:
  assumes "reachable False withdraws E cfg s" and "next_request s < 2 ^ 32 - 2"
  shows "\<exists>response active. queue_response E (hs s) = Some response
    \<and> distinct (map fst active) \<and> (\<forall>(c, j) \<in> set active. locals (hs s) c = Some j)
    \<and> fst ` set active = {c. \<exists>t. pc_listed (workers s t) = Some c}
    \<and> map_of response ''active'' = Some (JArray (map (populate_json E \<circ> snd) active))
    \<and> map_of response ''queued'' = Some (JArray (map (populate_json E) (jobs (hs s))))
    \<and> map_of response ''completed'' = Some (JArray (map (populate_json E) (completed_jobs (hs s))))"
proof -
  have inv: "active_inv s" using reachable_active_inv [OF assms(1)] assms(2) by simp
  obtain ys where ys: "follow (locals (hs s)) (active_jobs (hs s)) = Some ys"
    using references_valid [OF reachable_sys_inv [OF assms(1)]] by blast
  have "queue_response E (hs s) \<noteq> None" using ys by (simp add: queue_response_def)
  then obtain response where response: "queue_response E (hs s) = Some response" by blast
  obtain active where active: "map fst active = active_jobs (hs s)" "\<forall>a \<in> set active. locals (hs s) (fst a) = Some (snd a)"
      "map_of response ''active'' = Some (JArray (map (populate_json E \<circ> snd) active))"
    and rest: "map_of response ''queued'' = Some (JArray (map (populate_json E) (jobs (hs s))))"
      "map_of response ''completed'' = Some (JArray (map (populate_json E) (completed_jobs (hs s))))"
    using queue_listing [OF response] by blast
  have "distinct (active_jobs (hs s))"
  proof (rule distinct_sorted_wrt)
    show "sorted_wrt (key_order (locals (hs s))) (active_jobs (hs s))" using inv by (simp add: active_inv_def)
  qed (simp add: key_order_def)
  then have "distinct (map fst active)" by (simp only: active(1))
  moreover have "set (map fst active) = listed s"
    using inv unfolding active(1) by (simp add: active_inv_def)
  then have "fst ` set active = {c. \<exists>t. pc_listed (workers s t) = Some c}" by (simp add: listed_def)
  moreover have "\<forall>(c, j) \<in> set active. locals (hs s) c = Some j" using active(2) by auto
  ultimately show ?thesis
    by (intro exI [of _ response] exI [of _ active] conjI response active(3) rest)
qed

theorem listing_shows_work_witness:
  "\<exists>response active. queue_response run_env (hs one_served) = Some response \<and> fst ` set active = {0 :: nat}
    \<and> map_of response ''active'' = Some (JArray (map (populate_json run_env \<circ> snd) active))"
proof -
  have next_l: "next_request one_served < 2 ^ 32 - 2" by (simp add: one_served_def both_posted_def)
  have "{c. \<exists>t. pc_listed (workers one_served t) = Some c} = {0}" by (auto simp: one_served_def)
  note one = this
  obtain response active where "queue_response run_env (hs one_served) = Some response"
      "fst ` set active = {c. \<exists>t. pc_listed (workers one_served t) = Some c}"
      "map_of response ''active'' = Some (JArray (map (populate_json run_env \<circ> snd) active))"
    using listing_shows_work [OF one_served_reachable next_l] by blast
  then show ?thesis unfolding one by (intro exI [of _ response] exI [of _ active] conjI)
qed

end
