(* ===== verification/Shutdown.thy ===== *)
theory Shutdown
  imports Runs
begin

text \<open>
  The end of the work server. When a signal has stopped the I/O threads, \<open>main\<close> returns from
  \<open>webserver::start\<close> and destroys its local variables, among them the \<open>work_handler\<close>. Its destructor
  (\<open>src/workserver/work_handler.cpp\<close>) stops the pool without waiting for its threads; then the members are
  destroyed in the reverse of the order in which \<open>src/workserver/work_handler.hpp\<close> declares them.
  The threads of the pool go on with the handlers they are in until the pool itself is destroyed.
  (\<open>main\<close> destroys the web server first; what becomes of the callbacks that hold its sessions is not
  modelled.)
\<close>

section \<open>The members\<close>

datatype handler_member = M_devices | M_config | M_logger | M_pool | M_jobs_mutex | M_jobs
  | M_active_mutex | M_active_jobs | M_completed_mutex | M_completed_jobs

definition declared_members :: "handler_member list" where
  "declared_members = [M_devices, M_config, M_logger, M_pool, M_jobs_mutex, M_jobs,
     M_active_mutex, M_active_jobs, M_completed_mutex, M_completed_jobs]"

definition destruction_order :: "handler_member list" where
  "destruction_order = rev declared_members"

text \<open>The members that a thread uses in its next step.\<close>

fun touches :: "worker_pc \<Rightarrow> handler_member list" where
  "touches Idle = []"
| "touches (Begun _ _) = [M_jobs_mutex, M_jobs]"
| "touches (Popped _ _) = [M_devices, M_logger]"
| "touches (Acquired _ _ _) = [M_active_mutex, M_active_jobs]"
| "touches (Active _ _ _) = [M_config, M_logger]"
| "touches (Answered _ _ _) = [M_devices]"
| "touches (Released _ _) = [M_active_mutex, M_completed_mutex, M_active_jobs, M_completed_jobs, M_logger]"

section \<open>The destructor\<close>

text \<open>
  \<open>destroyed\<close> counts the members that are gone; \<open>dangling\<close> is that a thread has used one of them. The pool
  has been stopped, so its threads begin no further handler.
\<close>

record teardown =
  of_server :: sys
  destroyed :: nat
  dangling :: bool

definition pool_stop :: "sys \<Rightarrow> teardown" where
  "pool_stop s = \<lparr>of_server = s, destroyed = 0, dangling = False\<rparr>"

definition gone :: "teardown \<Rightarrow> handler_member list" where
  "gone z = take (destroyed z) destruction_order"

definition all_idle :: "sys \<Rightarrow> bool" where
  "all_idle s \<longleftrightarrow> (\<forall>t. workers s t = Idle)"

text \<open>
  The destructor of the pool joins the threads, so it ends when they are idle. With the switch \<open>joins\<close> the
  destructor of \<open>work_handler\<close> does so before anything is destroyed; the code does not.
\<close>

inductive teardown_step :: "bool \<Rightarrow> ('p, 'f) env \<Rightarrow> config \<Rightarrow> teardown \<Rightarrow> teardown \<Rightarrow> bool" for joins E cfg where
  thread_goes_on: "workers (of_server z) t \<noteq> Idle \<Longrightarrow> set (touches (workers (of_server z) t)) \<inter> set (gone z) = {} \<Longrightarrow>
    internal_step False True E cfg (of_server z) s' \<Longrightarrow> workers s' t \<noteq> workers (of_server z) t \<Longrightarrow>
    teardown_step joins E cfg z (z\<lparr>of_server := s'\<rparr>)"
| thread_dangles: "set (touches (workers (of_server z) t)) \<inter> set (gone z) \<noteq> {} \<Longrightarrow>
    teardown_step joins E cfg z (z\<lparr>dangling := True\<rparr>)"
| destroy: "destroyed z < length destruction_order \<Longrightarrow>
    joins \<or> destruction_order ! destroyed z = M_pool \<longrightarrow> all_idle (of_server z) \<Longrightarrow>
    teardown_step joins E cfg z (z\<lparr>destroyed := Suc (destroyed z)\<rparr>)"

inductive_cases teardown_stepE: "teardown_step joins E cfg z z'"

abbreviation teardown_run :: "bool \<Rightarrow> ('p, 'f) env \<Rightarrow> config \<Rightarrow> teardown \<Rightarrow> teardown \<Rightarrow> bool" where
  "teardown_run joins E cfg \<equiv> (teardown_step joins E cfg)\<^sup>*\<^sup>*"

lemma order_simps [simp]:
  "destruction_order = [M_completed_jobs, M_completed_mutex, M_active_jobs, M_active_mutex, M_jobs, M_jobs_mutex,
     M_pool, M_logger, M_config, M_devices]"
  by (simp add: destruction_order_def declared_members_def)

section \<open>Safe ends\<close>

text \<open>Nothing dangles and nothing is gone while a thread works: kept when destruction waits for idle threads.\<close>

definition calm :: "teardown \<Rightarrow> bool" where
  "calm z \<longleftrightarrow> \<not> dangling z \<and> (destroyed z \<noteq> 0 \<longrightarrow> all_idle (of_server z))"

lemma idle_untouched: "all_idle s \<Longrightarrow> touches (workers s t) = []"
  by (simp add: all_idle_def)

lemma calm_step:
  assumes "teardown_step joins E cfg z z'" and "joins \<or> all_idle (of_server z)" and "calm z"
  shows "calm z' \<and> (joins \<or> all_idle (of_server z'))"
  using assms(1)
proof cases
  case (thread_goes_on t s')
  then have "\<not> all_idle (of_server z)" by (auto simp: all_idle_def)
  then show ?thesis using thread_goes_on assms(2,3) by (simp add: calm_def)
next
  case (thread_dangles t)
  then have "destroyed z \<noteq> 0" by (auto simp: gone_def)
  then have "all_idle (of_server z)" using assms(3) by (simp add: calm_def)
  then show ?thesis using thread_dangles by (simp add: idle_untouched)
next
  case destroy
  then have "all_idle (of_server z)" using assms(2) by auto
  then show ?thesis using destroy assms(2,3) by (simp add: calm_def)
qed

lemma calm_run:
  "teardown_run joins E cfg z z' \<Longrightarrow> joins \<or> all_idle (of_server z) \<Longrightarrow> calm z \<Longrightarrow>
   calm z' \<and> (joins \<or> all_idle (of_server z'))"
proof (induction rule: rtranclp_induct)
  case (step z1 z2)
  then show ?case using calm_step [OF step(2)] by blast
qed simp

section \<open>Unsafe ends\<close>

text \<open>The six members behind the pool are destroyed without waiting for anyone.\<close>

lemma destroys_behind_pool: "n \<le> 6 \<Longrightarrow> teardown_run False E cfg (pool_stop s) (pool_stop s\<lparr>destroyed := n\<rparr>)"
proof (induction n)
  case 0
  then show ?case by (simp add: pool_stop_def)
next
  case (Suc n)
  then consider "n = 0" | "n = 1" | "n = 2" | "n = 3" | "n = 4" | "n = 5" by linarith
  then have "destruction_order ! n \<noteq> M_pool" by cases simp_all
  then have "teardown_step False E cfg (pool_stop s\<lparr>destroyed := n\<rparr>)
      (pool_stop s\<lparr>destroyed := n\<rparr>\<lparr>destroyed := Suc (destroyed (pool_stop s\<lparr>destroyed := n\<rparr>))\<rparr>)"
    using Suc.prems by (intro destroy) simp_all
  with Suc show ?case by (intro rtranclp.rtrancl_into_rtrancl [OF Suc.IH]) simp_all
qed

text \<open>A thread that works comes to a step that uses one of them.\<close>

lemma thread_meets:
  assumes "env_ok E"
  shows "sys_inv False cfg (of_server z) \<Longrightarrow> workers (of_server z) t \<noteq> Idle \<Longrightarrow> destroyed z = 6 \<Longrightarrow>
    \<exists>z'. teardown_run joins E cfg z z' \<and> dangling z'"
proof (induction "pc_work (workers (of_server z) t)" arbitrary: z rule: less_induct)
  case less
  let ?pc = "workers (of_server z) t"
  have gone: "set (gone z) = {M_completed_jobs, M_completed_mutex, M_active_jobs, M_active_mutex, M_jobs, M_jobs_mutex}"
    using less.prems(3) by (simp add: gone_def numeral_eq_Suc)
  show ?case
  proof (cases "set (touches ?pc) \<inter> set (gone z) = {}")
    case False
    then have "teardown_step joins E cfg z (z\<lparr>dangling := True\<rparr>)" by (rule thread_dangles)
    then show ?thesis by (intro exI [of _ "z\<lparr>dangling := True\<rparr>"]) (simp add: r_into_rtranclp)
  next
    case True
    then have "pc_work ?pc \<notin> {1, 6}" using gone by (cases ?pc) auto
    then obtain s' where s': "internal_step False True E cfg (of_server z) s'"
        "pc_work (workers s' t) < pc_work ?pc" "workers s' t \<noteq> Idle"
      using thread_can_step [OF less.prems(1) assms less.prems(2), of True] by blast
    then have step: "teardown_step joins E cfg z (z\<lparr>of_server := s'\<rparr>)"
      using less.prems(2) True by (intro thread_goes_on [of z t]) auto
    have "sys_inv False cfg s'" using sys_inv_step less.prems(1) s'(1) by (auto simp: internal_step_def)
    then obtain z' where "teardown_run joins E cfg (z\<lparr>of_server := s'\<rparr>) z'" "dangling z'"
      using less.hyps [of "z\<lparr>of_server := s'\<rparr>"] s'(2,3) less.prems(3) by auto
    then show ?thesis using step converse_rtranclp_into_rtranclp by metis
  qed
qed

section \<open>Properties\<close>

text \<open>
  C19: the destructor of \<open>work_handler\<close> is safe exactly when no thread of the pool is in a handler. If one
  is, the mutexes, the queue and the sets of jobs can be destroyed under it, and it goes on to use
  them. If the destructor joined the pool after stopping it, no member would be used after its end.
\<close>

theorem shutdown_safe_iff_idle:
  assumes "env_ok E" and "reachable False withdraws E cfg s"
  shows "((\<exists>z. teardown_run False E cfg (pool_stop s) z \<and> dangling z) \<longleftrightarrow> (\<exists>t. workers s t \<noteq> Idle))
    \<and> \<not> (\<exists>z. teardown_run True E cfg (pool_stop s) z \<and> dangling z)"
proof (intro conjI iffI)
  have calm: "calm (pool_stop s)" by (simp add: calm_def pool_stop_def)
  show "\<not> (\<exists>z. teardown_run True E cfg (pool_stop s) z \<and> dangling z)"
  proof
    assume "\<exists>z. teardown_run True E cfg (pool_stop s) z \<and> dangling z"
    then obtain z where z: "teardown_run True E cfg (pool_stop s) z" "dangling z" by blast
    have "calm z" using calm_run [OF z(1) disjI1 [OF TrueI] calm] by (rule conjunct1)
    then show False using z(2) by (simp add: calm_def)
  qed
  show "\<exists>t. workers s t \<noteq> Idle" if ends: "\<exists>z. teardown_run False E cfg (pool_stop s) z \<and> dangling z"
  proof (rule ccontr)
    assume "\<nexists>t. workers s t \<noteq> Idle"
    then have idle: "all_idle (of_server (pool_stop s))" by (simp add: all_idle_def pool_stop_def)
    obtain z where z: "teardown_run False E cfg (pool_stop s) z" "dangling z" using ends by blast
    have "calm z" using calm_run [OF z(1) disjI2 [OF idle] calm] by (rule conjunct1)
    then show False using z(2) by (simp add: calm_def)
  qed
  assume "\<exists>t. workers s t \<noteq> Idle"
  then obtain t where t: "workers s t \<noteq> Idle" by blast
  let ?z = "pool_stop s\<lparr>destroyed := 6\<rparr>"
  have "sys_inv False cfg (of_server ?z)" using reachable_sys_inv [OF assms(2)] by (simp add: pool_stop_def)
  then obtain z where z: "teardown_run False E cfg ?z z" "dangling z"
    using thread_meets [OF assms(1), of cfg ?z t False] t by (auto simp: pool_stop_def)
  have "teardown_run False E cfg (pool_stop s) ?z" by (rule destroys_behind_pool) simp
  then have "teardown_run False E cfg (pool_stop s) z" using z(1) by (rule rtranclp_trans)
  then show "\<exists>z. teardown_run False E cfg (pool_stop s) z \<and> dangling z" using z(2) by blast
qed

text \<open>The program is ended while the answer of the first request of \<open>Runs\<close> is being worked out.\<close>

theorem shutdown_safe_iff_idle_witness:
  "\<exists>z. teardown_run False run_env run_config (pool_stop one_served) z \<and> dangling z"
proof -
  have "\<exists>t. workers one_served t \<noteq> Idle" by (rule exI [of _ 0]) (simp add: one_served_def)
  then show ?thesis using shutdown_safe_iff_idle [OF run_env_simps(1) one_served_reachable] by blast
qed

end
