(* ===== verification/Callbacks.thy ===== *)
theory Callbacks
  imports Runs
begin

text \<open>
  Exceptions anywhere in the two \<open>try\<close> blocks of \<open>handle_request_async\<close>
  (\<open>src/workserver/work_handler.cpp\<close>), on top of the steps of the theory \<open>System\<close>: in the function
  posted to the pool from the acquisition of the device to the end of the bookkeeping, and in the
  function itself while it takes a lock or calls \<open>response_handler\<close>. Both \<open>catch\<close> clauses call
  \<open>response_handler\<close>, whether or not it has been called already.
\<close>

section \<open>Steps\<close>

text \<open>The thread is in the \<open>try\<close> block of the function posted for a request.\<close>

fun in_try :: "worker_pc \<Rightarrow> (nat \<times> string option) option" where
  "in_try (Popped c cid) = Some (c, cid)"
| "in_try (Acquired c cid _) = Some (c, cid)"
| "in_try (Active c cid _) = Some (c, cid)"
| "in_try (Answered c cid _) = Some (c, cid)"
| "in_try (Released c cid) = Some (c, cid)"
| "in_try _ = None"

text \<open>The requests for which \<open>handle_request_async\<close> calls \<open>response_handler\<close> inside its \<open>try\<close> block.\<close>

fun answered_in_try :: "('p, 'f) env \<Rightarrow> 'p parsed \<Rightarrow> job_queue \<Rightarrow> string option option" where
  "answered_in_try E (Validated cid response) q = Some cid"
| "answered_in_try E (Cancel cid req) q =
     (case fst (work_cancel E cid req q) of Inl what \<Rightarrow> None | Inr response \<Rightarrow> Some cid)"
| "answered_in_try E _ q = None"

text \<open>
  A step of the server, or, with \<open>throws\<close>, an exception: in the \<open>try\<close> block of a thread of the pool, of
  a request that is about to queue its job, or of a request that is answered at once. In the last case
  \<open>heard\<close> says whether the answer was given before the exception; in a thread this is the difference
  between \<open>Active\<close> and \<open>Answered\<close>.
\<close>

inductive callback_step ::
  "bool \<Rightarrow> bool \<Rightarrow> bool \<Rightarrow> ('p, 'f) env \<Rightarrow> config \<Rightarrow> sys \<Rightarrow> sys \<Rightarrow> bool"
  for throws fails withdraws E cfg where
  plain: "sys_step fails withdraws E cfg s s' \<Longrightarrow> callback_step throws fails withdraws E cfg s s'"
| thread_throws: "throws \<Longrightarrow> in_try (workers s t) = Some (c, cid) \<Longrightarrow>
    callback_step throws fails withdraws E cfg s (set_worker t Idle (worker_catch E c cid what (hs s)) s)"
| lock_throws: "throws \<Longrightarrow> flights s = xs @ (c, Locking cid j) # ys \<Longrightarrow>
    callback_step throws fails withdraws E cfg s
      (s\<lparr>hs := respond c (create_error_response E cid what) (hs s), flights := xs @ ys\<rparr>)"
| reply_throws: "throws \<Longrightarrow> withdraws \<or> \<not> is_cancel E cfg body s \<Longrightarrow>
    answered_in_try E (fst (parse_request E cfg body (job_id_dispenser (hs s)))) (jobs (hs s)) = Some cid \<Longrightarrow>
    s' = handle_request_async E cfg body s \<Longrightarrow>
    callback_step throws fails withdraws E cfg s
      (s'\<lparr>hs := respond (next_request s) (create_error_response E cid what)
               (if heard then hs s' else (hs s')\<lparr>answers := answers (hs s)\<rparr>)\<rparr>)"

inductive callback_reachable ::
  "bool \<Rightarrow> bool \<Rightarrow> bool \<Rightarrow> ('p, 'f) env \<Rightarrow> config \<Rightarrow> sys \<Rightarrow> bool"
  for throws fails withdraws E cfg where
  callback_init: "callback_reachable throws fails withdraws E cfg (sys_init cfg)"
| callback_next: "callback_reachable throws fails withdraws E cfg s \<Longrightarrow>
    callback_step throws fails withdraws E cfg s s' \<Longrightarrow> callback_reachable throws fails withdraws E cfg s'"

interpretation callback_runs: transitions "\<lambda>s. s = sys_init cfg" "callback_step throws fails withdraws E cfg"
    "callback_reachable throws fails withdraws E cfg"
  for throws fails withdraws E cfg
proof unfold_locales
  show "P s" if "callback_reachable throws fails withdraws E cfg s" "\<And>s. s = sys_init cfg \<Longrightarrow> P s"
    "\<And>s s'. callback_reachable throws fails withdraws E cfg s \<Longrightarrow> P s \<Longrightarrow>
       callback_step throws fails withdraws E cfg s s' \<Longrightarrow> P s'" for P s
    using that(1) by (induction rule: callback_reachable.induct) (use that(2,3) in blast)+
qed (auto intro: callback_reachable.intros)

text \<open>Without the switch these are the steps of the theory \<open>System\<close>; and its runs are runs here.\<close>

lemma callback_reachable_plain:
  assumes "callback_reachable False fails withdraws E cfg s"
  shows "reachable fails withdraws E cfg s"
  using assms
proof (induction rule: callback_runs.reach_induct)
  case (by_step s s')
  from \<open>callback_step False fails withdraws E cfg s s'\<close> have "sys_step fails withdraws E cfg s s'"
    by cases simp_all
  with by_step.IH show ?case by (rule reachable.step)
qed (simp add: reachable.init)

lemma reachable_callback:
  "reachable fails withdraws E cfg s \<Longrightarrow> callback_reachable throws fails withdraws E cfg s"
  by (induction rule: sys_runs.reach_induct) (auto intro: callback_reachable.intros plain)

lemma answered_in_try_flights:
  "answered_in_try E (fst (parse_request E cfg body (job_id_dispenser (hs s)))) q = Some cid \<Longrightarrow>
   flights (handle_request_async E cfg body s) = flights s"
  by (cases "parse_request E cfg body (job_id_dispenser (hs s))"; cases "fst (parse_request E cfg body (job_id_dispenser (hs s)))")
    (simp_all add: handle_request_async_def Let_def)

section \<open>Two calls per request\<close>

text \<open>The calls of \<open>response_handler\<close> that a request has had or may still have.\<close>

fun pc_due :: "worker_pc \<Rightarrow> nat multiset" where
  "pc_due (Begun c _) = {#c, c#}"
| "pc_due (Popped c _) = {#c, c#}"
| "pc_due (Acquired c _ _) = {#c, c#}"
| "pc_due (Active c _ _) = {#c, c#}"
| "pc_due (Answered c _ _) = {#c#}"
| "pc_due (Released c _) = {#c#}"
| "pc_due Idle = {#}"

definition calls :: "config \<Rightarrow> sys \<Rightarrow> nat multiset" where
  "calls cfg s = mset (map fst (answers (hs s))) + (mset (map fst (flights s)) + mset (map fst (flights s)))
     + (mset (map fst (posted s)) + mset (map fst (posted s))) + pool_sum cfg pc_due (workers s)"

definition calls_ok :: "config \<Rightarrow> sys \<Rightarrow> bool" where
  "calls_ok cfg s \<longleftrightarrow> calls cfg s \<subseteq># mset [0..<next_request s] + mset [0..<next_request s]"

lemma sum_shrinks:
  fixes a a' b b' :: "'a multiset"
  assumes "b' + y = b + x" and "a' + x \<subseteq># a + y"
  shows "a' + f + b' \<subseteq># a + f + b"
proof -
  have "(a' + f + b') + (x + y) = (a' + x) + (b' + y) + f" by (simp add: ac_simps)
  also have "\<dots> = (a' + x) + (b + x + f)" by (simp only: assms(1) ac_simps)
  also have "\<dots> \<subseteq># (a + y) + (b + x + f)" by (rule subset_mset.add_right_mono [OF assms(2)])
  also have "\<dots> = (a + f + b) + (x + y)" by (simp add: ac_simps)
  finally show ?thesis by simp
qed

lemma calls_worker:
  assumes "pool_ok cfg s" and "calls_ok cfg s" and "workers s t \<noteq> Idle"
    and "mset (map fst (answers h)) + pc_due pc \<subseteq># mset (map fst (answers (hs s))) + pc_due (workers s t)"
  shows "calls_ok cfg (set_worker t pc h s)"
proof -
  have "calls cfg (set_worker t pc h s) \<subseteq># calls cfg s"
    using sum_shrinks [OF pool_sum_move [OF assms(1,3), of pc_due pc] assms(4),
        of "(mset (map fst (flights s)) + mset (map fst (flights s))) + (mset (map fst (posted s)) + mset (map fst (posted s)))"]
    by (simp add: calls_def add.assoc)
  then show ?thesis using assms(2) by (simp add: calls_ok_def)
qed

lemma calls_less: "calls_ok cfg s \<Longrightarrow> calls cfg s' \<subseteq># calls cfg s \<Longrightarrow> next_request s' = next_request s \<Longrightarrow> calls_ok cfg s'"
  by (auto simp: calls_ok_def)

lemma calls_arrived:
  assumes "calls_ok cfg s" and "next_request s' = Suc (next_request s)"
    and "calls cfg s' \<subseteq># calls cfg s + {#next_request s, next_request s#}"
  shows "calls_ok cfg s'"
proof -
  have "calls cfg s' \<subseteq># (mset [0..<next_request s] + mset [0..<next_request s]) + {#next_request s, next_request s#}"
    using assms(1,3) by (meson calls_ok_def subset_mset.add_right_mono subset_mset.order_trans)
  then show ?thesis by (simp add: calls_ok_def assms(2))
qed

lemma calls_step:
  assumes "sys_step fails withdraws E cfg s s'" and "pool_ok cfg s" and "calls_ok cfg s"
  shows "calls_ok cfg s'"
  using assms
proof (induction rule: sys_step.induct)
  case (arrive body s)
  then show ?case
    by (cases rule: arrive_cases [of E cfg body s]) (auto simp: calls_def intro!: calls_arrived [OF arrive.prems(2)])
next
  case (list_queue s h)
  then show ?case by (intro calls_arrived [OF list_queue.prems(2)]) (auto simp: calls_def handler_ops)
next
  case (reply_at_once s text_l)
  then show ?case by (intro calls_arrived [OF reply_at_once.prems(2)]) (auto simp: calls_def)
next
  case (delete_queue s)
  then show ?case
    by (intro calls_arrived [OF delete_queue.prems(2)]) (auto simp: calls_def handle_queue_delete_request_def)
next
  case (lock s xs c cid j ys q)
  then show ?case by (intro calls_less [OF lock.prems(2)]) (auto simp: calls_def)
next
  case (lock_full s xs c cid j ys what q)
  then show ?case by (intro calls_less [OF lock_full.prems(2)]) (auto simp: calls_def)
next
  case (post s xs c cid ys)
  then show ?case by (intro calls_less [OF post.prems(2)]) (auto simp: calls_def)
next
  case (take_task t s c cid rest)
  then show ?case using pool_sum_upd [of t cfg pc_due "workers s" "Begun c cid"]
    by (intro calls_less [OF take_task.prems(2)]) (simp_all add: calls_def)
next
  case (no_device s t c cid what h)
  then show ?case by (intro calls_worker) (auto dest: scan_Inl)
next
  case (acquire s t c cid i h)
  then show ?case by (intro calls_worker) (auto simp: scan_Inr)
qed (rule calls_worker; force simp: handler_ops)+

lemma callback_step_calls:
  assumes "callback_step throws fails withdraws E cfg s s'" and "pool_ok cfg s" and "calls_ok cfg s"
  shows "calls_ok cfg s'"
  using assms
proof (induction rule: callback_step.induct)
  case (plain s s')
  then show ?case by (rule calls_step)
next
  case (thread_throws s t c cid what)
  then show ?case by (intro calls_worker) (auto elim!: in_try.elims)
next
  case (lock_throws s xs c cid j ys what)
  then show ?case by (intro calls_less [OF lock_throws.prems(2)]) (auto simp: calls_def)
next
  case (reply_throws body s cid s' what heard)
  then show ?case
  proof (cases rule: arrive_cases [of E cfg body s])
    case (now reply d q)
    then show ?thesis unfolding reply_throws.hyps(4)
      by (intro calls_arrived [OF reply_throws.prems(2)]) (auto simp: calls_def)
  next
    case (flight cid' j)
    then show ?thesis using answered_in_try_flights [OF reply_throws.hyps(3)] by simp
  qed
qed

lemma callback_step_pool:
  assumes "callback_step throws fails withdraws E cfg s s'" and "pool_ok cfg s"
  shows "pool_ok cfg s'"
  using assms
proof (induction rule: callback_step.induct)
  case (plain s s')
  then show ?case by (rule pool_ok_step)
next
  case (reply_throws body s cid s' what heard)
  have "pool_ok cfg (handle_request_async E cfg body s)"
    using pool_ok_step [OF sys_step.arrive [OF reply_throws.hyps(2), of fails]] reply_throws.prems by blast
  then show ?case by (simp add: pool_ok_def reply_throws.hyps(4))
qed (auto simp: pool_ok_def split: if_splits)

lemma callback_reachable_calls:
  assumes "callback_reachable throws fails withdraws E cfg s"
  shows "pool_ok cfg s \<and> calls_ok cfg s"
  using assms
proof (induction rule: callback_runs.reach_induct)
  case (at_start s)
  then show ?case
    by (simp add: pool_ok_def calls_ok_def calls_def sys_init_def handler_ctor_def pool_sum_idle)
next
  case (by_step s s')
  then show ?case using callback_step_pool callback_step_calls by blast
qed

section \<open>No request is lost\<close>

definition kept :: "config \<Rightarrow> sys \<Rightarrow> bool" where
  "kept cfg s \<longleftrightarrow> mset [0..<next_request s] \<subseteq># whereabouts cfg s"

lemma kept_worker:
  assumes "pool_ok cfg s" and "kept cfg s" and "workers s t \<noteq> Idle"
    and "mset (map fst (answers (hs s))) + pc_owner (workers s t) \<subseteq># mset (map fst (answers h)) + pc_owner pc"
  shows "kept cfg (set_worker t pc h s)"
proof -
  have "whereabouts cfg s \<subseteq># whereabouts cfg (set_worker t pc h s)"
    using sum_shrinks [OF pool_sum_move [OF assms(1,3), of pc_owner pc, symmetric] assms(4),
        of "mset (map fst (flights s)) + mset (map fst (posted s))"]
    by (simp add: whereabouts_def add.assoc)
  then show ?thesis using assms(2) by (simp add: kept_def)
qed

lemma kept_more: "kept cfg s \<Longrightarrow> whereabouts cfg s \<subseteq># whereabouts cfg s' \<Longrightarrow> next_request s' = next_request s \<Longrightarrow> kept cfg s'"
  by (auto simp: kept_def)

lemma kept_arrived:
  assumes "kept cfg s" and "next_request s' = Suc (next_request s)"
    and "whereabouts cfg s + {#next_request s#} \<subseteq># whereabouts cfg s'"
  shows "kept cfg s'"
proof -
  have "mset [0..<next_request s] + {#next_request s#} \<subseteq># whereabouts cfg s'"
    using assms(1,3) by (meson kept_def subset_mset.add_right_mono subset_mset.order_trans)
  then show ?thesis by (simp add: kept_def assms(2))
qed

lemma kept_step:
  assumes "sys_step fails withdraws E cfg s s'" and "pool_ok cfg s" and "kept cfg s"
  shows "kept cfg s'"
  using assms
proof (induction rule: sys_step.induct)
  case (arrive body s)
  then show ?case
    by (cases rule: arrive_cases [of E cfg body s]) (auto simp: whereabouts_def intro!: kept_arrived [OF arrive.prems(2)])
next
  case (list_queue s h)
  then show ?case by (intro kept_arrived [OF list_queue.prems(2)]) (auto simp: whereabouts_def handler_ops)
next
  case (reply_at_once s text_l)
  then show ?case by (intro kept_arrived [OF reply_at_once.prems(2)]) (auto simp: whereabouts_def)
next
  case (delete_queue s)
  then show ?case
    by (intro kept_arrived [OF delete_queue.prems(2)]) (auto simp: whereabouts_def handle_queue_delete_request_def)
next
  case (lock s xs c cid j ys q)
  then show ?case by (intro kept_more [OF lock.prems(2)]) (auto simp: whereabouts_def)
next
  case (lock_full s xs c cid j ys what q)
  then show ?case by (intro kept_more [OF lock_full.prems(2)]) (auto simp: whereabouts_def)
next
  case (post s xs c cid ys)
  then show ?case by (intro kept_more [OF post.prems(2)]) (auto simp: whereabouts_def)
next
  case (take_task t s c cid rest)
  then show ?case using pool_sum_upd [of t cfg pc_owner "workers s" "Begun c cid"]
    by (intro kept_more [OF take_task.prems(2)]) (simp_all add: whereabouts_def)
next
  case (no_device s t c cid what h)
  then show ?case by (intro kept_worker) (auto dest: scan_Inl)
next
  case (acquire s t c cid i h)
  then show ?case by (intro kept_worker) (auto simp: scan_Inr)
qed (rule kept_worker; force simp: handler_ops)+

lemma callback_step_kept:
  assumes "callback_step throws fails withdraws E cfg s s'" and "pool_ok cfg s" and "kept cfg s"
  shows "kept cfg s'"
  using assms
proof (induction rule: callback_step.induct)
  case (plain s s')
  then show ?case by (rule kept_step)
next
  case (thread_throws s t c cid what)
  then show ?case by (intro kept_worker) (auto elim!: in_try.elims)
next
  case (lock_throws s xs c cid j ys what)
  then show ?case by (intro kept_more [OF lock_throws.prems(2)]) (auto simp: whereabouts_def)
next
  case (reply_throws body s cid s' what heard)
  then show ?case
  proof (cases rule: arrive_cases [of E cfg body s])
    case (now reply d q)
    then show ?thesis unfolding reply_throws.hyps(4)
      by (intro kept_arrived [OF reply_throws.prems(2)]) (auto simp: whereabouts_def)
  next
    case (flight cid' j)
    then show ?thesis using answered_in_try_flights [OF reply_throws.hyps(3)] by simp
  qed
qed

lemma callback_reachable_kept:
  assumes "callback_reachable throws fails withdraws E cfg s"
  shows "kept cfg s"
  using assms
proof (induction rule: callback_runs.reach_induct)
  case (at_start s)
  then show ?case by (simp add: kept_def sys_init_def)
next
  case (by_step s s')
  then show ?case using callback_reachable_calls callback_step_kept by blast
qed

section \<open>Properties\<close>

text \<open>The second call: the answer to request 0 has been given, and then something throws.\<close>

lemma answered_twice_reachable:
  "\<exists>s. callback_reachable True False False run_env run_config s \<and> map fst (answers (hs s)) = [0, 0]"
proof -
  obtain mr where mr: "generate run_env run_config (Inr (\<lambda>_. 1)) (request (run_job 2 7 2)) = Inr mr"
    by (simp add: generate_def)
  have local: "locals (hs one_served) 0 = Some (run_job 2 7 2)" by (simp add: one_served_def)
  then obtain h where h: "worker_answer run_env 0 None mr (hs one_served) = Some h"
    by (auto simp: handler_ops)
  have "map fst (answers (hs one_served)) = []"
    by (simp add: one_served_def both_posted_def idle_handler_def handler_ctor_def)
  then have one: "map fst (answers h) = [0]" using h by (auto simp: handler_ops)
  let ?s = "set_worker 0 (Answered 0 None 0) h one_served"
  have "sys_step False False run_env run_config one_served ?s"
    by (rule answer [OF _ local mr h]) (simp add: one_served_def)
  then have "reachable False False run_env run_config ?s" by (rule reachable.step [OF one_served_reachable])
  then have "callback_reachable True False False run_env run_config ?s" by (rule reachable_callback)
  then have "callback_reachable True False False run_env run_config
      (set_worker 0 Idle (worker_catch run_env 0 None ''broken'' (hs ?s)) ?s)"
    by (rule callback_next) (rule thread_throws, simp_all)
  then show ?thesis using one
    by (intro exI [of _ "set_worker 0 Idle (worker_catch run_env 0 None ''broken'' (hs ?s)) ?s"]) simp
qed

text \<open>
  C13: how often a request is answered. As long as \<open>response_handler\<close> and the code after its call do
  not throw, no request is answered twice, also when generating the work throws. With exceptions
  anywhere in the two \<open>try\<close> blocks a request can be answered twice, as the \<open>catch\<close> clauses answer
  again, but never three times. Either way none is lost: when nothing is in progress every request that
  arrived has been answered, and no other one has. The bound of two is reached.
\<close>

theorem at_most_one_answer:
  assumes "callback_reachable throws fails withdraws E cfg s"
  shows "count (mset (map fst (answers (hs s)))) c \<le> (if c < next_request s then (if throws then 2 else 1) else 0)
    \<and> (flights s = [] \<and> posted s = [] \<and> (\<forall>t. workers s t = Idle) \<and> c < next_request s \<longrightarrow>
         1 \<le> count (mset (map fst (answers (hs s)))) c)
    \<and> (\<exists>s'. callback_reachable True False False run_env run_config s' \<and> map fst (answers (hs s')) = [0, 0])"
proof -
  have "calls_ok cfg s" using callback_reachable_calls [OF assms] by blast
  then have "mset (map fst (answers (hs s))) \<subseteq># mset [0..<next_request s] + mset [0..<next_request s]"
    unfolding calls_ok_def calls_def by (meson mset_subset_eq_add_left subset_mset.order_trans)
  then have two: "count (mset (map fst (answers (hs s)))) c \<le> 2 * count (mset [0..<next_request s]) c"
    by (metis mset_subset_eq_count count_union mult_2)
  have one: "distinct (map fst (answers (hs s)))" if "\<not> throws"
  proof -
    have "reachable fails withdraws E cfg s" by (rule callback_reachable_plain) (use assms that in simp)
    then show ?thesis by (rule answers_distinct)
  qed
  have arrived: "count (mset [0..<next_request s]) c = (if c < next_request s then 1 else 0)"
    by (simp add: distinct_count_atmost_1 [THEN iffD1] del: mset_upt)
  have "count (mset (map fst (answers (hs s)))) c \<le> 1" if "\<not> throws"
    using one [OF that] by (simp add: distinct_count_atmost_1)
  then have upper: "count (mset (map fst (answers (hs s)))) c \<le> (if c < next_request s then (if throws then 2 else 1) else 0)"
    using two arrived by (cases throws) (auto split: if_splits)
  have "1 \<le> count (mset (map fst (answers (hs s)))) c"
    if "flights s = [] \<and> posted s = [] \<and> (\<forall>t. workers s t = Idle) \<and> c < next_request s"
  proof -
    have "whereabouts cfg s = mset (map fst (answers (hs s)))"
      using that by (simp add: whereabouts_def pool_sum_idle)
    then have "mset [0..<next_request s] \<subseteq># mset (map fst (answers (hs s)))"
      using callback_reachable_kept [OF assms] by (simp add: kept_def)
    then have "count (mset [0..<next_request s]) c \<le> count (mset (map fst (answers (hs s)))) c"
      by (rule mset_subset_eq_count)
    then show ?thesis using arrived that by simp
  qed
  then show ?thesis using upper answered_twice_reachable by blast
qed

theorem at_most_one_answer_witness:
  "count (mset (map fst (answers (hs one_served)))) 0 \<le> 1 \<and> callback_reachable True True False run_env run_config one_served"
proof -
  have "callback_reachable False False False run_env run_config one_served"
    by (rule reachable_callback [OF one_served_reachable])
  moreover have "callback_reachable True True False run_env run_config one_served"
    by (rule reachable_callback [OF one_served_reachable])
  ultimately show ?thesis
    using at_most_one_answer [of False False False run_env run_config one_served 0] by (auto split: if_splits)
qed

end
