(* ===== verification/Web.thy ===== *)
theory Web
  imports Prelude
begin

text \<open>
  \<open>src/workserver/webserver.hpp\<close>: the pure parts of the web server. The URL splitter, the mime
  types, the path of a static file, the patterns of endpoints, and \<open>handle_request\<close>, which turns a
  request into the call of an endpoint or into a response. The file system is a parameter: what
  opening a path gives. Beast's version string is a parameter as well.

  The compiled code is that for other platforms than Windows.
\<close>

section \<open>URLs\<close>

definition url :: "string \<Rightarrow> string \<times> string" where
  "url url_a =
     (let from_path = dropWhile (\<lambda>c. c \<noteq> CHR ''/'') url_a;
          query_i = dropWhile (\<lambda>c. c \<noteq> CHR ''?'') from_path
      in (takeWhile (\<lambda>c. c \<noteq> CHR ''?'') from_path,
          if query_i \<noteq> [] then tl query_i else query_i))"

section \<open>Mime types\<close>

definition ascii_lower :: "char \<Rightarrow> char" where
  "ascii_lower c =
     (let n = of_char c :: nat in if 65 \<le> n \<and> n \<le> 90 then char_of (n + 32) else c)"

definition iequals :: "string \<Rightarrow> string \<Rightarrow> bool" where
  "iequals a b \<longleftrightarrow> map ascii_lower a = map ascii_lower b"

text \<open>From the last dot on; empty when there is none.\<close>

fun extension :: "string \<Rightarrow> string" where
  "extension [] = []"
| "extension (c # s) =
     (if CHR ''.'' \<in> set s then extension s else if c = CHR ''.'' then c # s else [])"

definition mime_table :: "(string \<times> string) list" where
  "mime_table =
     [(''.htm'', ''text/html''), (''.html'', ''text/html''), (''.css'', ''text/css''),
      (''.txt'', ''text/plain''), (''.js'', ''application/javascript''),
      (''.json'', ''application/json''), (''.xml'', ''application/xml''), (''.png'', ''image/png''),
      (''.jpe'', ''image/jpeg''), (''.jpeg'', ''image/jpeg''), (''.jpg'', ''image/jpeg''),
      (''.gif'', ''image/gif''), (''.bmp'', ''image/bmp''), (''.ico'', ''image/vnd.microsoft.icon''),
      (''.tiff'', ''image/tiff''), (''.tif'', ''image/tiff''), (''.svg'', ''image/svg+xml''),
      (''.svgz'', ''image/svg+xml'')]"

definition mime_type :: "string \<Rightarrow> string" where
  "mime_type path =
     (case find (\<lambda>e. iequals (extension path) (fst e)) mime_table of
        Some e \<Rightarrow> snd e
      | None \<Rightarrow> ''application/text'')"

section \<open>Paths\<close>

definition path_cat :: "string \<Rightarrow> string \<Rightarrow> string" where
  "path_cat base path =
     (if base = [] then path
      else (if last base = CHR ''/'' then butlast base else base) @ path)"

fun has_dotdot :: "string \<Rightarrow> bool" where
  "has_dotdot (a # b # s) = (a = CHR ''.'' \<and> b = CHR ''.'' \<or> has_dotdot (b # s))"
| "has_dotdot _ = False"

section \<open>Endpoints\<close>

text \<open>
  \<open>add_endpoint\<close> compiles a path to a regular expression in which every \<open>?\<close> of the path has become
  the group \<open>([^\?]+)\<close>. The other characters of a path stand for themselves, as those of all the
  registered paths do. \<open>regex_match\<close> matches the whole target; a group takes as much as it can.
\<close>

datatype pattern_item = Lit char | Group

definition compile_path :: "string \<Rightarrow> pattern_item list" where
  "compile_path path = map (\<lambda>c. if c = CHR ''?'' then Group else Lit c) path"

fun first_some :: "('a \<Rightarrow> 'b option) \<Rightarrow> 'a list \<Rightarrow> 'b option" where
  "first_some f [] = None"
| "first_some f (x # xs) = (case f x of Some y \<Rightarrow> Some y | None \<Rightarrow> first_some f xs)"

primrec regex_match :: "pattern_item list \<Rightarrow> string \<Rightarrow> string list option" where
  "regex_match [] s = (if s = [] then Some [] else None)"
| "regex_match (p # ps) s =
     (case p of
        Lit c \<Rightarrow> (if s \<noteq> [] \<and> hd s = c then regex_match ps (tl s) else None)
      | Group \<Rightarrow>
          first_some (\<lambda>k. map_option ((#) (take k s)) (regex_match ps (drop k s)))
            (rev [1..<Suc (length (takeWhile (\<lambda>c. c \<noteq> CHR ''?'') s))]))"

datatype verb = verb_get | verb_post | verb_delete | verb_head | verb_other string

record 'h rest_endpoint =
  endpoint_verb :: verb
  path_verbatim :: string
  path_regex :: "pattern_item list"
  endpoint_handler :: 'h

definition add_endpoint :: "verb \<Rightarrow> string \<Rightarrow> 'h \<Rightarrow> 'h rest_endpoint list \<Rightarrow> 'h rest_endpoint list" where
  "add_endpoint v path h handlers =
     handlers @ [\<lparr>endpoint_verb = v, path_verbatim = path, path_regex = compile_path path, endpoint_handler = h\<rparr>]"

definition add_get_endpoint :: "string \<Rightarrow> 'h \<Rightarrow> 'h rest_endpoint list \<Rightarrow> 'h rest_endpoint list" where
  "add_get_endpoint = add_endpoint verb_get"

definition add_post_endpoint :: "string \<Rightarrow> 'h \<Rightarrow> 'h rest_endpoint list \<Rightarrow> 'h rest_endpoint list" where
  "add_post_endpoint = add_endpoint verb_post"

definition add_delete_endpoint :: "string \<Rightarrow> 'h \<Rightarrow> 'h rest_endpoint list \<Rightarrow> 'h rest_endpoint list" where
  "add_delete_endpoint = add_endpoint verb_delete"

record 'h websocket_endpoint =
  ws_path_verbatim :: string
  ws_path_regex :: "pattern_item list"
  ws_handler :: 'h

definition add_websocket_endpoint ::
  "string \<Rightarrow> 'h \<Rightarrow> 'h websocket_endpoint list \<Rightarrow> 'h websocket_endpoint list" where
  "add_websocket_endpoint path h handlers =
     handlers @ [\<lparr>ws_path_verbatim = path, ws_path_regex = compile_path path, ws_handler = h\<rparr>]"

section \<open>Requests and responses\<close>

record http_request =
  req_method :: verb
  target :: string
  req_version :: nat
  req_keep_alive :: bool
  req_body :: string

record http_response =
  status :: nat
  resp_version :: nat
  server_field :: string
  content_type :: string
  content_length :: nat
  resp_keep_alive :: bool
  resp_body :: string

record web_config =
  static_pages_allow_remote :: bool
  static_pages_allow :: bool

datatype file_open = Opened string | No_such_file | Open_error string

record web_env =
  open_file :: "string \<Rightarrow> file_open"
  beast_version :: string

datatype 'h reply = Respond http_response | Call 'h string "string list"

definition text_response :: "nat \<Rightarrow> http_request \<Rightarrow> string \<Rightarrow> http_response" where
  "text_response code req text_l =
     \<lparr>status = code, resp_version = req_version req, server_field = ''web/1'', content_type = ''text/html'',
      content_length = length text_l, resp_keep_alive = req_keep_alive req, resp_body = text_l\<rparr>"

definition bad_request :: "http_request \<Rightarrow> string \<Rightarrow> http_response" where
  "bad_request req why = text_response 400 req why"

definition not_found :: "http_request \<Rightarrow> string \<Rightarrow> http_response" where
  "not_found req target_l = text_response 404 req (''The resource '' @ [CHR 0x27] @ target_l @ [CHR 0x27] @ '' was not found.'')"

definition server_error :: "http_request \<Rightarrow> string \<Rightarrow> http_response" where
  "server_error req what = text_response 500 req (''An error occurred: '' @ [CHR 0x27] @ what @ [CHR 0x27])"

definition json_response :: "nat \<Rightarrow> bool \<Rightarrow> string \<Rightarrow> http_response" where
  "json_response client_version client_keepalive text_l =
     \<lparr>status = 200, resp_version = client_version, server_field = ''web/1'', content_type = ''application/json'',
      content_length = length text_l, resp_keep_alive = client_keepalive, resp_body = text_l\<rparr>"

section \<open>The request handler\<close>

text \<open>The first endpoint whose pattern and verb match, with the groups.\<close>

fun find_endpoint :: "'h rest_endpoint list \<Rightarrow> verb \<Rightarrow> string \<Rightarrow> ('h \<times> string list) option" where
  "find_endpoint [] v target_path = None"
| "find_endpoint (e # es) v target_path =
     (case regex_match (path_regex e) target_path of
        Some params \<Rightarrow> if endpoint_verb e = v then Some (endpoint_handler e, params) else find_endpoint es v target_path
      | None \<Rightarrow> find_endpoint es v target_path)"

definition serve_file :: "web_env \<Rightarrow> http_request \<Rightarrow> string \<Rightarrow> string \<Rightarrow> http_response" where
  "serve_file V req path contents =
     \<lparr>status = 200, resp_version = req_version req, server_field = beast_version V, content_type = mime_type path,
      content_length = length contents, resp_keep_alive = req_keep_alive req,
      resp_body = (if req_method req = verb_head then [] else contents)\<rparr>"

definition static_page :: "web_env \<Rightarrow> string \<Rightarrow> http_request \<Rightarrow> http_response" where
  "static_page V doc_root req =
     (let path = path_cat doc_root (target req);
          path = (if last (target req) = CHR ''/'' then path @ ''index.html'' else path)
      in case open_file V path of
           Opened contents \<Rightarrow> serve_file V req path contents
         | Open_error ec \<Rightarrow> server_error req ec
         | No_such_file \<Rightarrow>
             (let path = path_cat doc_root ''/index.html'' in
              case open_file V path of
                Opened contents \<Rightarrow> serve_file V req path contents
              | Open_error ec \<Rightarrow> server_error req ec
              | No_such_file \<Rightarrow> not_found req (target req)))"

definition handle_request ::
  "web_env \<Rightarrow> web_config \<Rightarrow> 'h rest_endpoint list \<Rightarrow> bool \<Rightarrow> string \<Rightarrow> http_request \<Rightarrow> 'h reply" where
  "handle_request V conf handlers is_loopback doc_root req =
     (if target req = [] \<or> hd (target req) \<noteq> CHR ''/'' \<or> has_dotdot (target req)
      then Respond (bad_request req ''Illegal request-target'')
      else case find_endpoint handlers (req_method req) (target req) of
          Some (h, params) \<Rightarrow> Call h (req_body req) params
        | None \<Rightarrow>
            if \<not> static_pages_allow conf \<or> \<not> static_pages_allow_remote conf \<and> \<not> is_loopback
            then Respond (bad_request req ''Access denied'')
            else Respond (static_page V doc_root req))"

text \<open>The endpoint of a WebSocket upgrade, found by the path of the target without the query.\<close>

fun find_websocket_endpoint :: "'h websocket_endpoint list \<Rightarrow> string \<Rightarrow> 'h option" where
  "find_websocket_endpoint [] target_l = None"
| "find_websocket_endpoint (e # es) target_l =
     (if regex_match (ws_path_regex e) (fst (url target_l)) \<noteq> None then Some (ws_handler e)
      else find_websocket_endpoint es target_l)"

section \<open>Lemmas\<close>

lemma first_some_None: "first_some f xs = None \<longleftrightarrow> (\<forall>x \<in> set xs. f x = None)"
  by (induction xs) (auto split: option.splits)

lemma first_some_Some: "first_some f xs = Some y \<Longrightarrow> \<exists>x \<in> set xs. f x = Some y"
  by (induction xs) (auto split: option.splits)

lemma compile_path_simps [simp]:
  "compile_path [] = []"
  "compile_path (c # p) = (if c = CHR ''?'' then Group else Lit c) # compile_path p"
  by (simp_all add: compile_path_def)

text \<open>The target that a path and its parameters make; \<open>None\<close> for the wrong number of them.\<close>

fun fill_path :: "string \<Rightarrow> string list \<Rightarrow> string option" where
  "fill_path [] gs = (if gs = [] then Some [] else None)"
| "fill_path (c # p) gs =
     (if c = CHR ''?'' then
        (case gs of [] \<Rightarrow> None | g # gs' \<Rightarrow> map_option ((@) g) (fill_path p gs'))
      else map_option ((#) c) (fill_path p gs))"

definition group_ok :: "string \<Rightarrow> bool" where
  "group_ok g \<longleftrightarrow> g \<noteq> [] \<and> CHR ''?'' \<notin> set g"

lemma take_takeWhile_notin: "k \<le> length (takeWhile (\<lambda>c. c \<noteq> x) s) \<Longrightarrow> x \<notin> set (take k s)"
proof -
  assume k: "k \<le> length (takeWhile (\<lambda>c. c \<noteq> x) s)"
  then have "take k s = take k (takeWhile (\<lambda>c. c \<noteq> x) s)"
    by (metis take_take takeWhile_eq_take min.absorb1)
  then show ?thesis by (metis in_set_takeD set_takeWhileD)
qed

lemma regex_match_sound:
  "regex_match (compile_path p) t = Some gs \<Longrightarrow> fill_path p gs = Some t \<and> (\<forall>g \<in> set gs. group_ok g)"
proof (induction p arbitrary: t gs)
  case Nil
  then show ?case by (simp split: if_splits)
next
  case (Cons c p)
  show ?case
  proof (cases "c = CHR ''?''")
    case True
    obtain k where k: "1 \<le> k" "k \<le> length (takeWhile (\<lambda>c. c \<noteq> CHR ''?'') t)"
      and m: "map_option ((#) (take k t)) (regex_match (compile_path p) (drop k t)) = Some gs"
      using Cons.prems True by (auto dest!: first_some_Some)
    then obtain gs' where gs': "regex_match (compile_path p) (drop k t) = Some gs'" "gs = take k t # gs'"
      by auto
    have "k \<le> length t" using k(2) length_takeWhile_le order_trans by blast
    then have "group_ok (take k t)"
      using k(1) take_takeWhile_notin [OF k(2)] by (cases t) (simp_all add: group_ok_def)
    then show ?thesis using Cons.IH [OF gs'(1)] gs'(2) True by simp
  next
    case False
    then show ?thesis using Cons.prems Cons.IH [of "tl t" gs] by (cases t) (auto split: if_splits)
  qed
qed

lemma regex_match_complete:
  "fill_path p gs = Some t \<Longrightarrow> \<forall>g \<in> set gs. group_ok g \<Longrightarrow> regex_match (compile_path p) t \<noteq> None"
proof (induction p arbitrary: t gs)
  case Nil
  then show ?case by (simp split: if_splits)
next
  case (Cons c p)
  show ?case
  proof (cases "c = CHR ''?''")
    case True
    then obtain g gs' t' where gs: "gs = g # gs'" "fill_path p gs' = Some t'" "t = g @ t'"
      using Cons.prems by (auto split: list.splits)
    then have "regex_match (compile_path p) t' \<noteq> None" using Cons by simp
    moreover have g: "CHR ''?'' \<notin> set g" "g \<noteq> []" using Cons.prems gs by (auto simp: group_ok_def)
    have "takeWhile (\<lambda>c. c \<noteq> CHR ''?'') (g @ t') = g @ takeWhile (\<lambda>c. c \<noteq> CHR ''?'') t'"
      using g(1) by (intro takeWhile_append2) auto
    then have "length g \<le> length (takeWhile (\<lambda>c. c \<noteq> CHR ''?'') t)" using gs(3) by simp
    moreover have "1 \<le> length g" using g(2) by (simp add: Suc_le_eq)
    ultimately have rest: "regex_match (compile_path p) (drop (length g) t) \<noteq> None"
      and len: "length g \<in> set (rev [1..<Suc (length (takeWhile (\<lambda>c. c \<noteq> CHR ''?'') t))])"
      using gs(3) by (simp_all add: less_Suc_eq_le del: upt_Suc)
    have "first_some (\<lambda>k. map_option ((#) (take k t)) (regex_match (compile_path p) (drop k t)))
        (rev [1..<Suc (length (takeWhile (\<lambda>c. c \<noteq> CHR ''?'') t))]) \<noteq> None"
      unfolding first_some_None using rest len by (intro notI) auto
    then show ?thesis using True by (simp only: compile_path_simps if_True regex_match.simps pattern_item.case simp_thms)
  next
    case False
    then obtain t' where "fill_path p gs = Some t'" "t = c # t'" using Cons.prems by auto
    then show ?thesis using Cons False by auto
  qed
qed

lemma fill_path_plain: "CHR ''?'' \<notin> set p \<Longrightarrow> fill_path p gs = (if gs = [] then Some p else None)"
  by (induction p) auto

lemma regex_match_plain:
  "CHR ''?'' \<notin> set p \<Longrightarrow> regex_match (compile_path p) t = (if t = p then Some [] else None)"
  using regex_match_sound [of p t] regex_match_complete [of p "[]" t]
  by (cases "regex_match (compile_path p) t") (auto simp: fill_path_plain split: if_splits)

lemma fill_path_no_query: "fill_path p gs = Some t \<Longrightarrow> \<forall>g \<in> set gs. group_ok g \<Longrightarrow> CHR ''?'' \<notin> set t"
  by (induction p gs arbitrary: t rule: fill_path.induct)
    (fastforce simp: group_ok_def split: if_splits list.splits)+

lemma has_dotdot_append:
  "xs \<noteq> [] \<Longrightarrow> last xs \<noteq> CHR ''.'' \<Longrightarrow> has_dotdot (xs @ ys) \<longleftrightarrow> has_dotdot xs \<or> has_dotdot ys"
  apply (induction xs rule: has_dotdot.induct)
    apply simp
   apply simp
  subgoal by (cases ys) auto
  done

section \<open>Properties\<close>

text \<open>
  An endpoint's path matches exactly the targets that are made from it by putting a non-empty
  text without \<open>?\<close> for each \<open>?\<close>, and the parameters passed to the handler are such texts, which put
  back into the path give the target.
\<close>

theorem endpoint_pattern:
  "case regex_match (compile_path path) target_l of
     Some params \<Rightarrow> fill_path path params = Some target_l \<and> (\<forall>g \<in> set params. group_ok g)
   | None \<Rightarrow> \<not> (\<exists>params. fill_path path params = Some target_l \<and> (\<forall>g \<in> set params. group_ok g))"
  using regex_match_sound [of path target_l] regex_match_complete [of path _ target_l]
  by (cases "regex_match (compile_path path) target_l") auto

theorem endpoint_pattern_witness:
  "\<exists>params. fill_path ''/a?'' params = Some ''/ab'' \<and> regex_match (compile_path ''/a?'') ''/ab'' = Some params"
  using endpoint_pattern [of "''/a?''" "''/ab''"] by simp

text \<open>
  What a path names, as the operating system reads it and without reference to the code that builds it:
  the names between the slashes, where empty ones and single dots stand for the directory itself, and
  two dots for the one above. A path is within a root when its names are those of the root followed by
  names none of which goes up. Symbolic links are not looked at.
\<close>

primrec path_split :: "string \<Rightarrow> string list" where
  "path_split [] = [[]]"
| "path_split (c # s) =
     (if c = CHR ''/'' then [] # path_split s else (c # hd (path_split s)) # tl (path_split s))"

definition path_names :: "string \<Rightarrow> string list" where
  "path_names p = filter (\<lambda>n. n \<noteq> [] \<and> n \<noteq> ''.'') (path_split p)"

definition absolute :: "string \<Rightarrow> bool" where
  "absolute p \<longleftrightarrow> p \<noteq> [] \<and> hd p = CHR ''/''"

definition within :: "string \<Rightarrow> string \<Rightarrow> bool" where
  "within doc_root p \<longleftrightarrow> (absolute p \<longleftrightarrow> absolute doc_root) \<and>
     (\<exists>rest. path_names p = path_names doc_root @ rest \<and> ''..'' \<notin> set rest)"

lemma path_split_not_Nil [simp]: "path_split s \<noteq> []"
  by (cases s) auto

lemma path_split_append: "path_split (xs @ CHR ''/'' # ys) = path_split xs @ path_split ys"
  by (induction xs) simp_all

lemma path_names_append: "path_names (xs @ CHR ''/'' # ys) = path_names xs @ path_names ys"
  by (simp add: path_names_def path_split_append)

lemma path_names_slash: "path_names (xs @ ''/'') = path_names xs"
  using path_names_append [of xs "[]"] by (simp add: path_names_def)

lemma has_dotdot_sublist: "has_dotdot s \<longleftrightarrow> sublist ''..'' s"
  by (induction s rule: has_dotdot.induct) (auto simp: sublist_Cons_right)

lemma path_split_prefix: "prefix (hd (path_split s)) s"
  by (induction s) auto

lemma path_split_sublist: "n \<in> set (path_split s) \<Longrightarrow> sublist n s"
proof (induction s)
  case (Cons c s)
  have tl: "n \<in> set (path_split s)" if "n \<in> set (tl (path_split s))"
    using that by (simp add: list.set_sel(2))
  show ?case using Cons tl path_split_prefix [of s] by (auto simp: sublist_Cons_right split: if_splits)
qed simp

lemma path_names_no_dotdot: "\<not> has_dotdot s \<Longrightarrow> ''..'' \<notin> set (path_names s)"
  using path_split_sublist [of "''..''" s] by (auto simp: path_names_def has_dotdot_sublist)

text \<open>The directory that the pages come from: an empty root is the root of the file system.\<close>

definition page_root :: "string \<Rightarrow> string" where
  "page_root doc_root = (if doc_root = [] then ''/'' else doc_root)"

lemma within_path_cat:
  assumes "\<not> has_dotdot (CHR ''/'' # rest)"
  shows "within (page_root doc_root) (path_cat doc_root (CHR ''/'' # rest))"
proof -
  have up: "''..'' \<notin> set (path_names rest)"
    using path_names_no_dotdot [OF assms] path_names_append [of "[]" rest] by simp
  consider "doc_root = []" | base where "doc_root = base @ ''/''" | "doc_root \<noteq> []" "last doc_root \<noteq> CHR ''/''"
    by (metis append_butlast_last_id)
  then show ?thesis
  proof cases
    case 1
    have "path_names (CHR ''/'' # rest) = path_names ''/'' @ path_names rest"
      using path_names_append [of "[]" rest] by (simp add: path_names_def)
    then show ?thesis using 1 up by (simp add: within_def path_cat_def page_root_def absolute_def)
  next
    case 2
    have "path_names (base @ CHR ''/'' # rest) = path_names doc_root @ path_names rest"
      unfolding 2 path_names_slash by (rule path_names_append)
    then show ?thesis using 2 up by (cases base) (auto simp: within_def path_cat_def page_root_def absolute_def)
  next
    case 3
    then show ?thesis using up path_names_append [of doc_root rest]
      by (simp add: within_def path_cat_def page_root_def absolute_def)
  qed
qed

lemma within_target:
  assumes "target_l \<noteq> []" "hd target_l = CHR ''/''" "\<not> has_dotdot target_l"
  shows "within (page_root doc_root) (path_cat doc_root target_l)"
    and "last target_l = CHR ''/'' \<Longrightarrow> within (page_root doc_root) (path_cat doc_root target_l @ ''index.html'')"
proof -
  obtain rest where t: "target_l = CHR ''/'' # rest" using assms by (cases target_l) auto
  then show "within (page_root doc_root) (path_cat doc_root target_l)"
    using assms(3) within_path_cat by simp
  assume "last target_l = CHR ''/''"
  then have "\<not> has_dotdot (target_l @ ''index.html'')" using assms has_dotdot_append by simp
  moreover have "path_cat doc_root target_l @ ''index.html'' = path_cat doc_root (CHR ''/'' # rest @ ''index.html'')"
    by (simp add: path_cat_def t)
  ultimately show "within (page_root doc_root) (path_cat doc_root target_l @ ''index.html'')"
    using within_path_cat [of "rest @ ''index.html''" doc_root] by (simp add: t)
qed

lemma within_index: "within (page_root doc_root) (path_cat doc_root ''/index.html'')"
  by (rule within_path_cat) simp

text \<open>
  C28: no request reads a file outside the document root. The reply depends on the file system only
  through paths whose names are those of the document root followed by names that do not go up, and
  which are absolute exactly when it is. For an empty document root this is no protection at all: the
  pages then come from the root of the file system.
\<close>

theorem static_pages_confined:
  assumes "\<And>p. within (page_root doc_root) p \<Longrightarrow> open_file V p = open_file V' p" and "beast_version V = beast_version V'"
  shows "handle_request V conf handlers is_loopback doc_root req = handle_request V' conf handlers is_loopback doc_root req"
proof (cases "target req = [] \<or> hd (target req) \<noteq> CHR ''/'' \<or> has_dotdot (target req)")
  case True
  then show ?thesis by (simp add: handle_request_def)
next
  case False
  then have "static_page V doc_root req = static_page V' doc_root req"
    using within_target [of "target req" doc_root] within_index [of doc_root] assms
    by (auto simp: static_page_def serve_file_def Let_def split: file_open.splits)
  then show ?thesis by (auto simp: handle_request_def split: option.splits)
qed

definition demo_get :: "string \<Rightarrow> http_request" where
  "demo_get t = \<lparr>req_method = verb_get, target = t, req_version = 11, req_keep_alive = True, req_body = []\<rparr>"

definition demo_files :: "string \<Rightarrow> file_open" where
  "demo_files p = (if p = ''public/index.html'' then Opened ''hello'' else No_such_file)"

definition demo_secret :: "string \<Rightarrow> file_open" where
  "demo_secret p = (if p = ''secret'' then Opened ''key'' else demo_files p)"

theorem static_pages_confined_witness:
  "handle_request \<lparr>open_file = demo_files, beast_version = ''Beast''\<rparr> \<lparr>static_pages_allow_remote = False, static_pages_allow = True\<rparr>
     ([] :: nat rest_endpoint list) True ''public'' (demo_get ''/'')
   = handle_request \<lparr>open_file = demo_secret, beast_version = ''Beast''\<rparr> \<lparr>static_pages_allow_remote = False, static_pages_allow = True\<rparr>
     [] True ''public'' (demo_get ''/'')"
proof (rule static_pages_confined)
  fix p assume "within (page_root ''public'') p"
  then have "p \<noteq> ''secret''" by (auto simp: within_def page_root_def path_names_def)
  then show "open_file \<lparr>open_file = demo_files, beast_version = ''Beast''\<rparr> p
      = open_file \<lparr>open_file = demo_secret, beast_version = ''Beast''\<rparr> p"
    by (simp add: demo_secret_def)
qed simp

definition no_static_page ::
  "web_config \<Rightarrow> 'h rest_endpoint list \<Rightarrow> bool \<Rightarrow> http_request \<Rightarrow> bool" where
  "no_static_page conf handlers is_loopback req \<longleftrightarrow>
     target req = [] \<or> hd (target req) \<noteq> CHR ''/'' \<or> has_dotdot (target req)
     \<or> find_endpoint handlers (req_method req) (target req) \<noteq> None
     \<or> \<not> static_pages_allow conf \<or> \<not> static_pages_allow_remote conf \<and> \<not> is_loopback"

lemma no_static_page_reply:
  "no_static_page conf handlers is_loopback req \<Longrightarrow>
   handle_request V conf handlers is_loopback doc_root req = handle_request V' conf handlers is_loopback doc_root req"
  by (auto simp: no_static_page_def handle_request_def split: option.splits)

lemma static_page_reply:
  "\<not> no_static_page conf handlers is_loopback req \<Longrightarrow>
   handle_request V conf handlers is_loopback doc_root req = Respond (static_page V doc_root req)"
  by (auto simp: no_static_page_def handle_request_def split: option.splits)

text \<open>
  C29: when the file system is looked at. The reply to a request is the same whatever the files are
  exactly when the target is illegal, or an endpoint takes it, or static pages are disabled, or they
  are not allowed for other hosts and the peer is one; and when the server answers such a request
  itself it refuses it with status 400.
\<close>

theorem static_pages_guarded:
  fixes handlers :: "'h rest_endpoint list"
  shows "((\<forall>V V'. handle_request V conf handlers is_loopback doc_root req
            = handle_request V' conf handlers is_loopback doc_root req)
        \<longleftrightarrow> no_static_page conf handlers is_loopback req)
    \<and> (no_static_page conf handlers is_loopback req \<longrightarrow>
         (\<forall>r. handle_request V conf handlers is_loopback doc_root req = Respond r \<longrightarrow> status r = 400))"
proof (cases "no_static_page conf handlers is_loopback req")
  case True
  have "\<forall>r. handle_request V conf handlers is_loopback doc_root req = Respond r \<longrightarrow> status r = 400"
    using True by (auto simp: no_static_page_def handle_request_def bad_request_def text_response_def split: option.splits)
  then show ?thesis using True no_static_page_reply by blast
next
  case False
  let ?full = "\<lparr>open_file = (\<lambda>_. Opened []), beast_version = []\<rparr>"
    and ?empty = "\<lparr>open_file = (\<lambda>_. No_such_file), beast_version = []\<rparr>"
  have "status (static_page ?full doc_root req) \<noteq> status (static_page ?empty doc_root req)"
    by (simp add: static_page_def serve_file_def not_found_def text_response_def Let_def)
  then have "handle_request ?full conf handlers is_loopback doc_root req
      \<noteq> handle_request ?empty conf handlers is_loopback doc_root req"
    unfolding static_page_reply [OF False] by auto
  then show ?thesis using False by blast
qed

theorem static_pages_guarded_witness:
  "handle_request \<lparr>open_file = demo_files, beast_version = ''Beast''\<rparr>
      \<lparr>static_pages_allow_remote = False, static_pages_allow = True\<rparr> ([] :: nat rest_endpoint list) False ''public''
      (demo_get ''/'')
   = Respond (bad_request (demo_get ''/'') ''Access denied'')
   \<and> \<not> no_static_page \<lparr>static_pages_allow_remote = False, static_pages_allow = True\<rparr> ([] :: nat rest_endpoint list)
      True (demo_get ''/'')
   \<and> status (bad_request (demo_get ''/'') ''Access denied'') = 400"
proof -
  let ?V = "\<lparr>open_file = demo_files, beast_version = ''Beast''\<rparr>"
    and ?conf = "\<lparr>static_pages_allow_remote = False, static_pages_allow = True\<rparr>"
  have reply: "handle_request ?V ?conf ([] :: nat rest_endpoint list) False ''public'' (demo_get ''/'')
      = Respond (bad_request (demo_get ''/'') ''Access denied'')"
    by (simp add: handle_request_def demo_get_def)
  moreover have "no_static_page ?conf ([] :: nat rest_endpoint list) False (demo_get ''/'')"
    by (simp add: no_static_page_def)
  moreover have "\<not> no_static_page ?conf ([] :: nat rest_endpoint list) True (demo_get ''/'')"
    by (simp add: no_static_page_def demo_get_def)
  ultimately show ?thesis
    using static_pages_guarded [where conf = ?conf and handlers = "[] :: nat rest_endpoint list" and V = ?V
        and is_loopback = False and doc_root = "''public''" and req = "demo_get ''/''"] by blast
qed

text \<open>
  The target is matched with its query. A target with a query reaches no endpoint at all,
  whatever endpoints are registered, although the path alone would match.
\<close>

theorem query_misses_endpoints:
  assumes "\<And>e. e \<in> set handlers \<Longrightarrow> path_regex e = compile_path (path_verbatim e)" and "CHR ''?'' \<in> set t"
  shows "find_endpoint handlers v t = None"
  using assms
proof (induction handlers)
  case (Cons e es)
  have "regex_match (path_regex e) t = None"
    using Cons.prems regex_match_sound [of "path_verbatim e" t] fill_path_no_query [of "path_verbatim e" _ t]
    by (cases "regex_match (path_regex e) t") auto
  then show ?case using Cons by simp
qed simp

theorem query_misses_endpoints_witness:
  "find_endpoint (add_get_endpoint ''/ping'' (0 :: nat) []) verb_get ''/ping?x'' = None
   \<and> find_endpoint (add_get_endpoint ''/ping'' (0 :: nat) []) verb_get ''/ping'' = Some (0, [])"
proof -
  have "find_endpoint (add_get_endpoint ''/ping'' (0 :: nat) []) verb_get ''/ping?x'' = None"
    by (rule query_misses_endpoints) (auto simp: add_get_endpoint_def add_endpoint_def)
  then show ?thesis by (simp add: add_get_endpoint_def add_endpoint_def)
qed

end
