(* ===== verification/Sessions.thy ===== *)
theory Sessions
  imports Web Transitions "HOL-Library.Sublist"
begin

text \<open>
  \<open>src/workserver/webserver.hpp\<close>: the two kinds of connections as state machines. An asynchronous
  operation is a counter of the operations under way; its completion handler is a step. The ghost
  fields record what was handed to a session, what its socket has accepted, and which requests
  were read.
\<close>

section \<open>The HTTP pipeline\<close>

record http_session =
  items :: "http_response list"
  reading :: nat
  writing :: nat
  client_version :: nat
  client_keepalive :: bool
  pending :: nat
  stopped :: bool
  received :: "http_request list"
  submitted :: "http_response list"
  written :: "http_response list"

definition queue_limit :: nat where
  "queue_limit = 8"

lemma queue_limit_pos [simp]: "0 < queue_limit" "\<not> queue_limit \<le> queue_limit - Suc 0"
  by (simp_all add: queue_limit_def)

definition is_full :: "http_session \<Rightarrow> bool" where
  "is_full s \<longleftrightarrow> queue_limit \<le> length (items s)"

text \<open>The call of the front item starts a write; \<open>queue::operator()\<close> starts it for the first item only.\<close>

definition start_write :: "http_session \<Rightarrow> http_session" where
  "start_write s = s\<lparr>writing := Suc (writing s)\<rparr>"

definition queue_send :: "http_response \<Rightarrow> http_session \<Rightarrow> http_session" where
  "queue_send msg s =
     (let s' = s\<lparr>items := items s @ [msg], submitted := submitted s @ [msg]\<rparr> in
      if length (items s') = 1 then start_write s' else s')"

definition queue_on_write :: "http_session \<Rightarrow> bool \<times> http_session" where
  "queue_on_write s =
     (let was_full = is_full s; s' = s\<lparr>items := tl (items s)\<rparr> in
      (was_full, if items s' \<noteq> [] then start_write s' else s'))"

definition session_read :: "http_session \<Rightarrow> http_session" where
  "session_read s = s\<lparr>reading := Suc (reading s)\<rparr>"

definition session_run :: http_session where
  "session_run = session_read \<lparr>items = [], reading = 0, writing = 0, client_version = 11, client_keepalive = True,
     pending = 0, stopped = False, received = [], submitted = [], written = []\<rparr>"

definition write_json_response :: "string \<Rightarrow> http_session \<Rightarrow> http_session" where
  "write_json_response text_l s = queue_send (json_response (client_version s) (client_keepalive s) text_l) s"

text \<open>
  How a read completes: aborted, at the end of the stream, with another error, with a WebSocket
  upgrade, or with a request. An endpoint either answers within its handler (\<open>Some\<close>) or keeps the
  session to answer later.
\<close>

datatype read_event = Read_aborted | Read_eof | Read_error | Read_upgrade | Read_request http_request "string option"

text \<open>\<open>graceful_shutdown\<close> closes the sending side only, so queued answers can no longer be written.\<close>

fun on_read :: "(http_request \<Rightarrow> 'h reply) \<Rightarrow> read_event \<Rightarrow> http_session \<Rightarrow> http_session" where
  "on_read handle Read_aborted s = s"
| "on_read handle Read_eof s = s"
| "on_read handle Read_error s = s"
| "on_read handle Read_upgrade s = s"
| "on_read handle (Read_request req immediate) s =
     (let s1 = s\<lparr>client_version := req_version req, client_keepalive := req_keep_alive req,
                 received := received s @ [req]\<rparr>;
          s2 = (case handle req of
                  Respond r \<Rightarrow> queue_send r s1
                | Call h body params \<Rightarrow>
                    (case immediate of
                       Some text_l \<Rightarrow> write_json_response text_l s1
                     | None \<Rightarrow> s1\<lparr>pending := Suc (pending s1)\<rparr>))
      in if \<not> is_full s2 then session_read s2 else s2)"

datatype write_event = Write_aborted | Write_ok | Write_error

text \<open>\<open>close\<close> is \<open>need_eof\<close> of the message: it has a length, so it is that the connection is not kept.\<close>

fun on_write :: "write_event \<Rightarrow> http_session \<Rightarrow> http_session" where
  "on_write Write_aborted s = s\<lparr>stopped := True\<rparr>"
| "on_write Write_error s = s\<lparr>stopped := True\<rparr>"
| "on_write Write_ok s =
     (let s1 = s\<lparr>written := written s @ [hd (items s)]\<rparr> in
      if \<not> resp_keep_alive (hd (items s)) then s1\<lparr>stopped := True\<rparr>
      else let (was_full, s2) = queue_on_write s1 in if was_full then session_read s2 else s2)"

text \<open>
  The switch \<open>later\<close> admits endpoints that answer later. The call of \<open>write_json_response\<close> for such an
  answer is one step here, as are the handlers. For the handlers this is what the strand gives; the
  late call comes from a thread of the work server's pool and does not run on the strand, so that the
  queue can be seen between its two accesses. The theory \<open>Races\<close> has these as steps of their own; with
  \<open>later\<close> the relation here has the runs in which the two accesses happen to come together.
\<close>

inductive http_step :: "bool \<Rightarrow> (http_request \<Rightarrow> 'h reply) \<Rightarrow> http_session \<Rightarrow> http_session \<Rightarrow> bool"
  for later handle where
  read_done: "reading s = Suc n \<Longrightarrow> later \<or> (\<forall>req. ev \<noteq> Read_request req None) \<Longrightarrow>
    http_step later handle s (on_read handle ev (s\<lparr>reading := n\<rparr>))"
| write_done: "writing s = Suc n \<Longrightarrow> http_step later handle s (on_write ev (s\<lparr>writing := n\<rparr>))"
| answer_later: "pending s = Suc n \<Longrightarrow>
    http_step later handle s (write_json_response text_l (s\<lparr>pending := n\<rparr>))"

inductive http_reachable :: "bool \<Rightarrow> (http_request \<Rightarrow> 'h reply) \<Rightarrow> http_session \<Rightarrow> bool" for later handle where
  http_init: "http_reachable later handle session_run"
| http_next: "http_reachable later handle s \<Longrightarrow> http_step later handle s s' \<Longrightarrow> http_reachable later handle s'"

inductive_cases http_stepE: "http_step later handle s s'"

interpretation http_runs: transitions "\<lambda>s. s = session_run" "http_step later handle" "http_reachable later handle"
  for later handle
proof unfold_locales
  show "P s" if "http_reachable later handle s" "\<And>s. s = session_run \<Longrightarrow> P s"
    "\<And>s s'. http_reachable later handle s \<Longrightarrow> P s \<Longrightarrow> http_step later handle s s' \<Longrightarrow> P s'" for P s
    using that(1) by (induction rule: http_reachable.induct) (use that(2,3) in blast)+
qed (auto intro: http_reachable.intros)

section \<open>Lemmas on the pipeline\<close>

lemma queue_send_simps [simp]:
  "items (queue_send m s) = items s @ [m]" "submitted (queue_send m s) = submitted s @ [m]"
  "writing (queue_send m s) = (if items s = [] then Suc (writing s) else writing s)"
  "reading (queue_send m s) = reading s" "stopped (queue_send m s) = stopped s"
  "written (queue_send m s) = written s" "pending (queue_send m s) = pending s"
  "received (queue_send m s) = received s"
  by (simp_all add: queue_send_def start_write_def Let_def)

lemma write_json_simps [simp]:
  "writing (write_json_response t s) = (if items s = [] then Suc (writing s) else writing s)"
  "length (items (write_json_response t s)) = Suc (length (items s))"
  "items (write_json_response t s) \<noteq> []"
  "reading (write_json_response t s) = reading s" "stopped (write_json_response t s) = stopped s"
  "written (write_json_response t s) = written s" "pending (write_json_response t s) = pending s"
  "received (write_json_response t s) = received s"
  by (simp_all add: write_json_response_def)

lemma session_read_simps [simp]:
  "reading (session_read s) = Suc (reading s)" "items (session_read s) = items s"
  "writing (session_read s) = writing s" "stopped (session_read s) = stopped s"
  "written (session_read s) = written s" "submitted (session_read s) = submitted s"
  "pending (session_read s) = pending s" "received (session_read s) = received s"
  by (simp_all add: session_read_def)

text \<open>What one step does to the queue: nothing, one answer more, or one write that ends.\<close>

definition pipe_inv :: "http_session \<Rightarrow> bool" where
  "pipe_inv s \<longleftrightarrow> prefix (written s) (submitted s)
     \<and> (\<not> stopped s \<longrightarrow> submitted s = written s @ items s \<and> writing s = (if items s = [] then 0 else 1))
     \<and> (stopped s \<longrightarrow> items s \<noteq> [] \<and> writing s = 0)"

lemma pipe_inv_same:
  "pipe_inv s \<Longrightarrow> items s' = items s \<Longrightarrow> submitted s' = submitted s \<Longrightarrow> written s' = written s \<Longrightarrow>
   writing s' = writing s \<Longrightarrow> stopped s' = stopped s \<Longrightarrow> pipe_inv s'"
  by (simp add: pipe_inv_def)

lemma pipe_inv_send: "pipe_inv s \<Longrightarrow> pipe_inv (queue_send m s)"
  by (auto simp: pipe_inv_def intro: prefix_prefix)

lemma pipe_inv_on_read: "pipe_inv s \<Longrightarrow> pipe_inv (on_read handle ev s)"
proof (cases ev)
  case (Read_request req immediate)
  assume inv: "pipe_inv s"
  let ?s1 = "s\<lparr>client_version := req_version req, client_keepalive := req_keep_alive req,
    received := received s @ [req]\<rparr>"
  have s1: "pipe_inv ?s1" by (rule pipe_inv_same [OF inv]) simp_all
  have "pipe_inv (if \<not> is_full s2 then session_read s2 else s2)" if "pipe_inv s2" for s2
    using that by (auto intro: pipe_inv_same)
  moreover have "pipe_inv (case handle req of Respond r \<Rightarrow> queue_send r ?s1
      | Call h body params \<Rightarrow> (case immediate of Some t \<Rightarrow> write_json_response t ?s1
          | None \<Rightarrow> ?s1\<lparr>pending := Suc (pending ?s1)\<rparr>))"
    using s1 by (auto split: reply.splits option.splits simp: write_json_response_def
        intro: pipe_inv_send pipe_inv_same)
  ultimately show ?thesis unfolding Read_request on_read.simps Let_def by blast
qed simp_all

lemma pipe_inv_on_write:
  assumes "pipe_inv s" and "writing s = Suc n"
  shows "pipe_inv (on_write ev (s\<lparr>writing := n\<rparr>))"
proof -
  obtain m ms where items: "items s = m # ms" using assms by (cases "items s") (auto simp: pipe_inv_def split: if_splits)
  have run: "\<not> stopped s" "submitted s = written s @ m # ms" "n = 0"
    using assms items by (auto simp: pipe_inv_def split: if_splits)
  show ?thesis
    using items run by (cases ev) (auto simp: pipe_inv_def queue_on_write_def start_write_def Let_def)
qed

lemma pipe_inv_step: "http_step later handle s s' \<Longrightarrow> pipe_inv s \<Longrightarrow> pipe_inv s'"
proof (induction rule: http_step.induct)
  case (read_done s n ev)
  then show ?case by (intro pipe_inv_on_read) (auto intro: pipe_inv_same)
next
  case (write_done s n ev)
  then show ?case by (intro pipe_inv_on_write)
next
  case (answer_later s n text_l)
  then show ?case unfolding write_json_response_def by (intro pipe_inv_send) (auto intro: pipe_inv_same)
qed

lemma pipe_inv_init: "pipe_inv session_run"
  by (simp add: pipe_inv_def session_run_def)

lemma http_reachable_pipe: "http_reachable later handle s \<Longrightarrow> pipe_inv s"
  by (rule http_runs.invariant_holds) (auto intro: pipe_inv_init pipe_inv_step)

text \<open>Without late answers one read is under way, or the queue is full, or the session is done.\<close>

definition flow_inv :: "http_session \<Rightarrow> bool" where
  "flow_inv s \<longleftrightarrow> pending s = 0 \<and> length (items s) \<le> queue_limit \<and> reading s \<le> 1 \<and> (is_full s \<longrightarrow> reading s = 0)"

lemma flow_inv_step: "http_step False handle s s' \<Longrightarrow> flow_inv s \<Longrightarrow> flow_inv s'"
proof (induction rule: http_step.induct)
  case (read_done s n ev)
  then show ?case
    by (cases ev) (auto simp: flow_inv_def is_full_def Let_def not_le
        split: reply.splits option.splits)
next
  case (write_done s n ev)
  have less: "length (tl (items s)) < queue_limit" if "length (items s) \<le> queue_limit"
    using that queue_limit_pos(1) by (cases "items s") auto
  have "flow_inv s" by (rule write_done.prems)
  then have flow: "pending s = 0" "length (items s) \<le> queue_limit" "reading s \<le> 1"
      "queue_limit \<le> length (items s) \<Longrightarrow> reading s = 0"
    by (auto simp: flow_inv_def is_full_def)
  show ?case
  proof (cases ev)
    case Write_ok
    show ?thesis
      using flow less [OF flow(2)] unfolding Write_ok
      by (simp add: flow_inv_def is_full_def queue_on_write_def start_write_def Let_def)
  qed (use flow in \<open>simp_all add: flow_inv_def is_full_def\<close>)
next
  case (answer_later s n text_l)
  then show ?case by (simp add: flow_inv_def)
qed

lemma flow_inv_init: "flow_inv session_run"
  by (simp add: flow_inv_def session_run_def is_full_def queue_limit_def)

lemma http_reachable_flow: "http_reachable False handle s \<Longrightarrow> flow_inv s"
  by (rule http_runs.invariant_holds) (auto intro: flow_inv_init flow_inv_step)

section \<open>WebSocket sessions\<close>

text \<open>
  Times are seconds. \<open>expiry\<close> is the timer's deadline, \<open>closed\<close> that the socket was closed by the
  timer; \<open>clock\<close>, \<open>last_activity\<close> and the three logs are ghost fields: the messages handed to the session,
  the messages for which a write was started, and the texts that the socket took.
\<close>

record ws_session =
  send_queue :: "string list"
  ws_writing :: nat
  ws_open :: bool
  ping_state :: nat
  expiry :: int
  closed :: bool
  clock :: int
  last_activity :: int
  ws_submitted :: "string list"
  ws_started :: "string list"
  ws_written :: "string list"

text \<open>
  \<open>write_queued_messages\<close> copies the front of the queue to a local string and starts a write of a buffer
  that refers to this local. It is gone when the function returns, and the write reads it afterwards:
  what it then finds there, the code does not determine.
\<close>

definition write_queued_messages :: "ws_session \<Rightarrow> ws_session" where
  "write_queued_messages s =
     s\<lparr>ws_writing := Suc (ws_writing s), ws_started := ws_started s @ [hd (send_queue s)]\<rparr>"

definition write_response :: "string \<Rightarrow> ws_session \<Rightarrow> ws_session" where
  "write_response message_a s =
     (let write_in_progress = (send_queue s \<noteq> []);
          s' = s\<lparr>send_queue := send_queue s @ [message_a], ws_submitted := ws_submitted s @ [message_a]\<rparr>
      in if \<not> write_in_progress then write_queued_messages s' else s')"

text \<open>
  The completion of a write; \<open>ok\<close> is that there was no error, and \<open>sent\<close> the text that the buffer
  referred to in the meantime.
\<close>

definition ws_on_write :: "bool \<Rightarrow> string \<Rightarrow> ws_session \<Rightarrow> ws_session" where
  "ws_on_write ok sent s =
     (let s' = s\<lparr>send_queue := tl (send_queue s),
                 ws_written := (if ok then ws_written s @ [sent] else ws_written s)\<rparr>
      in if ok \<and> send_queue s' \<noteq> [] then write_queued_messages s' else s')"

text \<open>\<open>do_accept\<close> at time \<open>now\<close>; the first call of \<open>on_timer\<close> finds the deadline in the far future.\<close>

definition ws_do_accept :: "int \<Rightarrow> ws_session" where
  "ws_do_accept now =
     \<lparr>send_queue = [], ws_writing = 0, ws_open = False, ping_state = 0, expiry = now + 15, closed = False,
      clock = now, last_activity = now, ws_submitted = [], ws_started = [], ws_written = []\<rparr>"

definition ws_on_accept :: "ws_session \<Rightarrow> ws_session" where
  "ws_on_accept s = s\<lparr>ws_open := True\<rparr>"

definition ws_on_timer :: "int \<Rightarrow> ws_session \<Rightarrow> ws_session" where
  "ws_on_timer now s =
     (if expiry s \<le> now then
        if ws_open s \<and> ping_state s = 0 then s\<lparr>ping_state := 1, expiry := now + 15\<rparr>
        else s\<lparr>closed := True\<rparr>
      else s)"

definition ws_activity :: "int \<Rightarrow> ws_session \<Rightarrow> ws_session" where
  "ws_activity now s = s\<lparr>ping_state := 0, expiry := now + 15, last_activity := now\<rparr>"

definition ws_on_ping :: "ws_session \<Rightarrow> ws_session" where
  "ws_on_ping s = (if ping_state s = 1 then s\<lparr>ping_state := 2\<rparr> else s)"

text \<open>
  Time passes between the steps. \<open>received_frame\<close> is a message or a control frame; what a message's
  handler does, it does through \<open>write_response\<close>. A write ends with any \<open>sent\<close>.
\<close>

inductive ws_step :: "ws_session \<Rightarrow> ws_session \<Rightarrow> bool" where
  tick: "clock s \<le> now \<Longrightarrow> ws_step s (s\<lparr>clock := now\<rparr>)"
| accepted: "\<not> closed s \<Longrightarrow> ws_step s (ws_on_accept s)"
| timer: "\<not> closed s \<Longrightarrow> ws_step s (ws_on_timer (clock s) s)"
| received_frame: "\<not> closed s \<Longrightarrow> ws_open s \<Longrightarrow> ws_step s (ws_activity (clock s) s)"
| ping_sent: "\<not> closed s \<Longrightarrow> ws_step s (ws_on_ping s)"
| respond: "ws_step s (write_response message s)"
| write_finished: "ws_writing s = Suc n \<Longrightarrow> ws_step s (ws_on_write ok sent (s\<lparr>ws_writing := n\<rparr>))"

inductive ws_reachable :: "ws_session \<Rightarrow> bool" where
  ws_init: "ws_reachable (ws_do_accept now)"
| ws_next: "ws_reachable s \<Longrightarrow> ws_step s s' \<Longrightarrow> ws_reachable s'"

text \<open>
  The messages whose write has ended, then the queue, are what was handed in; a write is under way for
  the front of the queue or for none.
\<close>

definition ws_inv :: "ws_session \<Rightarrow> bool" where
  "ws_inv s \<longleftrightarrow>
     (\<exists>ended. ws_submitted s = ended @ send_queue s \<and> length (ws_written s) \<le> length ended
        \<and> (if ws_writing s = 0 then ws_started s = ended
           else ws_writing s = 1 \<and> send_queue s \<noteq> [] \<and> ws_started s = ended @ [hd (send_queue s)]))
     \<and> (ping_state s = 0 \<longrightarrow> last_activity s + 15 \<le> expiry s)
     \<and> (ping_state s \<noteq> 0 \<longrightarrow> last_activity s + 30 \<le> expiry s)
     \<and> last_activity s \<le> clock s
     \<and> (closed s \<longrightarrow> last_activity s + (if ws_open s then 30 else 15) \<le> clock s)"

lemma subseq_snoc: "subseq xs ys \<Longrightarrow> subseq (xs @ [x]) (ys @ [x])"
  by (rule list_emb_append_mono) auto

lemma ws_inv_step: "ws_step s s' \<Longrightarrow> ws_inv s \<Longrightarrow> ws_inv s'"
proof (induction rule: ws_step.induct)
  case (respond s message)
  then show ?case
    by (auto simp: ws_inv_def write_response_def write_queued_messages_def Let_def split: if_splits)
next
  case (write_finished s n ok sent)
  obtain ended where ended: "ws_submitted s = ended @ send_queue s" "length (ws_written s) \<le> length ended"
      "n = 0" "send_queue s \<noteq> []" "ws_started s = ended @ [hd (send_queue s)]"
    using write_finished by (auto simp: ws_inv_def split: if_splits)
  then obtain m ms where queue: "send_queue s = m # ms" by (cases "send_queue s") auto
  let ?s' = "ws_on_write ok sent (s\<lparr>ws_writing := n\<rparr>)"
  have "ws_submitted ?s' = (ended @ [m]) @ send_queue ?s'" "length (ws_written ?s') \<le> length (ended @ [m])"
      "if ws_writing ?s' = 0 then ws_started ?s' = ended @ [m]
       else ws_writing ?s' = 1 \<and> send_queue ?s' \<noteq> [] \<and> ws_started ?s' = (ended @ [m]) @ [hd (send_queue ?s')]"
    using ended queue by (simp_all add: ws_on_write_def write_queued_messages_def Let_def)
  moreover have "ping_state ?s' = ping_state s" "last_activity ?s' = last_activity s" "expiry ?s' = expiry s"
      "clock ?s' = clock s" "closed ?s' = closed s" "ws_open ?s' = ws_open s"
    by (simp_all add: ws_on_write_def write_queued_messages_def Let_def)
  moreover have "ws_inv s" by (rule write_finished.prems)
  ultimately show ?case unfolding ws_inv_def by (intro conjI exI [of _ "ended @ [m]"]) simp_all
qed (auto simp: ws_inv_def ws_on_accept_def ws_on_timer_def ws_activity_def ws_on_ping_def)

lemma ws_inv_init: "ws_inv (ws_do_accept now)"
  by (simp add: ws_inv_def ws_do_accept_def)

text \<open>A session whose write failed while other messages were waiting is stuck.\<close>

lemma ws_stuck_step:
  assumes "ws_step s s'" and "ws_writing s = 0" and "send_queue s \<noteq> []"
  shows "ws_writing s' = 0 \<and> send_queue s' \<noteq> [] \<and> ws_started s' = ws_started s"
  using assms
  by cases (simp_all add: ws_on_accept_def ws_on_timer_def ws_activity_def ws_on_ping_def write_response_def Let_def)

lemma ws_stuck_run:
  "ws_step\<^sup>*\<^sup>* s s' \<Longrightarrow> ws_writing s = 0 \<Longrightarrow> send_queue s \<noteq> [] \<Longrightarrow>
   ws_writing s' = 0 \<and> send_queue s' \<noteq> [] \<and> ws_started s' = ws_started s"
  by (induction rule: rtranclp_induct) (use ws_stuck_step in fastforce)+

interpretation ws_runs: transitions "\<lambda>s. \<exists>now. s = ws_do_accept now" ws_step ws_reachable
proof unfold_locales
  show "P s" if "ws_reachable s" "\<And>s. \<exists>now. s = ws_do_accept now \<Longrightarrow> P s"
    "\<And>s s'. ws_reachable s \<Longrightarrow> P s \<Longrightarrow> ws_step s s' \<Longrightarrow> P s'" for P s
    using that(1) by (induction rule: ws_reachable.induct) (use that(2,3) in blast)+
qed (auto intro: ws_reachable.intros)

lemma ws_reachable_inv: "ws_reachable s \<Longrightarrow> ws_inv s"
  by (rule ws_runs.invariant_holds) (auto intro: ws_inv_init ws_inv_step)

text \<open>Any text can be found in the place of a message.\<close>

lemma other_text_reachable: "\<exists>s. ws_reachable s \<and> ws_submitted s = [message] \<and> ws_written s = [other]"
proof -
  let ?s = "write_response message (ws_do_accept 0)"
  have "ws_reachable ?s" by (rule ws_next [OF ws_init respond])
  moreover have "ws_writing ?s = Suc 0"
    by (simp add: write_response_def write_queued_messages_def ws_do_accept_def)
  ultimately have "ws_reachable (ws_on_write True other (?s\<lparr>ws_writing := 0\<rparr>))"
    using ws_next write_finished by blast
  then show ?thesis
    by (intro exI conjI, assumption)
      (simp_all add: ws_on_write_def write_response_def write_queued_messages_def ws_do_accept_def)
qed

section \<open>Properties\<close>

text \<open>
  C37: as long as every endpoint answers within its handler, the pipeline is bounded: at most eight
  responses are queued and at most one read is under way, none when the queue is full.
\<close>

theorem pipeline_bounded:
  assumes "http_reachable False handle s"
  shows "length (items s) \<le> 8 \<and> reading s \<le> 1 \<and> (is_full s \<longrightarrow> reading s = 0)"
  using http_reachable_flow [OF assms] by (simp add: flow_inv_def queue_limit_def)

theorem pipeline_bounded_witness: "length (items session_run) \<le> 8 \<and> reading session_run = 1"
proof -
  have "http_reachable False (\<lambda>req. Call (0 :: nat) [] []) session_run" by (rule http_init)
  then show ?thesis using pipeline_bounded by (auto simp: session_run_def)
qed

text \<open>Requests to an endpoint that answers later, and their answers.\<close>

definition late_endpoint :: "http_request \<Rightarrow> nat reply" where
  "late_endpoint req = Call 0 (req_body req) []"

definition late_answer :: http_response where
  "late_answer = json_response 11 True ''work''"

abbreviation with_pending :: "nat \<Rightarrow> http_session" where
  "with_pending n \<equiv> session_run\<lparr>pending := n, received := replicate n (demo_get ''/'')\<rparr>"

lemma session_run_simps [simp]:
  "items session_run = []" "reading session_run = 1" "writing session_run = 0" "client_version session_run = 11"
  "client_keepalive session_run = True" "pending session_run = 0" "stopped session_run = False"
  "received session_run = []" "submitted session_run = []" "written session_run = []"
  by (simp_all add: session_run_def session_read_def)

lemma reach_pending: "http_reachable True late_endpoint (with_pending n)"
proof (induction n)
  case 0
  have "with_pending 0 = session_run" by (simp add: session_run_def session_read_def)
  then show ?case using http_init by metis
next
  case (Suc n)
  have "http_step True late_endpoint (with_pending n)
      (on_read late_endpoint (Read_request (demo_get ''/'') None) ((with_pending n)\<lparr>reading := 0\<rparr>))"
    by (rule http_step.read_done) simp_all
  moreover have "on_read late_endpoint (Read_request (demo_get ''/'') None) ((with_pending n)\<lparr>reading := 0\<rparr>)
      = with_pending (Suc n)"
    by (simp add: late_endpoint_def Let_def is_full_def session_read_def demo_get_def queue_limit_def
        session_run_def replicate_append_same [symmetric])
  ultimately show ?case using Suc http_next by metis
qed

abbreviation with_answers :: "nat \<Rightarrow> nat \<Rightarrow> http_session" where
  "with_answers n k \<equiv> (with_pending n)\<lparr>pending := n - k, items := replicate k late_answer,
     submitted := replicate k late_answer, writing := (if k = 0 then 0 else 1)\<rparr>"

lemma reach_answers: "k \<le> n \<Longrightarrow> http_reachable True late_endpoint (with_answers n k)"
proof (induction k)
  case 0
  have "with_answers n 0 = with_pending n" by (simp add: session_run_def session_read_def)
  then show ?case using reach_pending by metis
next
  case (Suc k)
  have "pending (with_answers n k) = Suc (n - Suc k)" using Suc.prems by simp
  then have "http_step True late_endpoint (with_answers n k)
      (write_json_response ''work'' ((with_answers n k)\<lparr>pending := n - Suc k\<rparr>))"
    by (rule http_step.answer_later)
  moreover have "write_json_response ''work'' ((with_answers n k)\<lparr>pending := n - Suc k\<rparr>) = with_answers n (Suc k)"
    by (cases k) (simp_all add: write_json_response_def queue_send_def start_write_def Let_def late_answer_def
        replicate_append_same)
  ultimately show ?case using Suc http_next by (metis Suc_leD)
qed

text \<open>
  C38: endpoints that answer later, as the work endpoint does, break both bounds. Reads go on while no
  answer is queued, so any number of answers can come; and once the queue has filled up under a
  pending read, the next completed write starts a second read beside the first one.
\<close>

theorem pipeline_unbounded_with_late_answers:
  "(\<exists>s. http_reachable True late_endpoint s \<and> length (items s) = n)
   \<and> (\<exists>s. http_reachable True late_endpoint s \<and> reading s = 2)"
proof -
  have "http_reachable True late_endpoint (with_answers n n)" by (rule reach_answers) simp
  then have "\<exists>s. http_reachable True late_endpoint s \<and> length (items s) = n"
    by (intro exI [of _ "with_answers n n"]) simp
  moreover have "http_reachable True late_endpoint (with_answers 8 8)" by (rule reach_answers) simp
  then have "http_reachable True late_endpoint (on_write Write_ok ((with_answers 8 8)\<lparr>writing := 0\<rparr>))"
    by (rule http_next) (rule http_step.write_done, simp)
  moreover have "reading (on_write Write_ok ((with_answers 8 8)\<lparr>writing := 0\<rparr>)) = 2"
    by (simp add: queue_on_write_def is_full_def queue_limit_def start_write_def late_answer_def json_response_def Let_def)
  ultimately show ?thesis by blast
qed

text \<open>
  Responses do not follow the order of the requests. A client that pipelines a request to the
  work endpoint and then one to an endpoint that answers at once gets the second answer first.
\<close>

theorem pipelined_answers_out_of_order:
  "\<exists>s. http_reachable True late_endpoint s \<and> received s = [demo_get ''/'', demo_get ''/ping'']
     \<and> submitted s = [json_response 11 True ''pong'', json_response 11 True ''work'']
     \<and> written s = [json_response 11 True ''pong'']"
proof -
  let ?pong = "json_response 11 True ''pong''" and ?ping = "demo_get ''/ping''"
  let ?s1 = "(with_pending 1)\<lparr>received := [demo_get ''/'', ?ping], items := [?pong], submitted := [?pong], writing := 1\<rparr>"
  have "http_step True late_endpoint (with_pending 1)
      (on_read late_endpoint (Read_request ?ping (Some ''pong'')) ((with_pending 1)\<lparr>reading := 0\<rparr>))"
    by (rule http_step.read_done) simp_all
  moreover have "on_read late_endpoint (Read_request ?ping (Some ''pong'')) ((with_pending 1)\<lparr>reading := 0\<rparr>) = ?s1"
    by (simp add: late_endpoint_def Let_def is_full_def session_read_def demo_get_def queue_limit_def
        session_run_def write_json_response_def queue_send_def start_write_def)
  ultimately have s1: "http_reachable True late_endpoint ?s1" using reach_pending http_next by metis
  let ?s2 = "on_write Write_ok (?s1\<lparr>writing := 0\<rparr>)"
  have s2: "http_reachable True late_endpoint ?s2"
    by (rule http_next [OF s1]) (rule http_step.write_done, simp)
  let ?t2 = "(with_pending 1)\<lparr>received := [demo_get ''/'', ?ping], items := [], submitted := [?pong],
      writing := 0, written := [?pong]\<rparr>"
  have "?s2 = ?t2"
    by (simp add: queue_on_write_def is_full_def queue_limit_def json_response_def Let_def)
  then have t2: "http_reachable True late_endpoint ?t2" using s2 by (simp only:)
  have "http_reachable True late_endpoint (write_json_response ''work'' (?t2\<lparr>pending := 0\<rparr>))"
    by (rule http_next [OF t2]) (rule http_step.answer_later, simp)
  then show ?thesis
    by (intro exI [of _ "write_json_response ''work'' (?t2\<lparr>pending := 0\<rparr>)"])
      (simp add: write_json_response_def)
qed

text \<open>
  C30: writes of a WebSocket session. They are started one at a time, for the messages in the order in
  which they were handed to the session, none left out and none twice; after a write that failed while
  other messages waited none is ever started again. Which text a write sends is another matter: the
  buffer refers to a string that is gone, so for any message a text that has nothing to do with it can
  be what the socket is given. And the timer closes an open connection only when nothing has been
  heard from the other side for thirty seconds.
\<close>

theorem websocket_session_correct:
  assumes "ws_reachable s"
  shows "prefix (ws_started s) (ws_submitted s) \<and> ws_writing s \<le> 1
    \<and> length (ws_written s) \<le> length (ws_started s)
    \<and> (ws_writing s = 0 \<and> send_queue s \<noteq> [] \<longrightarrow> (\<forall>s'. ws_step\<^sup>*\<^sup>* s s' \<longrightarrow> ws_started s' = ws_started s))
    \<and> (\<exists>s'. ws_reachable s' \<and> ws_submitted s' = [message] \<and> ws_written s' = [other])
    \<and> (closed s \<and> ws_open s \<longrightarrow> last_activity s + 30 \<le> clock s)"
proof -
  have inv: "ws_inv s" by (rule ws_reachable_inv [OF assms])
  then obtain ended where ended: "ws_submitted s = ended @ send_queue s" "length (ws_written s) \<le> length ended"
      "if ws_writing s = 0 then ws_started s = ended
       else ws_writing s = 1 \<and> send_queue s \<noteq> [] \<and> ws_started s = ended @ [hd (send_queue s)]"
    unfolding ws_inv_def by blast
  then have "prefix (ws_started s) (ws_submitted s) \<and> ws_writing s \<le> 1 \<and> length (ws_written s) \<le> length (ws_started s)"
    by (cases "send_queue s") (auto split: if_splits)
  moreover have "closed s \<and> ws_open s \<longrightarrow> last_activity s + 30 \<le> clock s" using inv by (auto simp: ws_inv_def)
  moreover have "ws_writing s = 0 \<and> send_queue s \<noteq> [] \<longrightarrow> (\<forall>s'. ws_step\<^sup>*\<^sup>* s s' \<longrightarrow> ws_started s' = ws_started s)"
    using ws_stuck_run [of s] by blast
  ultimately show ?thesis using other_text_reachable [of message other] by (elim conjE) (intro conjI, assumption+)
qed

text \<open>Two messages of which the first cannot be written: the second one stays.\<close>

definition stuck_session :: ws_session where
  "stuck_session = ws_on_write False [] ((write_response ''b'' (write_response ''a'' (ws_do_accept 0)))\<lparr>ws_writing := 0\<rparr>)"

theorem websocket_session_correct_witness:
  "ws_reachable stuck_session \<and> ws_submitted stuck_session = [''a'', ''b'']
   \<and> {s'. ws_step\<^sup>*\<^sup>* stuck_session s'} \<subseteq> {s'. ws_started s' = [''a'']}"
proof -
  have two: "ws_reachable (write_response ''b'' (write_response ''a'' (ws_do_accept 0)))"
    by (rule ws_next [OF ws_next [OF ws_init respond] respond])
  have one: "ws_writing (write_response ''b'' (write_response ''a'' (ws_do_accept 0))) = Suc 0"
    by (simp add: write_response_def write_queued_messages_def ws_do_accept_def)
  have reach: "ws_reachable stuck_session" unfolding stuck_session_def
    by (rule ws_next [OF two write_finished [OF one]])
  have stuck: "ws_writing stuck_session = 0" "send_queue stuck_session = [''b'']" "ws_started stuck_session = [''a'']"
      "ws_submitted stuck_session = [''a'', ''b'']"
    by (simp_all add: stuck_session_def ws_on_write_def write_response_def write_queued_messages_def ws_do_accept_def)
  from websocket_session_correct [OF reach, of "[]" "[]"]
  have "ws_writing stuck_session = 0 \<and> send_queue stuck_session \<noteq> [] \<longrightarrow>
      (\<forall>s'. ws_step\<^sup>*\<^sup>* stuck_session s' \<longrightarrow> ws_started s' = ws_started stuck_session)"
    by (elim conjE)
  then have "{s'. ws_step\<^sup>*\<^sup>* stuck_session s'} \<subseteq> {s'. ws_started s' = [''a'']}"
    using stuck by (simp add: Collect_mono_iff)
  then show ?thesis using reach stuck by simp
qed

end
