(* ===== verification/Races.thy ===== *)
theory Races
  imports Sessions
begin

text \<open>
  The HTTP pipeline without its strand. \<open>src/entry/nano_pow_server.cpp\<close> calls \<open>write_json_response\<close>
  from a thread of the pool of the work server, while the handlers of the session
  (\<open>src/workserver/webserver.hpp\<close>) run on its strand. Here the two accesses that \<open>queue::operator()\<close>
  makes to the queue are steps of their own, and everything else can come between them. Calls
  from the strand itself stay one step, and so does each access. What goes wrong, and the conditions
  under which nothing does, are the two properties of this theory.
\<close>

section \<open>The two halves of \<open>queue::operator()\<close>\<close>

definition queue_append :: "http_response \<Rightarrow> http_session \<Rightarrow> http_session" where
  "queue_append msg s = s\<lparr>items := items s @ [msg], submitted := submitted s @ [msg]\<rparr>"

definition queue_start :: "http_session \<Rightarrow> http_session" where
  "queue_start s = (if length (items s) = 1 then start_write s else s)"

lemma queue_send_halves: "queue_send msg s = queue_start (queue_append msg s)"
  by (simp add: queue_send_def queue_append_def queue_start_def Let_def)

text \<open>\<open>between\<close> counts the threads of the pool that are between the two halves.\<close>

record race =
  session :: http_session
  between :: nat

definition race_init :: race where
  "race_init = \<lparr>session = session_run, between = 0\<rparr>"

definition race_append :: "string \<Rightarrow> race \<Rightarrow> race" where
  "race_append text_l r =
     (let s = session r in
      \<lparr>session = queue_append (json_response (client_version s) (client_keepalive s) text_l) s,
       between = Suc (between r)\<rparr>)"

definition race_start :: "race \<Rightarrow> race" where
  "race_start r = \<lparr>session = queue_start (session r), between = between r - 1\<rparr>"

text \<open>
  With the switch \<open>strand\<close> nothing comes between the halves, as if \<open>write_json_response\<close> were posted to
  the strand, which the WebSocket session does in \<open>write_response\<close>.
\<close>

inductive race_step :: "bool \<Rightarrow> (http_request \<Rightarrow> 'h reply) \<Rightarrow> race \<Rightarrow> race \<Rightarrow> bool" for strand handle where
  race_read: "strand \<longrightarrow> between r = 0 \<Longrightarrow> reading (session r) = Suc n \<Longrightarrow>
    race_step strand handle r (r\<lparr>session := on_read handle ev ((session r)\<lparr>reading := n\<rparr>)\<rparr>)"
| race_write: "strand \<longrightarrow> between r = 0 \<Longrightarrow> writing (session r) = Suc n \<Longrightarrow>
    race_step strand handle r (r\<lparr>session := on_write ev ((session r)\<lparr>writing := n\<rparr>)\<rparr>)"
| race_first: "strand \<longrightarrow> between r = 0 \<Longrightarrow> pending (session r) = Suc n \<Longrightarrow>
    race_step strand handle r (race_append text_l (r\<lparr>session := (session r)\<lparr>pending := n\<rparr>\<rparr>))"
| race_second: "0 < between r \<Longrightarrow> race_step strand handle r (race_start r)"

inductive race_reachable :: "bool \<Rightarrow> (http_request \<Rightarrow> 'h reply) \<Rightarrow> race \<Rightarrow> bool" for strand handle where
  race_begin: "race_reachable strand handle race_init"
| race_next: "race_reachable strand handle r \<Longrightarrow> race_step strand handle r r' \<Longrightarrow> race_reachable strand handle r'"

inductive_cases race_stepE: "race_step strand handle r r'"

interpretation race_runs: transitions "\<lambda>r. r = race_init" "race_step strand handle" "race_reachable strand handle"
  for strand handle
proof unfold_locales
  show "P r" if "race_reachable strand handle r" "\<And>r. r = race_init \<Longrightarrow> P r"
    "\<And>r r'. race_reachable strand handle r \<Longrightarrow> P r \<Longrightarrow> race_step strand handle r r' \<Longrightarrow> P r'" for P r
    using that(1) by (induction rule: race_reachable.induct) (use that(2,3) in blast)+
qed (auto intro: race_reachable.intros)

section \<open>On the strand\<close>

text \<open>The pipeline that a state stands for: a thread between the halves has in effect done both.\<close>

definition settled :: "race \<Rightarrow> http_session" where
  "settled r = (if between r = 0 then session r else queue_start (session r))"

lemma between_at_most_one: "race_reachable True handle r \<Longrightarrow> between r \<le> 1"
proof (induction rule: race_runs.reach_induct)
  case (by_step r r')
  from \<open>race_step True handle r r'\<close> show ?case
    by (rule race_stepE) (use by_step.IH in \<open>auto simp: race_append_def race_start_def Let_def\<close>)
qed (simp add: race_init_def)

lemma strand_simulates:
  assumes "race_reachable True handle r" and "race_step True handle r r'"
  shows "(http_step True handle)\<^sup>=\<^sup>= (settled r) (settled r')"
  using assms(2)
proof cases
  case (race_read n ev)
  then have "settled r = session r" "settled r' = on_read handle ev ((session r)\<lparr>reading := n\<rparr>)"
    by (simp_all add: settled_def)
  then show ?thesis using race_read http_step.read_done [of "session r" n True ev handle] by simp
next
  case (race_write n ev)
  then have "settled r = session r" "settled r' = on_write ev ((session r)\<lparr>writing := n\<rparr>)"
    by (simp_all add: settled_def)
  then show ?thesis using race_write http_step.write_done [of "session r" n True handle ev] by simp
next
  case (race_first n text_l)
  then have "settled r = session r" "settled r' = write_json_response text_l ((session r)\<lparr>pending := n\<rparr>)"
    by (simp_all add: settled_def race_append_def Let_def write_json_response_def queue_send_halves)
  then show ?thesis using race_first http_step.answer_later [of "session r" n True handle text_l] by simp
next
  case race_second
  then have "between r = 1" using between_at_most_one [OF assms(1)] by simp
  then have "settled r' = settled r" using race_second by (simp add: settled_def race_start_def)
  then show ?thesis by simp
qed

interpretation on_strand: simulation "\<lambda>r. r = race_init" "race_step True handle" "race_reachable True handle"
    session_run "http_step True handle" settled for handle
proof unfold_locales
  show "settled r = session_run" if "r = race_init" for r
    using that by (simp add: race_init_def settled_def)
qed (rule strand_simulates)

lemma http_run_reachable: "(http_step later handle)\<^sup>*\<^sup>* session_run s \<Longrightarrow> http_reachable later handle s"
  using http_runs.reach_run http_init by blast

text \<open>Conversely, every run of the pipeline is a run of the halves, on the strand or not.\<close>

abbreviation at_rest :: "http_session \<Rightarrow> race" where
  "at_rest s \<equiv> \<lparr>session = s, between = 0\<rparr>"

lemma pipeline_run: "http_reachable True handle s \<Longrightarrow> race_reachable strand handle (at_rest s)"
proof (induction rule: http_runs.reach_induct)
  case (at_start s)
  then show ?case using race_begin by (simp add: race_init_def)
next
  case (by_step s s')
  from \<open>http_step True handle s s'\<close> show ?case
  proof (rule http_stepE)
    fix n ev assume "reading s = Suc n" and s': "s' = on_read handle ev (s\<lparr>reading := n\<rparr>)"
    then have "race_step strand handle (at_rest s) (at_rest s')"
      using race_step.race_read [of strand "at_rest s" n handle ev] by simp
    with by_step.IH show ?thesis by (rule race_next)
  next
    fix n ev assume "writing s = Suc n" and s': "s' = on_write ev (s\<lparr>writing := n\<rparr>)"
    then have "race_step strand handle (at_rest s) (at_rest s')"
      using race_step.race_write [of strand "at_rest s" n handle ev] by simp
    with by_step.IH show ?thesis by (rule race_next)
  next
    fix n text_l assume "pending s = Suc n" and s': "s' = write_json_response text_l (s\<lparr>pending := n\<rparr>)"
    let ?r = "race_append text_l (at_rest (s\<lparr>pending := n\<rparr>))"
    have "race_step strand handle (at_rest s) ?r"
      using race_step.race_first [of strand "at_rest s" n handle text_l] \<open>pending s = Suc n\<close> by simp
    with by_step.IH have "race_reachable strand handle ?r" by (rule race_next)
    moreover have "race_step strand handle ?r (race_start ?r)"
      by (rule race_step.race_second) (simp add: race_append_def Let_def)
    moreover have "race_start ?r = at_rest s'"
      by (simp add: s' race_start_def race_append_def Let_def write_json_response_def queue_send_halves)
    ultimately show ?thesis using race_next by metis
  qed
qed

text \<open>
  How the relation of the theory \<open>Sessions\<close>, with its call in one step, is related to this one: its
  states are those that are reached here when nothing comes between the halves, as if the answers of
  the pool were posted to the strand.
\<close>

theorem strand_restores_pipeline:
  "race_reachable True handle \<lparr>session = s, between = 0\<rparr> \<longleftrightarrow> http_reachable True handle s"
proof
  assume "race_reachable True handle (at_rest s)"
  then have "(http_step True handle)\<^sup>*\<^sup>* session_run (settled (at_rest s))" by (rule on_strand.run_refines)
  then show "http_reachable True handle s" by (intro http_run_reachable) (simp add: settled_def)
qed (rule pipeline_run)

section \<open>Without the strand\<close>

text \<open>The effects of the steps on what the queue consists of.\<close>

lemma silent_step:
  assumes "race_step strand handle r r'" and "2 \<le> length (items (session r))" and "writing (session r) = 0"
  shows "2 \<le> length (items (session r')) \<and> writing (session r') = 0 \<and> written (session r') = written (session r)"
  using assms(1)
proof cases
  case (race_read n ev)
  then show ?thesis using assms(2,3)
    by (cases ev) (auto simp: Let_def write_json_response_def split: reply.splits option.splits)
qed (use assms(2,3) in \<open>auto simp: race_append_def race_start_def queue_append_def queue_start_def Let_def\<close>)

lemma silent_run:
  "(race_step strand handle)\<^sup>*\<^sup>* r r' \<Longrightarrow> 2 \<le> length (items (session r)) \<Longrightarrow> writing (session r) = 0 \<Longrightarrow>
   2 \<le> length (items (session r')) \<and> writing (session r') = 0 \<and> written (session r') = written (session r)"
  by (induction rule: rtranclp_induct) (use silent_step in fastforce)+

abbreviation late_reachable :: "race \<Rightarrow> bool" where
  "late_reachable \<equiv> race_reachable False late_endpoint"

lemma late_append:
  "late_reachable r \<Longrightarrow> pending (session r) = Suc n \<Longrightarrow>
   late_reachable (race_append ''work'' (r\<lparr>session := (session r)\<lparr>pending := n\<rparr>\<rparr>))"
  by (rule race_next) (auto intro: race_step.race_first)

lemma late_start: "late_reachable r \<Longrightarrow> 0 < between r \<Longrightarrow> late_reachable (race_start r)"
  by (rule race_next) (auto intro: race_step.race_second)

lemma late_write:
  "late_reachable r \<Longrightarrow> writing (session r) = Suc n \<Longrightarrow>
   late_reachable (r\<lparr>session := on_write Write_ok ((session r)\<lparr>writing := n\<rparr>)\<rparr>)"
  by (rule race_next, assumption, rule race_step.race_write) simp_all

lemmas race_effects = race_append_def race_start_def queue_append_def queue_start_def queue_on_write_def
  start_write_def is_full_def queue_limit_def late_answer_def json_response_def Let_def

text \<open>Two threads append before either of them looks at the size of the queue.\<close>

definition silent_race :: race where
  "silent_race = \<lparr>session = (with_pending 2)\<lparr>pending := 0, items := [late_answer, late_answer],
     submitted := [late_answer, late_answer]\<rparr>, between = 0\<rparr>"

lemma silent_race_reachable: "late_reachable silent_race"
proof -
  have "late_reachable (race_append ''work'' (race_append ''work'' (at_rest ((with_pending 2)\<lparr>pending := 0\<rparr>))))"
    using late_append [OF late_append [OF pipeline_run [OF reach_pending [of 2]], of 1], of 0]
    by (simp add: race_effects)
  then have "late_reachable (race_start (race_start (race_append ''work'' (race_append ''work''
      (at_rest ((with_pending 2)\<lparr>pending := 0\<rparr>))))))"
    by (intro late_start) (simp_all add: race_effects)
  then show ?thesis by (simp add: silent_race_def race_effects)
qed

text \<open>A thread appends the second answer; the write of the first one completes; the thread goes on.\<close>

definition double_race :: race where
  "double_race = \<lparr>session = (with_answers 2 2)\<lparr>written := [late_answer], items := [late_answer], writing := 2\<rparr>,
     between = 0\<rparr>"

lemma double_race_reachable: "late_reachable double_race"
proof -
  let ?r = "race_append ''work'' (at_rest ((with_answers 2 1)\<lparr>pending := 0\<rparr>))"
  have r: "late_reachable ?r"
    using late_append [OF pipeline_run [OF reach_answers [of 1 2]], of 0] by simp
  have "writing (session ?r) = Suc 0" by (simp add: race_effects)
  with r have "late_reachable (race_start (?r\<lparr>session := on_write Write_ok ((session ?r)\<lparr>writing := 0\<rparr>)\<rparr>))"
    by (intro late_start late_write) (simp_all add: race_effects)
  then show ?thesis by (simp add: double_race_def race_effects numeral_2_eq_2)
qed

text \<open>
  C15: without the strand a connection can fail in two ways, with requests to the work endpoint that a
  client pipelines. When two answers are appended before either thread looks at the size of the
  queue, neither starts a write, and nothing is ever written on the connection, whatever happens
  afterwards. And when a write completes between the halves, the same response is written twice at
  once, after which a completion finds the queue empty, where it erases the front element.
\<close>

theorem races_break_pipeline:
  "(\<exists>r. race_reachable False late_endpoint r \<and> length (submitted (session r)) = 2 \<and>
      \<not> (\<exists>r'. (race_step False late_endpoint)\<^sup>*\<^sup>* r r' \<and> written (session r') \<noteq> []))
   \<and> (\<exists>r. race_reachable False late_endpoint r \<and> length (items (session r)) = 1 \<and> writing (session r) = 2)
   \<and> (\<exists>r. race_reachable False late_endpoint r \<and> items (session r) = [] \<and> writing (session r) = 1)"
proof (intro conjI)
  have "written (session r') = []" if "(race_step False late_endpoint)\<^sup>*\<^sup>* silent_race r'" for r'
    using silent_run [OF that] by (simp add: silent_race_def)
  then show "\<exists>r. late_reachable r \<and> length (submitted (session r)) = 2 \<and>
      \<not> (\<exists>r'. (race_step False late_endpoint)\<^sup>*\<^sup>* r r' \<and> written (session r') \<noteq> [])"
    by (intro exI [of _ silent_race] conjI silent_race_reachable) (auto simp: silent_race_def)
  show "\<exists>r. late_reachable r \<and> length (items (session r)) = 1 \<and> writing (session r) = 2"
    by (intro exI [of _ double_race] conjI double_race_reachable) (simp_all add: double_race_def)
  let ?r = "double_race\<lparr>session := on_write Write_ok ((session double_race)\<lparr>writing := 1\<rparr>)\<rparr>"
  have "late_reachable ?r"
    by (rule late_write [OF double_race_reachable]) (simp add: double_race_def)
  then show "\<exists>r. late_reachable r \<and> items (session r) = [] \<and> writing (session r) = 1"
    by (intro exI [of _ ?r] conjI) (simp_all add: double_race_def race_effects)
qed

section \<open>Sessions that are not raced\<close>

text \<open>
  The runs, still without the strand, in which a request is read only when it cannot be raced. With
  \<open>late\<close> any endpoint may answer later, and a request is read only when nothing else of the connection
  is going on: no response is queued (the handler of the previous write has run), none is pending,
  and no thread is between the halves. Otherwise requests may be pipelined, but only to endpoints
  that answer within their handler.
\<close>

definition quiet :: "race \<Rightarrow> bool" where
  "quiet r \<longleftrightarrow> items (session r) = [] \<and> pending (session r) = 0 \<and> between r = 0"

inductive serial_reachable :: "bool \<Rightarrow> (http_request \<Rightarrow> 'h reply) \<Rightarrow> race \<Rightarrow> bool" for late handle where
  serial_begin: "serial_reachable late handle race_init"
| serial_next: "serial_reachable late handle r \<Longrightarrow> race_step False handle r r' \<Longrightarrow>
    received (session r') = received (session r) \<or> (if late then quiet r else pending (session r') = 0) \<Longrightarrow>
    serial_reachable late handle r'"

text \<open>A write is under way, or about to be started, exactly when something is queued.\<close>

definition serial_inv :: "bool \<Rightarrow> race \<Rightarrow> bool" where
  "serial_inv late r \<longleftrightarrow> (let s = session r in
     prefix (written s) (submitted s)
     \<and> (if late then pending s + length (items s) \<le> 1 else pending s = 0 \<and> between r = 0)
     \<and> length (received s) = length (submitted s) + pending s
     \<and> (if stopped s then items s \<noteq> [] \<and> writing s = 0 \<and> between r = 0
        else submitted s = written s @ items s \<and> writing s + between r = (if items s = [] then 0 else 1)))"

lemma serial_inv_init: "serial_inv late race_init"
  by (simp add: serial_inv_def race_init_def)

lemma serial_inv_read:
  assumes "serial_inv late r" and "reading (session r) = Suc n"
    and r': "r' = r\<lparr>session := on_read handle ev ((session r)\<lparr>reading := n\<rparr>)\<rparr>"
    and guard: "received (session r') = received (session r) \<or> (if late then quiet r else pending (session r') = 0)"
  shows "serial_inv late r'"
proof (cases ev)
  case (Read_request req immediate)
  let ?s = "session r"
  have "received (session r') \<noteq> received ?s"
    by (auto simp: r' Read_request Let_def split: reply.splits option.splits)
  then have free: "if late then quiet r else pending (session r') = 0" using guard by simp
  have pend: "\<exists>t. immediate = Some t" if "handle req = Call h body params" "\<not> late" for h body params
    using free that by (cases immediate) (auto simp: r' Read_request Let_def split: if_splits)
  show ?thesis
  proof (cases late)
    case True
    then have "items ?s = []" "pending ?s = 0" "between r = 0" using free by (simp_all add: quiet_def)
    then show ?thesis using assms(1) True
      by (auto simp: serial_inv_def r' Read_request Let_def write_json_response_def split: reply.splits option.splits if_splits)
  next
    case False
    then show ?thesis using assms(1) pend
      by (auto simp: serial_inv_def r' Read_request Let_def write_json_response_def intro: prefix_prefix
          split: reply.splits option.splits if_splits)
  qed
qed (use assms(1) in \<open>auto simp: serial_inv_def r' Let_def split: if_splits\<close>)

lemma serial_inv_step:
  assumes "race_step False handle r r'" and "serial_inv late r"
    and "received (session r') = received (session r) \<or> (if late then quiet r else pending (session r') = 0)"
  shows "serial_inv late r'"
  using assms(1)
proof cases
  case (race_read n ev)
  then show ?thesis by (intro serial_inv_read [OF assms(2) _ _ assms(3)])
next
  case (race_write n ev)
  then obtain m ms where items: "items (session r) = m # ms"
    using assms(2) by (cases "items (session r)") (auto simp: serial_inv_def Let_def split: if_splits)
  then have run: "\<not> stopped (session r)" "n = 0" "between r = 0"
    using assms(2) race_write by (auto simp: serial_inv_def Let_def split: if_splits)
  show ?thesis using assms(2) items run unfolding race_write(1)
    by (cases ev) (auto simp: serial_inv_def queue_on_write_def start_write_def Let_def split: if_splits)
next
  case (race_first n text_l)
  then have "late" "items (session r) = []"
    using assms(2) by (cases "items (session r)"; simp add: serial_inv_def Let_def split: if_splits)+
  then show ?thesis using assms(2) race_first
    by (auto simp: serial_inv_def race_append_def queue_append_def Let_def split: if_splits)
next
  case race_second
  then obtain m where "items (session r) = [m]" "between r = 1" "writing (session r) = 0" "\<not> stopped (session r)"
    using assms(2) by (cases "items (session r)") (auto simp: serial_inv_def Let_def split: if_splits)
  then show ?thesis using assms(2) unfolding race_second(1)
    by (auto simp: serial_inv_def race_start_def queue_start_def start_write_def Let_def split: if_splits)
qed

lemma serial_reachable_inv: "serial_reachable late handle r \<Longrightarrow> serial_inv late r"
  by (induction rule: serial_reachable.induct) (auto intro: serial_inv_init serial_inv_step)

text \<open>
  C27: when responses come in order. The pool's threads call \<open>queue::operator()\<close> off the strand, as in
  C15. But when each request is read only after the previous one is dealt with (its response written
  and the handler of that write run), or when all endpoints that are asked answer within their
  handler, then every request that was read has one response or is pending; the responses are written
  one at a time, in the order in which they were handed to the session, none lost and none twice; and
  while the connection works, what was handed in is what was written followed by what is queued, and a
  write is under way or about to be started exactly when something is queued.
\<close>

theorem responses_in_order:
  assumes "serial_reachable late handle r"
  shows "prefix (written (session r)) (submitted (session r))
    \<and> length (received (session r)) = length (submitted (session r)) + pending (session r)
    \<and> (\<not> stopped (session r) \<longrightarrow> submitted (session r) = written (session r) @ items (session r))
    \<and> writing (session r) + between r = (if items (session r) = [] \<or> stopped (session r) then 0 else 1)"
  using serial_reachable_inv [OF assms] by (simp add: serial_inv_def Let_def split: if_splits)

text \<open>A whole exchange: a request that is answered by the pool, and the write of its answer.\<close>

definition exchanged :: race where
  "exchanged = at_rest ((with_pending 1)\<lparr>pending := 0, submitted := [late_answer], written := [late_answer]\<rparr>)"

lemma late_serial:
  "serial_reachable True handle r \<Longrightarrow> race_step False handle r r' \<Longrightarrow>
   received (session r') = received (session r) \<or> quiet r \<Longrightarrow> serial_reachable True handle r'"
  by (rule serial_next) simp_all

lemma exchanged_reachable: "serial_reachable True late_endpoint exchanged"
proof -
  let ?r1 = "at_rest (with_pending 1)"
  let ?r2 = "race_append ''work'' (?r1\<lparr>session := (session ?r1)\<lparr>pending := 0\<rparr>\<rparr>)"
  let ?r3 = "race_start ?r2"
  let ?r4 = "?r3\<lparr>session := on_write Write_ok ((session ?r3)\<lparr>writing := 0\<rparr>)\<rparr>"
  have r1: "race_init\<lparr>session := on_read late_endpoint (Read_request (demo_get ''/'') None) ((session race_init)\<lparr>reading := 0\<rparr>)\<rparr> = ?r1"
    by (simp add: race_init_def late_endpoint_def Let_def is_full_def session_read_def demo_get_def queue_limit_def session_run_def)
  have "race_step False late_endpoint race_init ?r1"
    unfolding r1 [symmetric] by (rule race_step.race_read) (simp_all add: race_init_def)
  with serial_begin have "serial_reachable True late_endpoint ?r1"
    by (rule late_serial) (simp add: quiet_def race_init_def)
  moreover have "race_step False late_endpoint ?r1 ?r2" by (rule race_step.race_first) simp_all
  ultimately have "serial_reachable True late_endpoint ?r2"
    by (rule late_serial) (simp add: race_effects)
  moreover have "race_step False late_endpoint ?r2 ?r3"
    by (rule race_step.race_second) (simp add: race_append_def Let_def)
  ultimately have "serial_reachable True late_endpoint ?r3"
    by (rule late_serial) (simp add: race_effects)
  moreover have "race_step False late_endpoint ?r3 ?r4"
    by (rule race_step.race_write) (simp_all add: race_effects)
  ultimately have "serial_reachable True late_endpoint ?r4"
    by (rule late_serial) (simp add: race_effects)
  moreover have "?r4 = exchanged" by (simp add: race_effects exchanged_def)
  ultimately show ?thesis by simp
qed

theorem responses_in_order_witness:
  "serial_reachable True late_endpoint exchanged \<and> length (received (session exchanged)) = 1
   \<and> written (session exchanged) = [late_answer]
   \<and> submitted (session exchanged) = written (session exchanged) @ items (session exchanged)"
  using responses_in_order [OF exchanged_reachable] exchanged_reachable
  by (simp add: exchanged_def)

end
