(* ===== verification/Logging.thy ===== *)
theory Logging
  imports Decimal
begin

text \<open>
  The log of the server: the logger that \<open>main\<close> builds, with a rotating file and the standard error
  stream behind it (\<open>src/deps/spdlog\<close>: \<open>logger\<close>, \<open>rotating_file_sink\<close>, \<open>file_helper\<close>). Every part of the program
  logs through it, from all threads; a sink does its work under its mutex, so one call is one step.
  The other theories leave logging out; here it is shown that they can.
\<close>

section \<open>The operating system\<close>

text \<open>
  A disk maps names to contents. Whether a system call succeeds is decided by the \<open>script\<close>, one entry
  per call; a write that fails may have written some bytes. Beyond the script, calls succeed.
\<close>

datatype os_outcome = Works | Fails nat

record disk =
  files :: "string \<rightharpoonup> string"
  script :: "os_outcome list"

definition consult :: "disk \<Rightarrow> os_outcome \<times> disk" where
  "consult d = (case script d of [] \<Rightarrow> (Works, d) | x # xs \<Rightarrow> (x, d\<lparr>script := xs\<rparr>))"

definition file_exists :: "string \<Rightarrow> disk \<Rightarrow> bool" where
  "file_exists fname_l d \<longleftrightarrow> files d fname_l \<noteq> None"

definition os_remove :: "string \<Rightarrow> disk \<Rightarrow> disk" where
  "os_remove fname_l d =
     (case consult d of
        (Works, d') \<Rightarrow> d'\<lparr>files := (files d')(fname_l := None)\<rparr>
      | (Fails _, d') \<Rightarrow> d')"

text \<open>\<open>os_rename\<close> returns whether the result is 0, \<open>os_fopen\<close> whether there is a stream (\<open>fopen_s\<close> returns that there is none).\<close>

definition os_rename :: "string \<Rightarrow> string \<Rightarrow> disk \<Rightarrow> bool \<times> disk" where
  "os_rename src target_l d =
     (case consult d of
        (Works, d') \<Rightarrow>
          (case files d' src of
             None \<Rightarrow> (False, d')
           | Some t \<Rightarrow> (True, d'\<lparr>files := (files d')(target_l \<mapsto> t, src := None)\<rparr>))
      | (Fails _, d') \<Rightarrow> (False, d'))"

definition os_fopen :: "string \<Rightarrow> bool \<Rightarrow> disk \<Rightarrow> bool \<times> disk" where
  "os_fopen fname_l trunc_l d =
     (case consult d of
        (Works, d') \<Rightarrow>
          (True, d'\<lparr>files := (files d')(fname_l \<mapsto>
             (if trunc_l then [] else case files d' fname_l of None \<Rightarrow> [] | Some t \<Rightarrow> t))\<rparr>)
      | (Fails _, d') \<Rightarrow> (False, d'))"

text \<open>How many bytes were written.\<close>

definition os_fwrite :: "string \<Rightarrow> string \<Rightarrow> disk \<Rightarrow> nat \<times> disk" where
  "os_fwrite fname_l text_l d =
     (let (outcome, d') = consult d;
          out = (case outcome of Works \<Rightarrow> text_l | Fails n \<Rightarrow> take n text_l)
      in (length out, d'\<lparr>files := (files d')(fname_l \<mapsto> (case files d' fname_l of None \<Rightarrow> [] | Some t \<Rightarrow> t) @ out)\<rparr>))"

section \<open>Names of log files\<close>

definition rfind :: "char \<Rightarrow> string \<Rightarrow> nat option" where
  "rfind c s = (if c \<in> set s then Some (length s - Suc (length (takeWhile (\<lambda>x. x \<noteq> c) (rev s)))) else None)"

definition split_by_extension :: "string \<Rightarrow> string \<times> string" where
  "split_by_extension fname_l =
     (case rfind (CHR ''.'') fname_l of
        None \<Rightarrow> (fname_l, [])
      | Some ext_index \<Rightarrow>
          if ext_index = 0 \<or> ext_index = length fname_l - 1 then (fname_l, [])
          else (case rfind (CHR ''/'') fname_l of
                  Some folder_index \<Rightarrow>
                    if ext_index - 1 \<le> folder_index then (fname_l, [])
                    else (take ext_index fname_l, drop ext_index fname_l)
                | None \<Rightarrow> (take ext_index fname_l, drop ext_index fname_l)))"

definition calc_filename :: "string \<Rightarrow> nat \<Rightarrow> string" where
  "calc_filename fname_l index =
     (if index = 0 then fname_l
      else let (basename, ext) = split_by_extension fname_l in basename @ ''.'' @ dec_string index @ ext)"

section \<open>The rotating file\<close>

text \<open>
  The sink with its \<open>file_helper\<close>: \<open>fd\<close> is that the stream is not null. Exceptions keep the changes made
  before them; writing through a null stream is undefined. The text of an exception is without the
  description of \<open>errno\<close> that the library appends.
\<close>

record file_sink =
  base_filename :: string
  max_size :: nat
  max_files :: nat
  current_size :: nat
  fd :: bool
  opened_name :: string
  disk_of :: disk

datatype flow = Completed | Thrown string | Undefined_write

definition and_then :: "flow \<times> file_sink \<Rightarrow> (file_sink \<Rightarrow> flow \<times> file_sink) \<Rightarrow> flow \<times> file_sink" where
  "and_then r f = (case r of (Completed, s) \<Rightarrow> f s | (Thrown what, s) \<Rightarrow> (Thrown what, s)
     | (Undefined_write, s) \<Rightarrow> (Undefined_write, s))"

definition helper_close :: "file_sink \<Rightarrow> file_sink" where
  "helper_close s = s\<lparr>fd := False\<rparr>"

fun open_loop :: "nat \<Rightarrow> bool \<Rightarrow> file_sink \<Rightarrow> flow \<times> file_sink" where
  "open_loop 0 trunc_l s = (Thrown (''Failed opening file '' @ opened_name s @ '' for writing''), s)"
| "open_loop (Suc tries) trunc_l s =
     (case os_fopen (opened_name s) trunc_l (disk_of s) of
        (True, d) \<Rightarrow> (Completed, s\<lparr>fd := True, disk_of := d\<rparr>)
      | (False, d) \<Rightarrow> open_loop tries trunc_l (s\<lparr>disk_of := d\<rparr>))"

definition helper_open :: "string \<Rightarrow> bool \<Rightarrow> file_sink \<Rightarrow> flow \<times> file_sink" where
  "helper_open fname_l trunc_l s = open_loop 5 trunc_l ((helper_close s)\<lparr>opened_name := fname_l\<rparr>)"

definition helper_reopen :: "bool \<Rightarrow> file_sink \<Rightarrow> flow \<times> file_sink" where
  "helper_reopen trunc_l s =
     (if opened_name s = [] then (Thrown ''Failed re opening file - was not opened before'', s)
      else helper_open (opened_name s) trunc_l s)"

definition helper_write :: "string \<Rightarrow> file_sink \<Rightarrow> flow \<times> file_sink" where
  "helper_write buf s =
     (if \<not> fd s then (Undefined_write, s)
      else let (written_l, d) = os_fwrite (opened_name s) buf (disk_of s) in
        if written_l \<noteq> length buf then (Thrown (''Failed writing to file '' @ opened_name s), s\<lparr>disk_of := d\<rparr>)
        else (Completed, s\<lparr>disk_of := d\<rparr>))"

definition helper_size :: "file_sink \<Rightarrow> nat" where
  "helper_size s = (case files (disk_of s) (opened_name s) of None \<Rightarrow> 0 | Some t \<Rightarrow> length t)"

definition rename_file :: "string \<Rightarrow> string \<Rightarrow> file_sink \<Rightarrow> bool \<times> file_sink" where
  "rename_file src_filename target_filename s =
     (let (ok, d) = os_rename src_filename target_filename (os_remove target_filename (disk_of s))
      in (ok, s\<lparr>disk_of := d\<rparr>))"

fun rotate_loop :: "nat \<Rightarrow> file_sink \<Rightarrow> flow \<times> file_sink" where
  "rotate_loop 0 s = helper_reopen True s"
| "rotate_loop (Suc i) s =
     (let src = calc_filename (base_filename s) i; target_l = calc_filename (base_filename s) (Suc i) in
      if \<not> file_exists src (disk_of s) then rotate_loop i s
      else case rename_file src target_l s of
        (True, s1) \<Rightarrow> rotate_loop i s1
      | (False, s1) \<Rightarrow>
          (case rename_file src target_l s1 of
             (True, s2) \<Rightarrow> rotate_loop i s2
           | (False, s2) \<Rightarrow>
               and_then (helper_reopen True s2) (\<lambda>s3.
                 (Thrown (''rotating_file_sink: failed renaming '' @ src @ '' to '' @ target_l), s3\<lparr>current_size := 0\<rparr>))))"

definition rotate_files :: "file_sink \<Rightarrow> flow \<times> file_sink" where
  "rotate_files s = rotate_loop (max_files s) (helper_close s)"

text \<open>\<open>sink_it_\<close> with the formatted message. Sizes are 64 bit numbers.\<close>

definition sink_it :: "string \<Rightarrow> file_sink \<Rightarrow> flow \<times> file_sink" where
  "sink_it formatted s =
     (let size_l = (current_size s + length formatted) mod 2 ^ 64; s1 = s\<lparr>current_size := size_l\<rparr> in
      and_then
        (if max_size s1 < size_l
         then and_then (rotate_files s1) (\<lambda>s2. (Completed, s2\<lparr>current_size := length formatted\<rparr>))
         else (Completed, s1))
        (helper_write formatted))"

definition file_sink_ctor :: "string \<Rightarrow> nat \<Rightarrow> nat \<Rightarrow> bool \<Rightarrow> disk \<Rightarrow> flow \<times> file_sink" where
  "file_sink_ctor base_filename_l max_size_l max_files_l rotate_on_open d =
     and_then
       (helper_open (calc_filename base_filename_l 0) False
          \<lparr>base_filename = base_filename_l, max_size = max_size_l, max_files = max_files_l, current_size = 0,
           fd = False, opened_name = [], disk_of = d\<rparr>)
       (\<lambda>s. let s1 = s\<lparr>current_size := helper_size s\<rparr> in
            if rotate_on_open \<and> current_size s1 > 0 then rotate_files s1 else (Completed, s1))"

section \<open>The logger\<close>

datatype level_enum = Trace | Debug | Info | Warn | Err | Critical | Level_off

fun level_value :: "level_enum \<Rightarrow> nat" where
  "level_value Trace = 0" | "level_value Debug = 1" | "level_value Info = 2" | "level_value Warn = 3"
| "level_value Err = 4" | "level_value Critical = 5" | "level_value Level_off = 6"

text \<open>
  \<open>console\<close> is what the sink of the standard error stream has written (it ignores errors), \<open>reports\<close> what
  \<open>err_handler_\<close> has; its static variables are the count of errors and the time of the last report, in
  nanoseconds. Flushing has no effect here, as writes reach the disk at once.
\<close>

record logger =
  log_level :: level_enum
  rotating :: file_sink
  log_to_stderr_sink :: bool
  console :: "string list"
  err_counter :: nat
  last_report_time :: int
  reports :: "(nat \<times> string) list"

definition should_log :: "level_enum \<Rightarrow> logger \<Rightarrow> bool" where
  "should_log lvl L \<longleftrightarrow> level_value (log_level L) \<le> level_value lvl"

definition err_handler :: "int \<Rightarrow> string \<Rightarrow> logger \<Rightarrow> logger" where
  "err_handler now msg L =
     (let L1 = L\<lparr>err_counter := Suc (err_counter L)\<rparr> in
      if now - last_report_time L1 < 1000000000 then L1
      else L1\<lparr>last_report_time := now, reports := reports L1 @ [(err_counter L1, msg)]\<rparr>)"

text \<open>
  \<open>sink_it_\<close> of the logger: a sink that throws is reported and the next one gets the message all the same.
  \<open>None\<close> is a write through a null stream. \<open>layout\<close> stands for the pattern formatter of the sinks.
\<close>

definition logger_sink_it :: "(level_enum \<Rightarrow> string \<Rightarrow> string) \<Rightarrow> int \<Rightarrow> level_enum \<Rightarrow> string \<Rightarrow> logger \<Rightarrow> logger option" where
  "logger_sink_it layout now lvl payload L =
     (let (outcome, f) = sink_it (layout lvl payload) (rotating L);
          L1 = L\<lparr>rotating := f\<rparr>;
          to_console = (\<lambda>L2. if log_to_stderr_sink L2 then L2\<lparr>console := console L2 @ [layout lvl payload]\<rparr> else L2)
      in case outcome of
           Undefined_write \<Rightarrow> None
         | Thrown what \<Rightarrow> Some (to_console (err_handler now what L1))
         | Completed \<Rightarrow> Some (to_console L1))"

text \<open>\<open>log\<close>; putting the arguments into the text of the message may throw.\<close>

definition logger_log :: "(level_enum \<Rightarrow> string \<Rightarrow> string) \<Rightarrow> int \<Rightarrow> level_enum \<Rightarrow> string result \<Rightarrow> logger \<Rightarrow> logger option" where
  "logger_log layout now lvl msg L =
     (if \<not> should_log lvl L then Some L
      else case msg of
        Inl what \<Rightarrow> Some (err_handler now what L)
      | Inr payload \<Rightarrow> logger_sink_it layout now lvl payload L)"

fun log_all :: "(level_enum \<Rightarrow> string \<Rightarrow> string) \<Rightarrow> (int \<times> level_enum \<times> string result) list \<Rightarrow> logger \<Rightarrow> logger option" where
  "log_all layout [] L = Some L"
| "log_all layout ((now, lvl, msg) # ms) L =
     (case logger_log layout now lvl msg L of None \<Rightarrow> None | Some L' \<Rightarrow> log_all layout ms L')"

text \<open>The logger of \<open>main\<close>, from the standard error switch of the configuration and the rotating file.\<close>

definition main_log_file :: "disk \<Rightarrow> flow \<times> file_sink" where
  "main_log_file d = file_sink_ctor ''nano-pow-server.log'' (1024 * 1024 * 5) 5 False d"

definition main_logger :: "bool \<Rightarrow> file_sink \<Rightarrow> logger" where
  "main_logger log_to_stderr_l f =
     \<lparr>log_level = Info, rotating = f, log_to_stderr_sink = log_to_stderr_l, console = [],
      err_counter = 0, last_report_time = 0, reports = []\<rparr>"

section \<open>Lemmas on names\<close>

lemma split_by_extension_append: "fst (split_by_extension f) @ snd (split_by_extension f) = f"
  by (simp add: split_by_extension_def split: option.split)

lemma calc_filename_0 [simp]: "calc_filename f 0 = f"
  by (simp add: calc_filename_def)

lemma dec_string_inject [simp]: "dec_string m = dec_string n \<longleftrightarrow> m = n"
  using number_of_dec_string by metis

text \<open>Different files of the family have different names.\<close>

lemma calc_filename_Suc: "calc_filename f (Suc i) =
    fst (split_by_extension f) @ ''.'' @ dec_string (Suc i) @ snd (split_by_extension f)"
  by (simp add: calc_filename_def split: prod.split)

lemma calc_filename_inject [simp]: "calc_filename f i = calc_filename f j \<longleftrightarrow> i = j"
proof -
  have longer: "length (calc_filename f (Suc i)) > length f" for i
  proof -
    have "length f = length (fst (split_by_extension f)) + length (snd (split_by_extension f))"
      by (metis length_append split_by_extension_append)
    then show ?thesis by (simp add: calc_filename_Suc)
  qed
  then have not0: "calc_filename f (Suc i) \<noteq> f" for i by (metis less_irrefl)
  show ?thesis
  proof (cases i)
    case 0
    then show ?thesis using not0 by (cases j) (simp, metis calc_filename_0)
  next
    case (Suc i')
    then show ?thesis using not0 by (cases j) (auto simp: calc_filename_Suc)
  qed
qed

lemma calc_filename_base [simp]: "calc_filename f i = f \<longleftrightarrow> i = 0" "f = calc_filename f i \<longleftrightarrow> i = 0"
  using calc_filename_inject [of f i 0] calc_filename_inject [of f 0 i] by auto

section \<open>Whatever the system does\<close>

text \<open>
  The disk as the sink keeps it: files of the family of \<open>base\<close> are at most \<open>B\<close> long, and other files are
  those of \<open>F\<close>.
\<close>

definition disk_ok :: "string \<Rightarrow> nat \<Rightarrow> nat \<Rightarrow> (string \<rightharpoonup> string) \<Rightarrow> disk \<Rightarrow> bool" where
  "disk_ok base n B F d \<longleftrightarrow> (\<forall>i \<le> n. \<forall>t. files d (calc_filename base i) = Some t \<longrightarrow> length t \<le> B)
     \<and> (\<forall>f. f \<notin> calc_filename base ` {..n} \<longrightarrow> files d f = F f)"

lemma consult_files: "consult d = (x, d') \<Longrightarrow> files d' = files d"
  by (auto simp: consult_def split: list.splits)

lemma disk_ok_consult: "consult d = (x, d') \<Longrightarrow> disk_ok base n B F d' = disk_ok base n B F d"
  by (simp add: disk_ok_def consult_files)

lemma disk_ok_update:
  assumes "disk_ok base n B F d" and "i \<le> n" and "\<And>t. x = Some t \<Longrightarrow> length t \<le> B"
  shows "disk_ok base n B F (d\<lparr>files := (files d)(calc_filename base i := x)\<rparr>)"
  using assms by (auto simp: disk_ok_def)

lemma disk_ok_remove: "disk_ok base n B F d \<Longrightarrow> i \<le> n \<Longrightarrow> disk_ok base n B F (os_remove (calc_filename base i) d)"
proof -
  assume ok: "disk_ok base n B F d" and i: "i \<le> n"
  obtain x d1 where d1: "consult d = (x, d1)" by (cases "consult d")
  then have "disk_ok base n B F d1" using ok by (simp add: disk_ok_consult)
  then show ?thesis using d1 disk_ok_update [where x = None, OF _ i] by (cases x) (simp_all add: os_remove_def)
qed

lemma disk_ok_rename:
  assumes "disk_ok base n B F d" and "i \<le> n" and "j \<le> n"
    and "os_rename (calc_filename base i) (calc_filename base j) d = (ok, d')"
  shows "disk_ok base n B F d'"
proof -
  obtain x d1 where d1: "consult d = (x, d1)" by (cases "consult d")
  then have ok: "disk_ok base n B F d1" using assms(1) by (simp add: disk_ok_consult)
  show ?thesis
  proof (cases "x = Works \<and> files d1 (calc_filename base i) \<noteq> None")
    case True
    then obtain t where t: "files d1 (calc_filename base i) = Some t" by blast
    then have "length t \<le> B" using ok assms(2) by (simp add: disk_ok_def)
    then have "disk_ok base n B F (d1\<lparr>files := (files d1)(calc_filename base j \<mapsto> t)\<rparr>)"
      by (intro disk_ok_update [OF ok assms(3)]) simp
    from disk_ok_update [OF this assms(2), of None] show ?thesis
      using assms(4) d1 True t by (simp add: os_rename_def)
  next
    case False
    then show ?thesis using assms(4) d1 ok by (auto simp: os_rename_def split: os_outcome.splits option.splits)
  qed
qed

lemma disk_ok_fopen:
  assumes "disk_ok base n B F d" and "os_fopen base trunc_l d = (ok, d')"
  shows "disk_ok base n B F d' \<and> (ok \<longrightarrow> (\<exists>t. files d' base = Some t \<and> (trunc_l \<longrightarrow> t = [])))"
proof -
  obtain x d1 where d1: "consult d = (x, d1)" by (cases "consult d")
  then have ok: "disk_ok base n B F d1" using assms(1) by (simp add: disk_ok_consult)
  show ?thesis
  proof (cases x)
    case Works
    let ?t = "if trunc_l then [] else case files d1 base of None \<Rightarrow> [] | Some t \<Rightarrow> t"
    have "length ?t \<le> B" using ok by (auto simp: disk_ok_def split: option.splits dest: spec [of _ 0])
    then have "disk_ok base n B F (d1\<lparr>files := (files d1)(calc_filename base 0 \<mapsto> ?t)\<rparr>)"
      by (intro disk_ok_update [OF ok]) simp_all
    then show ?thesis using assms(2) d1 Works by (auto simp: os_fopen_def)
  next
    case (Fails k)
    then show ?thesis using assms(2) d1 ok by (simp add: os_fopen_def)
  qed
qed

lemma disk_ok_fwrite:
  assumes "disk_ok base n B F d" and "files d base = Some t" and "length t + length buf \<le> B"
    and "os_fwrite base buf d = (k, d')"
  shows "disk_ok base n B F d' \<and> (\<exists>t'. files d' base = Some t' \<and> length t' \<le> length t + length buf)"
proof -
  obtain x d1 where d1: "consult d = (x, d1)" by (cases "consult d")
  then have ok: "disk_ok base n B F d1" using assms(1) by (simp add: disk_ok_consult)
  obtain out where out: "out = (case x of Works \<Rightarrow> buf | Fails k \<Rightarrow> take k buf)" by blast
  then have "length out \<le> length buf" by (cases x) simp_all
  moreover from this have "disk_ok base n B F (d1\<lparr>files := (files d1)(calc_filename base 0 \<mapsto> t @ out)\<rparr>)"
    using assms(3) by (intro disk_ok_update [OF ok]) auto
  ultimately show ?thesis
    using assms(2,4) d1 by (auto simp: os_fwrite_def Let_def out [symmetric] consult_files)
qed

text \<open>The sink between two messages: \<open>c\<close> bounds its count of bytes, a closed file is due for rotation.\<close>

definition sink_frame :: "string \<Rightarrow> nat \<Rightarrow> nat \<Rightarrow> nat \<Rightarrow> (string \<rightharpoonup> string) \<Rightarrow> file_sink \<Rightarrow> bool" where
  "sink_frame base n M B F s \<longleftrightarrow> base \<noteq> [] \<and> base_filename s = base \<and> opened_name s = base \<and> max_files s = n
     \<and> max_size s = M \<and> M \<le> B \<and> disk_ok base n B F (disk_of s)"

definition sink_inv :: "string \<Rightarrow> nat \<Rightarrow> nat \<Rightarrow> nat \<Rightarrow> (string \<rightharpoonup> string) \<Rightarrow> nat \<Rightarrow> file_sink \<Rightarrow> bool" where
  "sink_inv base n M B F c s \<longleftrightarrow> sink_frame base n M B F s \<and> current_size s \<le> c
     \<and> (fd s \<longrightarrow> (\<exists>t. files (disk_of s) base = Some t \<and> length t \<le> current_size s))
     \<and> (\<not> fd s \<longrightarrow> M < current_size s)"

lemma sink_frame_disk: "sink_frame base n M B F s \<Longrightarrow> disk_ok base n B F d \<Longrightarrow> sink_frame base n M B F (s\<lparr>disk_of := d\<rparr>)"
  by (simp add: sink_frame_def)

lemma sink_frame_simps [simp]:
  "sink_frame base n M B F (s\<lparr>fd := x\<rparr>) = sink_frame base n M B F s"
  "sink_frame base n M B F (s\<lparr>current_size := c\<rparr>) = sink_frame base n M B F s"
  by (simp_all add: sink_frame_def)

lemma open_loop_ok:
  "sink_frame base n M B F s \<Longrightarrow> \<not> fd s \<Longrightarrow> open_loop tries trunc_l s = (fl, s') \<Longrightarrow>
   sink_frame base n M B F s' \<and> current_size s' = current_size s \<and> fl \<noteq> Undefined_write
   \<and> fd s' = (fl = Completed) \<and> (fd s' \<longrightarrow> (\<exists>t. files (disk_of s') base = Some t \<and> (trunc_l \<longrightarrow> t = [])))"
proof (induction tries arbitrary: s)
  case (Suc tries)
  obtain ok d where d: "os_fopen (opened_name s) trunc_l (disk_of s) = (ok, d)" by (cases "os_fopen (opened_name s) trunc_l (disk_of s)")
  have base: "opened_name s = base" "disk_ok base n B F (disk_of s)" using Suc.prems(1) by (simp_all add: sink_frame_def)
  have ok: "disk_ok base n B F d \<and> (ok \<longrightarrow> (\<exists>t. files d base = Some t \<and> (trunc_l \<longrightarrow> t = [])))"
    using d unfolding base(1) by (rule disk_ok_fopen [OF base(2)])
  then have frame: "sink_frame base n M B F (s\<lparr>disk_of := d\<rparr>)" using Suc.prems(1) by (intro sink_frame_disk) simp_all
  show ?case
  proof (cases ok)
    case True
    then have s': "fl = Completed" "s' = s\<lparr>fd := True, disk_of := d\<rparr>" using Suc.prems(3) d by simp_all
    have "sink_frame base n M B F (s\<lparr>fd := True, disk_of := d\<rparr>)"
      by (rule sink_frame_disk) (use Suc.prems(1) ok in simp_all)
    then show ?thesis using s' ok True by simp
  next
    case False
    then show ?thesis using Suc.IH [OF frame] Suc.prems(2,3) d by simp
  qed
qed auto

lemma helper_reopen_ok:
  assumes "sink_frame base n M B F s" and "helper_reopen True s = (fl, s')"
  shows "sink_frame base n M B F s' \<and> current_size s' = current_size s \<and> fl \<noteq> Undefined_write
    \<and> fd s' = (fl = Completed) \<and> (fd s' \<longrightarrow> files (disk_of s') base = Some [])"
proof -
  have name: "opened_name s = base" "base \<noteq> []" using assms(1) by (simp_all add: sink_frame_def)
  then have same: "(helper_close s)\<lparr>opened_name := base\<rparr> = helper_close s" by (simp add: helper_close_def)
  have frame: "sink_frame base n M B F (helper_close s)" "\<not> fd (helper_close s)"
    using assms(1) by (simp_all add: helper_close_def)
  have "open_loop 5 True (helper_close s) = (fl, s')"
    using assms(2) name same by (simp add: helper_reopen_def helper_open_def)
  from open_loop_ok [OF frame this] show ?thesis by (auto simp: helper_close_def)
qed

lemma rename_file_ok:
  assumes "sink_frame base n M B F s" and "i \<le> n" and "j \<le> n"
    and "rename_file (calc_filename base i) (calc_filename base j) s = (ok, s')"
  shows "sink_frame base n M B F s' \<and> current_size s' = current_size s \<and> fd s' = fd s"
proof -
  let ?d = "os_remove (calc_filename base j) (disk_of s)"
  obtain d where d: "os_rename (calc_filename base i) (calc_filename base j) ?d = (ok, d)" "s' = s\<lparr>disk_of := d\<rparr>"
    using assms(4) by (auto simp: rename_file_def Let_def split: prod.splits)
  have "disk_ok base n B F ?d" using assms(1,3) by (intro disk_ok_remove) (simp_all add: sink_frame_def)
  then have "disk_ok base n B F d" by (rule disk_ok_rename [OF _ assms(2,3) d(1)])
  then show ?thesis using sink_frame_disk [OF assms(1)] d(2) by simp
qed

text \<open>However a rotation ends, the sink does not write through a null stream afterwards.\<close>

lemma rotate_loop_ok:
  "sink_frame base n M B F s \<Longrightarrow> \<not> fd s \<Longrightarrow> i \<le> n \<Longrightarrow> rotate_loop i s = (fl, s') \<Longrightarrow>
   sink_frame base n M B F s' \<and> fl \<noteq> Undefined_write \<and> (fl = Completed \<longrightarrow> fd s')
   \<and> (fd s' \<longrightarrow> files (disk_of s') base = Some [])
   \<and> (current_size s' = current_size s \<or> current_size s' = 0 \<and> fd s')"
proof (induction i arbitrary: s)
  case 0
  then show ?case using helper_reopen_ok [of base n M B F s fl s'] by simp
next
  case (Suc i)
  let ?src = "calc_filename base i" and ?tgt = "calc_filename base (Suc i)"
  have base: "base_filename s = base" using Suc.prems(1) by (simp add: sink_frame_def)
  show ?case
  proof (cases "file_exists ?src (disk_of s)")
    case False
    then show ?thesis using Suc.IH [OF Suc.prems(1,2)] Suc.prems(3,4) base by simp
  next
    case True
    obtain ok1 s1 where s1: "rename_file ?src ?tgt s = (ok1, s1)" by (cases "rename_file ?src ?tgt s")
    obtain ok2 s2 where s2: "rename_file ?src ?tgt s1 = (ok2, s2)" by (cases "rename_file ?src ?tgt s1")
    have le: "i \<le> n" using Suc.prems(3) by simp
    have one: "sink_frame base n M B F s1 \<and> current_size s1 = current_size s \<and> fd s1 = fd s"
      by (rule rename_file_ok [OF Suc.prems(1) le Suc.prems(3) s1])
    have two: "sink_frame base n M B F s2 \<and> current_size s2 = current_size s1 \<and> fd s2 = fd s1"
      by (rule rename_file_ok [OF conjunct1 [OF one] le Suc.prems(3) s2])
    show ?thesis
    proof (cases ok1)
      case True
      then have "rotate_loop i s1 = (fl, s')" using Suc.prems(4) s1 base \<open>file_exists ?src (disk_of s)\<close> by simp
      then show ?thesis using Suc.IH [of s1] one Suc.prems(2) le by auto
    next
      case not1: False
      show ?thesis
      proof (cases ok2)
        case True
        then have "rotate_loop i s2 = (fl, s')"
          using Suc.prems(4) s1 s2 not1 base \<open>file_exists ?src (disk_of s)\<close> by simp
        then show ?thesis using Suc.IH [of s2] one two Suc.prems(2) le by auto
      next
        case False
        obtain fl3 s3 where s3: "helper_reopen True s2 = (fl3, s3)" by (cases "helper_reopen True s2")
        note three = helper_reopen_ok [OF conjunct1 [OF two] s3]
        have "(fl, s') = and_then (fl3, s3) (\<lambda>s3. (Thrown (''rotating_file_sink: failed renaming '' @ ?src
            @ '' to '' @ ?tgt), s3\<lparr>current_size := 0\<rparr>))"
          using Suc.prems(4) s1 s2 s3 not1 False base \<open>file_exists ?src (disk_of s)\<close> by simp
        then show ?thesis using three one two by (cases fl3) (auto simp: and_then_def)
      qed
    qed
  qed
qed

lemma rotate_files_ok:
  assumes "sink_frame base n M B F s" and "rotate_files s = (fl, s')"
  shows "sink_frame base n M B F s' \<and> fl \<noteq> Undefined_write \<and> (fl = Completed \<longrightarrow> fd s')
    \<and> (fd s' \<longrightarrow> files (disk_of s') base = Some [])
    \<and> (current_size s' = current_size s \<or> current_size s' = 0 \<and> fd s')"
proof -
  have n: "max_files s = n" using assms(1) by (simp add: sink_frame_def)
  have "sink_frame base n M B F (helper_close s)" "\<not> fd (helper_close s)"
    using assms(1) by (simp_all add: helper_close_def)
  from rotate_loop_ok [OF this le_refl] show ?thesis
    using assms(2) n by (simp add: rotate_files_def helper_close_def)
qed

lemma helper_write_ok:
  assumes "sink_frame base n M B F s" and "fd s" and "files (disk_of s) base = Some t"
    and "length t + length buf \<le> B" and "helper_write buf s = (fl, s')"
  shows "sink_frame base n M B F s' \<and> fl \<noteq> Undefined_write \<and> fd s' \<and> current_size s' = current_size s
    \<and> (\<exists>t'. files (disk_of s') base = Some t' \<and> length t' \<le> length t + length buf)"
proof -
  have name: "opened_name s = base" "disk_ok base n B F (disk_of s)" using assms(1) by (simp_all add: sink_frame_def)
  obtain k d where d: "os_fwrite base buf (disk_of s) = (k, d)" by (cases "os_fwrite base buf (disk_of s)")
  then have s': "s' = s\<lparr>disk_of := d\<rparr>" "fl \<noteq> Undefined_write"
    using assms(2,5) name(1) by (auto simp: helper_write_def split: if_splits)
  show ?thesis
    using disk_ok_fwrite [OF name(2) assms(3,4) d] sink_frame_disk [OF assms(1), of d] s' assms(2) by simp
qed

lemma sink_it_ok:
  assumes inv: "sink_inv base n M B F c s" and len: "length buf \<le> B" and fits: "c + length buf < 2 ^ 64"
    and sink: "sink_it buf s = (fl, s')"
  shows "sink_inv base n M B F (c + length buf) s' \<and> fl \<noteq> Undefined_write"
proof -
  let ?size = "current_size s + length buf" and ?s1 = "s\<lparr>current_size := current_size s + length buf\<rparr>"
  have le: "current_size s \<le> c" using inv by (simp add: sink_inv_def)
  then have size: "?size mod 18446744073709551616 = ?size" using fits by simp
  have frame: "sink_frame base n M B F ?s1" and M: "max_size s = M" "M \<le> B"
    using inv by (simp_all add: sink_inv_def sink_frame_def)
  show ?thesis
  proof (cases "M < ?size")
    case False
    then obtain t where t: "fd s" "files (disk_of s) base = Some t" "length t \<le> current_size s"
      using inv by (auto simp: sink_inv_def)
    have "helper_write buf ?s1 = (fl, s')" using sink False M by (simp add: sink_it_def size and_then_def)
    then have "sink_frame base n M B F s' \<and> fl \<noteq> Undefined_write \<and> fd s' \<and> current_size s' = current_size ?s1
        \<and> (\<exists>t'. files (disk_of s') base = Some t' \<and> length t' \<le> length t + length buf)"
      by (rule helper_write_ok [OF frame, rotated 3]) (use t False M in simp_all)
    then show ?thesis using le t(3) by (auto simp: sink_inv_def)
  next
    case True
    obtain fl2 s2 where s2: "rotate_files ?s1 = (fl2, s2)" by (cases "rotate_files ?s1")
    note rotated = rotate_files_ok [OF frame s2]
    have run: "and_then (and_then (fl2, s2) (\<lambda>s2. (Completed, s2\<lparr>current_size := length buf\<rparr>))) (helper_write buf) = (fl, s')"
      using sink True M s2 by (simp add: sink_it_def size)
    show ?thesis
    proof (cases fl2)
      case Completed
      let ?s3 = "s2\<lparr>current_size := length buf\<rparr>"
      have frame3: "sink_frame base n M B F ?s3" using rotated by simp
      have "helper_write buf ?s3 = (fl, s')" using run Completed by (simp add: and_then_def)
      then have "sink_frame base n M B F s' \<and> fl \<noteq> Undefined_write \<and> fd s' \<and> current_size s' = current_size ?s3
          \<and> (\<exists>t'. files (disk_of s') base = Some t' \<and> length t' \<le> length ('''' :: string) + length buf)"
        by (rule helper_write_ok [OF frame3, rotated 3]) (use rotated Completed len in simp_all)
      then show ?thesis by (auto simp: sink_inv_def)
    next
      case (Thrown what)
      then have "fl = Thrown what" "s' = s2" using run by (simp_all add: and_then_def)
      then show ?thesis using rotated True le by (auto simp: sink_inv_def)
    qed (use rotated in simp)
  qed
qed

lemma file_sink_ctor_ok:
  assumes "file_sink_ctor base M n rotate_on_open d = (Completed, s)" and "base \<noteq> []" and "M \<le> B"
    and "disk_ok base n B (files d) d"
  shows "sink_inv base n M B (files d) (current_size s) s"
proof -
  let ?s0 = "\<lparr>base_filename = base, max_size = M, max_files = n, current_size = 0, fd = False,
      opened_name = base, disk_of = d\<rparr>"
  obtain fl s1 where s1: "open_loop 5 False ?s0 = (fl, s1)" by (cases "open_loop 5 False ?s0")
  have "sink_frame base n M B (files d) ?s0" "\<not> fd ?s0" using assms(2-4) by (simp_all add: sink_frame_def)
  note opened = open_loop_ok [OF this s1]
  let ?s2 = "s1\<lparr>current_size := helper_size s1\<rparr>"
  have run: "and_then (fl, s1) (\<lambda>s. let s2 = s\<lparr>current_size := helper_size s\<rparr> in
      if rotate_on_open \<and> current_size s2 > 0 then rotate_files s2 else (Completed, s2)) = (Completed, s)"
    using assms(1) s1 by (simp add: file_sink_ctor_def helper_open_def helper_close_def)
  then have fl: "fl = Completed" by (cases fl) (simp_all add: and_then_def)
  then obtain t where t: "files (disk_of s1) base = Some t" and frame: "sink_frame base n M B (files d) ?s2" and "fd ?s2"
    using opened by auto
  moreover have "opened_name s1 = base" using opened by (simp add: sink_frame_def)
  ultimately have inv2: "sink_inv base n M B (files d) (current_size ?s2) ?s2" by (simp add: sink_inv_def helper_size_def)
  show ?thesis
  proof (cases "rotate_on_open \<and> current_size ?s2 > 0")
    case True
    then have "rotate_files ?s2 = (Completed, s)" using run fl by (simp add: and_then_def)
    from rotate_files_ok [OF frame this] show ?thesis by (simp add: sink_inv_def)
  next
    case False
    then show ?thesis using run fl inv2 by (auto simp: and_then_def Let_def)
  qed
qed

text \<open>The messages that pass the level, as the sinks write them.\<close>

fun log_texts :: "(level_enum \<Rightarrow> string \<Rightarrow> string) \<Rightarrow> level_enum \<Rightarrow> (int \<times> level_enum \<times> string result) list \<Rightarrow> string list" where
  "log_texts layout threshold [] = []"
| "log_texts layout threshold ((now, lvl, msg) # ms) =
     (case msg of
        Inr payload \<Rightarrow> if level_value threshold \<le> level_value lvl then [layout lvl payload] else []
      | Inl _ \<Rightarrow> []) @ log_texts layout threshold ms"

lemma err_handler_simps [simp]:
  "rotating (err_handler now what L) = rotating L" "console (err_handler now what L) = console L"
  "log_level (err_handler now what L) = log_level L"
  "log_to_stderr_sink (err_handler now what L) = log_to_stderr_sink L"
  by (simp_all add: err_handler_def Let_def)

lemma logger_log_ok:
  assumes inv: "sink_inv base n M B F c (rotating L)"
    and texts: "\<forall>x \<in> set (log_texts layout (log_level L) [(now, lvl, msg)]). length x \<le> B"
    and fits: "c + length (concat (log_texts layout (log_level L) [(now, lvl, msg)])) < 2 ^ 64"
  shows "\<exists>L'. logger_log layout now lvl msg L = Some L' \<and> log_level L' = log_level L
    \<and> log_to_stderr_sink L' = log_to_stderr_sink L
    \<and> console L' = console L @ (if log_to_stderr_sink L then log_texts layout (log_level L) [(now, lvl, msg)] else [])
    \<and> sink_inv base n M B F (c + length (concat (log_texts layout (log_level L) [(now, lvl, msg)]))) (rotating L')"
proof (cases "should_log lvl L \<and> (\<exists>payload. msg = Inr payload)")
  case True
  then obtain payload where payload: "msg = Inr payload" "level_value (log_level L) \<le> level_value lvl"
    by (auto simp: should_log_def)
  let ?text = "layout lvl payload"
  obtain fl f where f: "sink_it ?text (rotating L) = (fl, f)" by (cases "sink_it ?text (rotating L)")
  have "sink_inv base n M B F (c + length ?text) f \<and> fl \<noteq> Undefined_write"
    by (rule sink_it_ok [OF inv _ _ f]) (use texts fits payload in simp_all)
  then show ?thesis using True payload f
    by (cases fl) (simp_all add: logger_log_def logger_sink_it_def Let_def)
next
  case False
  then show ?thesis using inv
    by (auto simp: logger_log_def should_log_def sink_inv_def split: sum.splits)
qed

lemma log_texts_Cons: "log_texts layout threshold (m # ms) = log_texts layout threshold [m] @ log_texts layout threshold ms"
  by (cases m) simp

lemma log_all_ok:
  "sink_inv base n M B F c (rotating L) \<Longrightarrow> \<forall>x \<in> set (log_texts layout (log_level L) ms). length x \<le> B \<Longrightarrow>
   c + length (concat (log_texts layout (log_level L) ms)) < 2 ^ 64 \<Longrightarrow>
   \<exists>L' c'. log_all layout ms L = Some L' \<and> sink_inv base n M B F c' (rotating L')
     \<and> console L' = console L @ (if log_to_stderr_sink L then log_texts layout (log_level L) ms else [])"
proof (induction ms arbitrary: L c)
  case Nil
  then show ?case by auto
next
  case (Cons m ms)
  obtain now lvl msg where m: "m = (now, lvl, msg)" by (cases m)
  let ?x = "log_texts layout (log_level L) [m]"
  note split_texts = log_texts_Cons [of layout "log_level L" m ms]
  have "\<forall>x \<in> set ?x. length x \<le> B" "c + length (concat ?x) < 2 ^ 64"
    using Cons.prems(2,3) unfolding split_texts by auto
  then obtain L1 where L1: "logger_log layout now lvl msg L = Some L1" "log_level L1 = log_level L"
      "log_to_stderr_sink L1 = log_to_stderr_sink L"
      "console L1 = console L @ (if log_to_stderr_sink L then ?x else [])"
      "sink_inv base n M B F (c + length (concat ?x)) (rotating L1)"
    using logger_log_ok [OF Cons.prems(1), of layout now lvl msg] unfolding m by blast
  have "\<forall>x \<in> set (log_texts layout (log_level L1) ms). length x \<le> B"
      "c + length (concat ?x) + length (concat (log_texts layout (log_level L1) ms)) < 2 ^ 64"
    using Cons.prems(2,3) L1(2) unfolding split_texts by auto
  from Cons.IH [OF L1(5) this] obtain L' c' where "log_all layout ms L1 = Some L'"
      "sink_inv base n M B F c' (rotating L')"
      "console L' = console L1 @ (if log_to_stderr_sink L1 then log_texts layout (log_level L1) ms else [])"
    by blast
  then show ?case using L1(1-4) unfolding split_texts by (auto simp: m)
qed

section \<open>When every system call succeeds\<close>

text \<open>
  The files as numbered slots, and the log that they hold together, oldest part first. \<open>shift_slots i\<close>
  is what the loop of the rotation does to the slots below and including \<open>i\<close>.
\<close>

type_synonym slots = "nat \<Rightarrow> string option"

definition slots_of :: "file_sink \<Rightarrow> slots" where
  "slots_of s = (\<lambda>i. files (disk_of s) (calc_filename (base_filename s) i))"

fun slot_text :: "string option \<Rightarrow> string" where
  "slot_text None = []"
| "slot_text (Some t) = t"

fun slots_text :: "nat \<Rightarrow> slots \<Rightarrow> string" where
  "slots_text 0 c = slot_text (c 0)"
| "slots_text (Suc i) c = slot_text (c (Suc i)) @ slots_text i c"

fun shift_slots :: "nat \<Rightarrow> slots \<Rightarrow> slots" where
  "shift_slots 0 c = c"
| "shift_slots (Suc i) c = shift_slots i (case c i of None \<Rightarrow> c | Some t \<Rightarrow> c(Suc i \<mapsto> t, i := None))"

definition archive :: "file_sink \<Rightarrow> string" where
  "archive s = slots_text (max_files s) (slots_of s)"

text \<open>What a rotation loses: the last file, if there is one to take its place.\<close>

definition oldest :: "file_sink \<Rightarrow> string" where
  "oldest s =
     (if max_files s = 0 then slot_text (slots_of s 0)
      else if slots_of s (max_files s - 1) = None then []
      else slot_text (slots_of s (max_files s)))"

lemma slots_text_above: "m < i \<Longrightarrow> slots_text m (c(i := x)) = slots_text m c"
  by (induction m) auto

lemma slots_text_move: "i < m \<Longrightarrow> c (Suc i) = None \<Longrightarrow> c i = Some t \<Longrightarrow>
    slots_text m (c(Suc i \<mapsto> t, i := None)) = slots_text m c"
proof (induction m)
  case (Suc m)
  show ?case
  proof (cases "m = i")
    case True
    have below: "slots_text i (c(i := None)) = (case i of 0 \<Rightarrow> [] | Suc k \<Rightarrow> slots_text k c)"
      by (cases i) (simp_all add: slots_text_above)
    have "slots_text i (c(Suc i \<mapsto> t, i := None)) = slots_text i (c(i := None))"
      using slots_text_above [of i "Suc i" "c(i := None)" "Some t"] by (simp add: fun_upd_twist)
    moreover have "slots_text i c = t @ (case i of 0 \<Rightarrow> [] | Suc k \<Rightarrow> slots_text k c)"
      using Suc.prems(3) by (cases i) simp_all
    moreover obtain d where d: "d = c(Suc i \<mapsto> t, i := None)" by blast
    moreover from d have "d (Suc i) = Some t" by simp
    ultimately have "slots_text (Suc i) d = slots_text (Suc i) c" using Suc.prems(2) below by simp
    then show ?thesis unfolding True d .
  next
    case False
    then show ?thesis using Suc by simp
  qed
qed simp

lemma shift_keeps: "i \<le> m \<Longrightarrow> c i = None \<Longrightarrow> slots_text m (shift_slots i c) = slots_text m c"
proof (induction i arbitrary: c)
  case (Suc i)
  show ?case
  proof (cases "c i")
    case None
    then show ?thesis using Suc by simp
  next
    case (Some t)
    then show ?thesis using Suc slots_text_move [of i m c t] by simp
  qed
qed simp

lemma shift_empties: "0 < i \<Longrightarrow> shift_slots i c 0 = None"
proof (induction i arbitrary: c)
  case (Suc i)
  show ?case by (cases "i = 0") (use Suc.IH in \<open>auto split: option.split\<close>)
qed simp

lemma slots_text_reset: "c 0 = None \<Longrightarrow> slots_text m (c(0 \<mapsto> [])) = slots_text m c"
  by (induction m) auto

lemma slots_text_append: "c 0 = Some t \<Longrightarrow> slots_text m (c(0 \<mapsto> t @ u)) = slots_text m c @ u"
  by (induction m) auto

text \<open>The rotation on slots, the last of which is \<open>m\<close>.\<close>

lemma rotation_text:
  "slots_text m ((shift_slots m c)(0 \<mapsto> [])) =
     drop (length (if m = 0 then slot_text (c 0) else if c (m - 1) = None then [] else slot_text (c m))) (slots_text m c)"
proof (cases m)
  case (Suc k)
  then have reset: "slots_text m ((shift_slots m c)(0 \<mapsto> [])) = slots_text m (shift_slots m c)"
    by (intro slots_text_reset shift_empties) simp
  show ?thesis
  proof (cases "c k")
    case None
    then show ?thesis using Suc reset shift_keeps [of k m c] by simp
  next
    case (Some t)
    have "slots_text m (shift_slots m c) = slots_text m (c(m \<mapsto> t, k := None))"
      using Suc Some shift_keeps [of k m "c(m \<mapsto> t, k := None)"] by simp
    also have "\<dots> = slots_text m (c(m := None))"
      using Suc Some slots_text_move [of k m "c(m := None)" t] by simp
    also have "\<dots> = slots_text k c" using Suc by (simp add: slots_text_above)
    finally show ?thesis using Suc Some reset by simp
  qed
qed simp

text \<open>The sink between two messages when nothing has failed.\<close>

definition quiet_sink :: "file_sink \<Rightarrow> bool" where
  "quiet_sink s \<longleftrightarrow> script (disk_of s) = [] \<and> fd s \<and> base_filename s \<noteq> [] \<and> opened_name s = base_filename s
     \<and> slots_of s 0 \<noteq> None"

lemma quiet_os [simp]:
  "script d = [] \<Longrightarrow> consult d = (Works, d)"
  "script d = [] \<Longrightarrow> os_remove f d = d\<lparr>files := (files d)(f := None)\<rparr>"
  "script d = [] \<Longrightarrow> os_fopen f True d = (True, d\<lparr>files := (files d)(f \<mapsto> [])\<rparr>)"
  by (simp_all add: consult_def os_remove_def os_fopen_def)

lemma quiet_rename:
  "script (disk_of s) = [] \<Longrightarrow> files (disk_of s) src = Some t \<Longrightarrow> src \<noteq> tgt \<Longrightarrow>
   rename_file src tgt s = (True, s\<lparr>disk_of := (disk_of s)\<lparr>files := (files (disk_of s))(tgt \<mapsto> t, src := None)\<rparr>\<rparr>)"
  by (simp add: rename_file_def os_rename_def fun_upd_twist)

lemma quiet_reopen:
  assumes "script (disk_of s) = []" and "opened_name s \<noteq> []"
  shows "helper_reopen True s = (Completed, s\<lparr>fd := True, opened_name := opened_name s,
      disk_of := (disk_of s)\<lparr>files := (files (disk_of s))(opened_name s \<mapsto> [])\<rparr>\<rparr>)"
  using assms by (simp add: helper_reopen_def helper_open_def helper_close_def numeral_eq_Suc)

lemma slots_update: "(\<lambda>k. (G(calc_filename base i := x)) (calc_filename base k)) = (\<lambda>k. G (calc_filename base k))(i := x)"
  by (auto simp: fun_eq_iff)

lemma quiet_rotate_loop:
  "script (disk_of s) = [] \<Longrightarrow> base_filename s \<noteq> [] \<Longrightarrow> opened_name s = base_filename s \<Longrightarrow>
   \<exists>s'. rotate_loop i s = (Completed, s') \<and> slots_of s' = (shift_slots i (slots_of s))(0 \<mapsto> [])
     \<and> quiet_sink s' \<and> max_files s' = max_files s \<and> max_size s' = max_size s"
proof (induction i arbitrary: s)
  case 0
  let ?s = "s\<lparr>fd := True, opened_name := opened_name s,
      disk_of := (disk_of s)\<lparr>files := (files (disk_of s))(opened_name s \<mapsto> [])\<rparr>\<rparr>"
  have "slots_of ?s = (slots_of s)(0 \<mapsto> [])"
    using 0(3) slots_update [of "files (disk_of s)" "base_filename s" 0 "Some []"] by (simp add: slots_of_def)
  then show ?case using 0 quiet_reopen [of s] by (intro exI [of _ ?s]) (simp add: quiet_sink_def)
next
  case (Suc i)
  let ?src = "calc_filename (base_filename s) i" and ?tgt = "calc_filename (base_filename s) (Suc i)"
  show ?case
  proof (cases "slots_of s i")
    case None
    then have "rotate_loop (Suc i) s = rotate_loop i s" by (simp add: slots_of_def file_exists_def)
    then show ?thesis using Suc.IH [OF Suc.prems] None by simp
  next
    case (Some t)
    let ?G = "(files (disk_of s))(?tgt \<mapsto> t, ?src := None)"
    let ?s = "s\<lparr>disk_of := (disk_of s)\<lparr>files := ?G\<rparr>\<rparr>"
    have src: "files (disk_of s) ?src = Some t" using Some by (simp add: slots_of_def)
    then have step: "rotate_loop (Suc i) s = rotate_loop i ?s"
      using quiet_rename [OF Suc.prems(1) src, of ?tgt] by (simp add: file_exists_def)
    have moved: "slots_of ?s = (slots_of s)(Suc i \<mapsto> t, i := None)" by (auto simp: slots_of_def fun_eq_iff)
    have slots: "shift_slots (Suc i) (slots_of s) = shift_slots i (slots_of ?s)"
      unfolding moved shift_slots.simps Some option.case by (rule refl)
    have "script (disk_of ?s) = []" "base_filename ?s \<noteq> []" "opened_name ?s = base_filename ?s"
      using Suc.prems by simp_all
    from Suc.IH [OF this] show ?thesis unfolding step slots by simp
  qed
qed

lemma quiet_write:
  assumes "quiet_sink s"
  shows "\<exists>s'. helper_write buf s = (Completed, s') \<and> archive s' = archive s @ buf \<and> quiet_sink s'
    \<and> max_files s' = max_files s \<and> max_size s' = max_size s \<and> current_size s' = current_size s"
proof -
  obtain t where t: "slots_of s 0 = Some t" using assms by (auto simp: quiet_sink_def)
  let ?s = "s\<lparr>disk_of := (disk_of s)\<lparr>files := (files (disk_of s))(base_filename s \<mapsto> t @ buf)\<rparr>\<rparr>"
  have slots: "slots_of ?s = (slots_of s)(0 \<mapsto> t @ buf)"
    using slots_update [of "files (disk_of s)" "base_filename s" 0 "Some (t @ buf)"] by (simp add: slots_of_def)
  have "helper_write buf s = (Completed, ?s)"
    using assms t by (simp add: quiet_sink_def helper_write_def os_fwrite_def slots_of_def Let_def)
  moreover have "archive ?s = archive s @ buf" using slots_text_append [of "slots_of s" t] t slots by (simp add: archive_def)
  ultimately show ?thesis using assms slots by (intro exI [of _ ?s]) (simp add: quiet_sink_def)
qed

lemma quiet_size: "quiet_sink (s\<lparr>current_size := x\<rparr>) = quiet_sink s" "archive (s\<lparr>current_size := x\<rparr>) = archive s"
  "oldest (s\<lparr>current_size := x\<rparr>) = oldest s"
  by (simp_all add: quiet_sink_def archive_def oldest_def slots_of_def)

section \<open>Properties\<close>

text \<open>
  C34: when no system call fails, the log files together hold a contiguous end of what was logged. A
  message that fits is appended to it; otherwise the files are rotated first, which removes the
  last of them and nothing else, and the message starts a new file.
\<close>

theorem rotation_keeps_log:
  assumes "quiet_sink s" and "current_size s + length buf < 2 ^ 64"
  shows "\<exists>s'. sink_it buf s = (Completed, s') \<and> quiet_sink s'
    \<and> archive s' =
        (if current_size s + length buf \<le> max_size s then archive s else drop (length (oldest s)) (archive s)) @ buf
    \<and> current_size s' = (if current_size s + length buf \<le> max_size s then current_size s else 0) + length buf"
proof -
  let ?size = "current_size s + length buf" and ?s1 = "s\<lparr>current_size := current_size s + length buf\<rparr>"
  have size: "?size mod 18446744073709551616 = ?size" using assms(2) by simp
  show ?thesis
  proof (cases "?size \<le> max_size s")
    case True
    then have "sink_it buf s = helper_write buf ?s1" by (simp add: sink_it_def size and_then_def)
    then show ?thesis using quiet_write [of ?s1 buf] assms(1) True by (auto simp: quiet_size)
  next
    case False
    let ?c = "helper_close ?s1"
    have "script (disk_of ?c) = []" "base_filename ?c \<noteq> []" "opened_name ?c = base_filename ?c"
      using assms(1) by (simp_all add: quiet_sink_def helper_close_def)
    from quiet_rotate_loop [OF this, of "max_files s"]
    obtain s2 where s2: "rotate_files ?s1 = (Completed, s2)" "quiet_sink s2" "max_files s2 = max_files s"
        "slots_of s2 = (shift_slots (max_files s) (slots_of s))(0 \<mapsto> [])"
      by (auto simp: rotate_files_def helper_close_def slots_of_def)
    have "archive s2 = drop (length (oldest s)) (archive s)"
      using rotation_text [of "max_files s" "slots_of s"] s2(3,4) by (simp add: archive_def oldest_def)
    moreover have "sink_it buf s = helper_write buf (s2\<lparr>current_size := length buf\<rparr>)"
      using False s2(1) by (simp add: sink_it_def size and_then_def)
    ultimately show ?thesis using quiet_write [of "s2\<lparr>current_size := length buf\<rparr>" buf] s2(2) False
      by (auto simp: quiet_size)
  qed
qed

definition demo_log_file :: "os_outcome list \<Rightarrow> file_sink" where
  "demo_log_file os = snd (file_sink_ctor ''a.log'' 4 1 False \<lparr>files = Map.empty, script = os\<rparr>)"

lemma demo_log_file_eq:
  "file_sink_ctor ''a.log'' 4 1 False \<lparr>files = Map.empty, script = []\<rparr> = (Completed, demo_log_file [])"
  "demo_log_file [] = \<lparr>base_filename = ''a.log'', max_size = 4, max_files = 1, current_size = 0, fd = True,
     opened_name = ''a.log'', disk_of = \<lparr>files = [''a.log'' \<mapsto> []], script = []\<rparr>\<rparr>"
  "file_sink_ctor ''a.log'' 4 1 False \<lparr>files = Map.empty, script = Works # os\<rparr> = (Completed, demo_log_file (Works # os))"
  "demo_log_file (Works # os) = \<lparr>base_filename = ''a.log'', max_size = 4, max_files = 1, current_size = 0, fd = True,
     opened_name = ''a.log'', disk_of = \<lparr>files = [''a.log'' \<mapsto> []], script = os\<rparr>\<rparr>"
  by (simp_all add: demo_log_file_def file_sink_ctor_def helper_open_def helper_close_def and_then_def os_fopen_def
      consult_def helper_size_def numeral_eq_Suc Let_def)

theorem rotation_keeps_log_witness:
  "\<exists>s'. sink_it ''abc'' (demo_log_file []) = (Completed, s') \<and> archive s' = ''abc''"
proof -
  have "quiet_sink (demo_log_file [])" "archive (demo_log_file []) = []"
    by (simp_all add: demo_log_file_eq(2) quiet_sink_def slots_of_def archive_def calc_filename_def)
  then show ?thesis using rotation_keeps_log [of "demo_log_file []" "''abc''"] by (auto simp: demo_log_file_eq(2))
qed

text \<open>
  C33: once the log file has been opened, logging neither throws nor follows a null pointer, whichever
  system calls fail: every call returns, and the standard error sink gets every message that passes
  the level. No log file grows beyond \<open>B\<close>, if the limit, the messages and the files found at the start are
  no longer than that, and no file outside the family is touched.
\<close>

theorem logging_is_safe:
  assumes "file_sink_ctor base M n False d = (Completed, s)" and "rotating L = s" and "base \<noteq> []" and "M \<le> B"
    and "\<forall>i \<le> n. length (slot_text (files d (calc_filename base i))) \<le> B"
    and "\<forall>x \<in> set (log_texts layout (log_level L) ms). length x \<le> B"
    and "current_size s + length (concat (log_texts layout (log_level L) ms)) < 2 ^ 64"
  shows "\<exists>L'. log_all layout ms L = Some L'
    \<and> console L' = console L @ (if log_to_stderr_sink L then log_texts layout (log_level L) ms else [])
    \<and> (\<forall>i \<le> n. length (slot_text (files (disk_of (rotating L')) (calc_filename base i))) \<le> B)
    \<and> (\<forall>f. f \<notin> calc_filename base ` {..n} \<longrightarrow> files (disk_of (rotating L')) f = files d f)"
proof -
  have slot: "(\<forall>t. x = Some t \<longrightarrow> length t \<le> B) \<longleftrightarrow> length (slot_text x) \<le> B" for x by (cases x) simp_all
  have "disk_ok base n B (files d) d" using assms(5) unfolding disk_ok_def slot by simp
  then have "sink_inv base n M B (files d) (current_size s) (rotating L)"
    unfolding assms(2) by (rule file_sink_ctor_ok [OF assms(1,3,4)])
  from log_all_ok [OF this assms(6,7)] obtain L' c' where L': "log_all layout ms L = Some L'"
      "sink_inv base n M B (files d) c' (rotating L')"
      "console L' = console L @ (if log_to_stderr_sink L then log_texts layout (log_level L) ms else [])" by blast
  have "disk_ok base n B (files d) (disk_of (rotating L'))"
    using L'(2) by (simp add: sink_inv_def sink_frame_def)
  then show ?thesis using L'(1,3) unfolding disk_ok_def slot by simp
qed

text \<open>The second message does not fit, and the file cannot be renamed.\<close>

theorem logging_is_safe_witness:
  "\<exists>L'. log_all (\<lambda>lvl text_l. text_l) [(0, Info, Inr ''abc''), (1, Info, Inr ''xyz'')]
      (main_logger True (demo_log_file [Works, Works, Fails 0, Fails 0, Fails 0, Fails 0])) = Some L'
    \<and> console L' = [''abc'', ''xyz'']"
proof -
  let ?os = "[Works, Fails 0, Fails 0, Fails 0, Fails 0]"
  let ?L = "main_logger True (demo_log_file (Works # ?os))"
  have sink: "rotating ?L = demo_log_file (Works # ?os)" by (simp add: main_logger_def)
  have texts: "log_texts (\<lambda>lvl text_l. text_l) (log_level ?L) [(0, Info, Inr ''abc''), (1, Info, Inr ''xyz'')] = [''abc'', ''xyz'']"
    by (simp add: main_logger_def)
  have console: "console ?L = []" "log_to_stderr_sink ?L" by (simp_all add: main_logger_def)
  have family: "\<forall>i \<le> 1. length (slot_text (files \<lparr>files = Map.empty, script = Works # ?os\<rparr> (calc_filename ''a.log'' i))) \<le> 4"
    by simp
  have short: "\<forall>x \<in> set [''abc'', ''xyz'']. length x \<le> 4" by simp
  have small: "current_size (demo_log_file (Works # ?os)) + length (concat [''abc'', ''xyz'']) < 2 ^ 64"
    by (simp add: demo_log_file_eq(4))
  have "''a.log'' \<noteq> []" by simp
  from logging_is_safe [OF demo_log_file_eq(3) sink this le_refl family, of "\<lambda>lvl text_l. text_l"
      "[(0, Info, Inr ''abc''), (1, Info, Inr ''xyz'')]", unfolded texts, OF short small]
  obtain L' where L': "log_all (\<lambda>lvl text_l. text_l) [(0, Info, Inr ''abc''), (1, Info, Inr ''xyz'')] ?L = Some L'"
    "console L' = console ?L @ (if log_to_stderr_sink ?L then [''abc'', ''xyz''] else [])" by blast
  have "console L' = [''abc'', ''xyz'']" using L'(2) unfolding console(1) using console(2) by (simp only: if_True append_Nil)
  with L'(1) show ?thesis by (intro exI [of _ L'] conjI)
qed

text \<open>
  What is not caught is the failure to open the file in the first place: \<open>main\<close> constructs the sink
  outside the logger, and the exception is not a \<open>std::runtime_error\<close>.
\<close>

theorem log_open_failure:
  "fst (main_log_file \<lparr>files = F, script = replicate 5 (Fails 0)\<rparr>)
     = Thrown ''Failed opening file nano-pow-server.log for writing''"
proof -
  have five: "replicate 5 x = [x, x, x, x, x]" "open_loop 5 = open_loop (Suc (Suc (Suc (Suc (Suc 0)))))"
    for x :: os_outcome by (simp_all add: numeral_eq_Suc)
  show ?thesis
    by (simp add: main_log_file_def file_sink_ctor_def helper_open_def helper_close_def and_then_def os_fopen_def
        consult_def five)
qed

text \<open>
  When the file cannot be reopened, every further message rotates again. Here the second message
  removes the text \<open>b\<close> from the archive, although the first one has not been written.
\<close>

definition crowded_sink :: file_sink where
  "crowded_sink =
     \<lparr>base_filename = ''a.log'', max_size = 1, max_files = 2, current_size = 1, fd = True, opened_name = ''a.log'',
      disk_of = \<lparr>files = [''a.log'' \<mapsto> ''c'', ''a.1.log'' \<mapsto> ''b'', ''a.2.log'' \<mapsto> ''a''],
                 script = replicate 4 Works @ replicate 5 (Fails 0) @ replicate 2 Works @ replicate 5 (Fails 0)\<rparr>\<rparr>"

theorem failed_reopen_drops_archives:
  "(let s1 = snd (sink_it ''d'' crowded_sink); s2 = snd (sink_it ''e'' s1) in
     (archive crowded_sink, archive s1, archive s2)) = (''abc'', ''bc'', ''c'')"
proof -
  have names: "calc_filename ''a.log'' (Suc 0) = ''a.1.log''" "calc_filename ''a.log'' (Suc (Suc 0)) = ''a.2.log''"
    by code_simp+
  have loops: "rotate_loop 2 = rotate_loop (Suc (Suc 0))" "open_loop 5 = open_loop (Suc (Suc (Suc (Suc (Suc 0)))))"
      "replicate 5 x = [x, x, x, x, x]" "replicate 4 x = [x, x, x, x]" "replicate 2 x = [x, x]" for x :: os_outcome
    by (simp_all add: numeral_eq_Suc)
  have two: "slots_text 2 = slots_text (Suc (Suc 0))" by (simp add: numeral_eq_Suc)
  let ?s1 = "crowded_sink\<lparr>current_size := 2, fd := False, disk_of :=
      \<lparr>files = (\<lambda>f. if f = ''a.1.log'' then Some ''c'' else if f = ''a.2.log'' then Some ''b'' else None),
       script = replicate 2 Works @ replicate 5 (Fails 0)\<rparr>\<rparr>"
  let ?s2 = "?s1\<lparr>current_size := 3, disk_of := \<lparr>files = [''a.2.log'' \<mapsto> ''c''], script = []\<rparr>\<rparr>"
  have one: "snd (sink_it ''d'' crowded_sink) = ?s1"
    by (simp add: crowded_sink_def sink_it_def rotate_files_def helper_close_def loops names file_exists_def
        rename_file_def os_rename_def os_remove_def consult_def helper_reopen_def helper_open_def os_fopen_def
        and_then_def fun_eq_iff Let_def)
  have second: "snd (sink_it ''e'' ?s1) = ?s2"
    by (simp add: crowded_sink_def sink_it_def rotate_files_def helper_close_def loops names file_exists_def
        rename_file_def os_rename_def os_remove_def consult_def helper_reopen_def helper_open_def os_fopen_def
        and_then_def fun_eq_iff Let_def)
  show ?thesis unfolding Let_def one second
    by (simp add: archive_def slots_of_def two crowded_sink_def names)
qed

end
