(* ===== verification/Server.thy ===== *)
theory Server
  imports System Web
begin

text \<open>
  \<open>src/entry/nano_pow_server.cpp\<close> and the rest of \<open>src/workserver/webserver.hpp\<close>: the endpoints and
  what their handlers do to the work server, the threads that \<open>webserver::start\<close> launches, and
  \<open>main\<close> from the parsed command line to the running server. Logging is left out; the texts that
  Boost prints for \<open>--help\<close> and that cpptoml writes are parameters.
\<close>

section \<open>Threads of the web server\<close>

text \<open>The constructor's \<open>reserve (thread_count - 1)\<close>, in the unsigned type of \<open>thread_count\<close>.\<close>

definition reserved_threads :: "u32 \<Rightarrow> u64" where
  "reserved_threads thread_count = ucast (thread_count - 1)"

text \<open>The loop of \<open>start\<close>; it returns how many threads it adds.\<close>

function spawn_threads :: "u64 \<Rightarrow> nat" where
  "spawn_threads i = (if i > 0 then Suc (spawn_threads (i - 1)) else 0)"
  by pat_completeness auto
termination
  by (relation "measure unat") (auto simp: word_less_nat_alt unat_sub_if_size)

declare spawn_threads.simps [simp del]

text \<open>All threads that run the I/O service: those of the loop, and the caller.\<close>

definition io_threads :: "u64 \<Rightarrow> nat" where
  "io_threads capacity = Suc (spawn_threads (capacity - 1))"

section \<open>Endpoints\<close>

datatype endpoint = Work | Work_queue | Work_queue_delete | Ping | Stop | Version

definition http_endpoints :: "endpoint rest_endpoint list" where
  "http_endpoints =
    add_get_endpoint ''/api/v1/version'' Version
   (add_get_endpoint ''/api/v1/stop'' Stop
   (add_get_endpoint ''/api/v1/ping'' Ping
   (add_delete_endpoint ''/api/v1/work/queue'' Work_queue_delete
   (add_get_endpoint ''/api/v1/work/queue'' Work_queue
   (add_post_endpoint ''/api/v1/work'' Work
   (add_post_endpoint ''/'' Work []))))))"

definition websocket_endpoints :: "endpoint websocket_endpoint list" where
  "websocket_endpoints = add_websocket_endpoint ''/websocket'' Work []"

definition version_string :: string where
  "version_string = ''1.0.0''"

text \<open>What the handler of an endpoint does; \<open>std::exit\<close> ends the process.\<close>

datatype effect = Continue sys | Exits sys | Undefined_behaviour

definition reply_now :: "string \<Rightarrow> sys \<Rightarrow> sys" where
  "reply_now text_l s = s\<lparr>hs := respond (next_request s) text_l (hs s), next_request := Suc (next_request s)\<rparr>"

fun run_endpoint :: "('p, 'f) env \<Rightarrow> config \<Rightarrow> endpoint \<Rightarrow> string \<Rightarrow> sys \<Rightarrow> effect" where
  "run_endpoint E cfg Work body s = Continue (handle_request_async E cfg body s)"
| "run_endpoint E cfg Work_queue body s =
     (case handle_queue_request E (next_request s) (hs s) of
        None \<Rightarrow> Undefined_behaviour
      | Some h \<Rightarrow> Continue (s\<lparr>hs := h, next_request := Suc (next_request s)\<rparr>))"
| "run_endpoint E cfg Work_queue_delete body s =
     Continue (s\<lparr>hs := handle_queue_delete_request E cfg (next_request s) (hs s), next_request := Suc (next_request s)\<rparr>)"
| "run_endpoint E cfg Ping body s = Continue (reply_now ''{\"success\": \"true\"}'' s)"
| "run_endpoint E cfg Stop body s =
     (if allow_control (server cfg) then Exits (reply_now ''{\"success\": \"true\"}'' s)
      else Continue (reply_now ''{\"error\": \"Control requests are not allowed\"}'' s))"
| "run_endpoint E cfg Version body s =
     Continue (reply_now (''{\"version\": \"'' @ version_string @ ''\"}'') s)"

section \<open>The program\<close>

text \<open>The options of the command line that were given.\<close>

record options =
  opt_help :: bool
  opt_generate_config :: bool
  opt_config :: "string list option"
  opt_config_path :: string

definition default_options :: options where
  "default_options = \<lparr>opt_help = False, opt_generate_config = False, opt_config = None,
     opt_config_path = ''./config-nano-pow-server.toml''\<rparr>"

record launch =
  launch_config :: config
  launch_sys :: sys
  launch_web :: web_config
  launch_threads :: u32

datatype outcome = Exit_success string | Exit_failure string | Crash | Serve launch

definition on_config :: "config config_result \<Rightarrow> (config \<Rightarrow> outcome) \<Rightarrow> outcome" where
  "on_config r k =
     (case r of Inl (Throws what) \<Rightarrow> Exit_failure what | Inl Null_dereference \<Rightarrow> Crash | Inr conf \<Rightarrow> k conf)"

definition launch_of :: "config \<Rightarrow> launch" where
  "launch_of conf =
     \<lparr>launch_config = conf, launch_sys = sys_init conf,
      launch_web = \<lparr>static_pages_allow_remote = allow_remote (admin conf), static_pages_allow = admin_enable (admin conf)\<rparr>,
      launch_threads = ucast (threads (server conf))\<rparr>"

text \<open>
  \<open>ctor\<close> is the constructor of the configuration, \<open>config_ctor\<close> with the machine's parameters;
  \<open>documented\<close> is \<open>export_documented\<close>.
\<close>

definition main :: "string \<Rightarrow> (string \<Rightarrow> string list \<Rightarrow> config config_result) \<Rightarrow> (config \<Rightarrow> string) \<Rightarrow> options \<Rightarrow> outcome" where
  "main help_text ctor documented vm =
     (if opt_help vm then Exit_success (help_text @ nl)
      else if opt_generate_config vm then on_config (ctor [] []) (\<lambda>conf. Exit_success (documented conf @ nl))
      else let config_overrides = (case opt_config vm of None \<Rightarrow> [] | Some l \<Rightarrow> l) in
        on_config (ctor (opt_config_path vm) config_overrides) (\<lambda>conf. Serve (launch_of conf)))"

section \<open>Lemmas\<close>

lemma spawn_threads_unat: "spawn_threads i = unat i"
proof (induction i rule: spawn_threads.induct)
  case (1 i)
  show ?case
  proof (cases "i = 0")
    case False
    then have "0 < i" "0 < unat i" by (simp_all add: word_gt_0 unat_gt_0)
    then show ?thesis using 1 False by (simp add: spawn_threads.simps [of i] unat_dec)
  qed (simp add: spawn_threads.simps [of 0])
qed

text \<open>The endpoints as a table.\<close>

definition endpoint_table :: "((verb \<times> string) \<times> endpoint) list" where
  "endpoint_table =
     [((verb_post, ''/''), Work), ((verb_post, ''/api/v1/work''), Work), ((verb_get, ''/api/v1/work/queue''), Work_queue),
      ((verb_delete, ''/api/v1/work/queue''), Work_queue_delete), ((verb_get, ''/api/v1/ping''), Ping),
      ((verb_get, ''/api/v1/stop''), Stop), ((verb_get, ''/api/v1/version''), Version)]"

lemma find_endpoint_plain:
  assumes "\<And>e. e \<in> set es \<Longrightarrow> path_regex e = compile_path (path_verbatim e) \<and> CHR ''?'' \<notin> set (path_verbatim e)"
  shows "find_endpoint es v t =
    map_option (\<lambda>h. (h, [])) (map_of (map (\<lambda>e. ((endpoint_verb e, path_verbatim e), endpoint_handler e)) es) (v, t))"
  using assms
proof (induction es)
  case (Cons e es)
  have "regex_match (path_regex e) t = (if t = path_verbatim e then Some [] else None)"
    using Cons.prems [of e] by (simp add: regex_match_plain)
  then show ?case using Cons by auto
qed simp

lemma http_endpoints_table:
  "map (\<lambda>e. ((endpoint_verb e, path_verbatim e), endpoint_handler e)) http_endpoints = endpoint_table"
  by (simp add: http_endpoints_def add_get_endpoint_def add_post_endpoint_def add_delete_endpoint_def
      add_endpoint_def endpoint_table_def)

lemma http_endpoints_plain:
  "e \<in> set http_endpoints \<Longrightarrow> path_regex e = compile_path (path_verbatim e) \<and> CHR ''?'' \<notin> set (path_verbatim e)"
  by (auto simp: http_endpoints_def add_get_endpoint_def add_post_endpoint_def add_delete_endpoint_def
      add_endpoint_def)

section \<open>Properties\<close>

text \<open>
  The web server answers on exactly the documented endpoints. A request reaches the handler that
  the table names for its verb and its whole target, and no other request reaches one.
\<close>

theorem endpoint_dispatch:
  "find_endpoint http_endpoints v t = map_option (\<lambda>h. (h, [])) (map_of endpoint_table (v, t))"
  unfolding http_endpoints_table [symmetric] by (rule find_endpoint_plain) (rule http_endpoints_plain)

text \<open>
  Without \<open>server.allow_control\<close> no endpoint ends the process, and deleting the queue has no
  effect on it.
\<close>

theorem control_requires_permission:
  assumes "\<not> allow_control (server cfg)"
  shows "run_endpoint E cfg e body s \<noteq> Exits s'
    \<and> (run_endpoint E cfg Work_queue_delete body s = Continue s' \<longrightarrow> jobs (hs s') = jobs (hs s))"
  using assms
  by (cases e) (auto simp: handle_queue_delete_request_def split: option.splits)

text \<open>
  The number of I/O threads. With a configured count of at least two there is one thread less
  than configured; with a count of one the loop of \<open>start\<close> counts down from the largest 64 bit
  number. (\<open>reserve\<close> of the standard library in use allocates what is asked for.)
\<close>

theorem io_thread_count:
  "io_threads (reserved_threads thread_count) =
     (if thread_count = 1 then 2 ^ 64 else if thread_count = 0 then 2 ^ 32 - 1 else unat thread_count - 1)"
proof -
  have "unat (reserved_threads thread_count) = unat (thread_count - 1)"
    using unsigned_less [of "thread_count - 1", where 'a = nat]
    by (simp add: reserved_threads_def unsigned_ucast_eq take_bit_nat_eq_self)
  note reserved = this
  show ?thesis
  proof (cases "thread_count = 0 \<or> thread_count = 1")
    case True
    then show ?thesis
      by (auto simp: io_threads_def spawn_threads_unat reserved_threads_def unsigned_minus_1_eq_mask mask_eq_exp_minus_1)
  next
    case False
    then have "unat thread_count \<noteq> unat (0 :: u32)" "unat thread_count \<noteq> unat (1 :: u32)"
      unfolding word_unat_eq_iff [symmetric] by simp_all
    then have two: "unat thread_count \<noteq> 0" "unat thread_count \<noteq> 1" by simp_all
    then have "unat (reserved_threads thread_count) \<noteq> unat (0 :: u64)"
      using reserved False unat_dec [of thread_count] by simp
    then have "reserved_threads thread_count \<noteq> 0" by (metis (no_types))
    note two this
    moreover note False
    ultimately show ?thesis
      using reserved by (simp add: io_threads_def spawn_threads_unat unat_dec)
  qed
qed

text \<open>
  With the default configuration the server runs but refuses every \<open>work_generate\<close>: no device is
  configured. No static page is served, and control requests are refused.
\<close>

theorem default_configuration:
  assumes "multiprecision M" and "fs (opt_config_path default_options) = None"
  shows "\<exists>l. main help_text (config_ctor M loopback hardware_concurrency fs) documented default_options = Serve l
    \<and> \<not> static_pages_allow (launch_web l) \<and> \<not> allow_control (server (launch_config l))
    \<and> (\<forall>E body d req. read_json E body = Inr req \<and> get_string E req ''action'' = Some ''work_generate'' \<longrightarrow>
         parse_request (E :: ('p, 'f) env) (launch_config l) body d
           = (Refused (get_string E req ''id'') ''No work device has been configured'', d))"
proof -
  have hex: "\<forall>c \<in> set BASE_DIFFICULTY. is_hex c" "BASE_DIFFICULTY \<noteq> []" "length BASE_DIFFICULTY = 16"
    by (simp_all add: BASE_DIFFICULTY_def is_hex_def)
  have base: "bi_of_string M BASE_DIFFICULTY = Inr (bi_set M (of_nat (hex_value BASE_DIFFICULTY)))"
    using multiprecision.from_hex_digits [OF assms(1) hex(2) hex(1)] hex(3) by (simp add: bi_of_string_def)
  let ?cfg = "\<lparr>server = default_server loopback hardware_concurrency, devices = [],
     work = \<lparr>base_difficulty = bi_set M (of_nat (hex_value BASE_DIFFICULTY)), mock_work_generation_delay = 0\<rparr>,
     admin = default_admin\<rparr>"
  have "parse_base_and_override_files nl nl Merge_ignore False = Some (Inr [])"
    by code_simp
  then have "read_config fs (opt_config_path default_options) [] = Inr []"
    using assms(2) by (simp add: read_config_def overrides_text_def config_input_def config_file_exists_def nl_def)
  then have "config_ctor M loopback hardware_concurrency fs (opt_config_path default_options) [] = Inr ?cfg"
    by (simp add: config_ctor_def config_of_tree_def default_work_def base read_section_def read_devices_def contains_def)
  then have "main help_text (config_ctor M loopback hardware_concurrency fs) documented default_options
      = Serve (launch_of ?cfg)"
    by (simp add: main_def default_options_def on_config_def)
  then show ?thesis
    by (intro exI [of _ "launch_of ?cfg"])
      (auto simp: launch_of_def default_admin_def default_server_def parse_request_def parse_generate_def Let_def)
qed

theorem default_configuration_witness:
  "\<exists>l. main [] (config_ctor ref128 ''::1'' 4 (\<lambda>p. None)) (\<lambda>c. []) default_options = Serve l"
  using default_configuration [OF u128.multiprecision_axioms, of "\<lambda>p. None" "[]" "''::1''" 4 "\<lambda>c. []"]
  by auto

definition refusing_config :: config where
  "refusing_config = \<lparr>server = default_server ''::1'' 4, devices = [],
     work = \<lparr>base_difficulty = [], mock_work_generation_delay = 0\<rparr>, admin = default_admin\<rparr>"

theorem control_requires_permission_witness:
  "\<forall>s'. run_endpoint (demo_env [] id) refusing_config Stop [] (sys_init refusing_config) \<noteq> Exits s'"
proof -
  have "\<not> allow_control (server refusing_config)" by (simp add: refusing_config_def default_server_def)
  then show ?thesis using control_requires_permission by blast
qed

end
