(* ===== verification/Listener.thy ===== *)
theory Listener
  imports Sessions
begin

text \<open>
  \<open>src/workserver/webserver.hpp\<close>: the timer and the lifetime of an HTTP connection, and the listener
  that accepts connections. Times are seconds. What the operating system answers is a parameter.
\<close>

section \<open>HTTP connections and their timer\<close>

text \<open>
  \<open>timer_expiry\<close> is \<open>None\<close> for the farthest time point, \<open>timer_waits\<close> counts the waits under way,
  \<open>socket_moved\<close> is that the socket went to a WebSocket session. Ghost fields are \<open>conn_clock\<close>;
  \<open>last_read\<close>, the time at which the last read from the open socket was started; and \<open>timer_lost\<close>, that
  a wait has failed.
\<close>

record connection =
  http :: http_session
  timer_expiry :: "int option"
  timer_waits :: nat
  socket_open :: bool
  socket_moved :: bool
  conn_clock :: int
  last_read :: int
  timer_lost :: bool

definition http_session_ctor :: "int \<Rightarrow> connection" where
  "http_session_ctor now =
     \<lparr>http = \<lparr>items = [], reading = 0, writing = 0, client_version = 11, client_keepalive = True, pending = 0,
        stopped = False, received = [], submitted = [], written = []\<rparr>,
      timer_expiry = None, timer_waits = 0, socket_open = True, socket_moved = False, conn_clock = now, last_read = now,
      timer_lost = False\<rparr>"

text \<open>A wait ends when the time has come or when the deadline is moved, or it fails.\<close>

datatype timer_event = Timer_done | Timer_failed

definition timer_expired :: "connection \<Rightarrow> bool" where
  "timer_expired c \<longleftrightarrow> (case timer_expiry c of None \<Rightarrow> False | Some e \<Rightarrow> e \<le> conn_clock c)"

definition conn_on_timer :: "timer_event \<Rightarrow> connection \<Rightarrow> connection" where
  "conn_on_timer ev c =
     (if ev = Timer_failed then c\<lparr>timer_lost := True\<rparr>
      else if timer_expired c then c\<lparr>socket_open := False\<rparr>
      else c\<lparr>timer_waits := Suc (timer_waits c)\<rparr>)"

text \<open>
  A handler \<open>f\<close> of the session runs in the session's state \<open>s\<close>. \<open>read\<close> moves the deadline when it
  starts a read; the wait that this cancels ends, and \<open>on_timer\<close> waits again.
\<close>

definition expires_after :: "int \<Rightarrow> connection \<Rightarrow> connection" where
  "expires_after d c = c\<lparr>timer_expiry := Some (conn_clock c + d)\<rparr>"

definition run_handler :: "(http_session \<Rightarrow> http_session) \<Rightarrow> http_session \<Rightarrow> connection \<Rightarrow> connection" where
  "run_handler f s c =
     (let c' = c\<lparr>http := f s\<rparr> in if reading s < reading (f s) then expires_after 3600 c' else c')"

text \<open>
  The ghost of a read: more reads are under way than before the handler ran. It is apart from the code,
  which sets the deadline and not the ghost.
\<close>

definition note_read :: "http_session \<Rightarrow> connection \<Rightarrow> connection" where
  "note_read s c = (if reading s < reading (http c) \<and> socket_open c then c\<lparr>last_read := conn_clock c\<rparr> else c)"

definition connection_run :: "int \<Rightarrow> connection" where
  "connection_run now =
     (let c = conn_on_timer Timer_done (http_session_ctor now) in note_read (http c) (run_handler session_read (http c) c))"

definition conn_on_read ::
  "(http_request \<Rightarrow> 'h reply) \<Rightarrow> read_event \<Rightarrow> nat \<Rightarrow> connection \<Rightarrow> connection" where
  "conn_on_read handle ev n c =
     (let s = (http c)\<lparr>reading := n\<rparr> in note_read s (run_handler (on_read handle ev) s c))"

definition conn_on_write :: "write_event \<Rightarrow> nat \<Rightarrow> connection \<Rightarrow> connection" where
  "conn_on_write ev n c =
     (let s = (http c)\<lparr>writing := n\<rparr> in note_read s (run_handler (on_write ev) s c))"

definition conn_answer :: "string \<Rightarrow> nat \<Rightarrow> connection \<Rightarrow> connection" where
  "conn_answer text_l n c =
     (let s = (http c)\<lparr>pending := n\<rparr> in note_read s (run_handler (write_json_response text_l) s c))"

text \<open>
  A request to upgrade moves the socket to a new WebSocket session if its path is that of an
  endpoint; otherwise nothing is sent.
\<close>

definition on_upgrade ::
  "'h websocket_endpoint list \<Rightarrow> string \<Rightarrow> nat \<Rightarrow> connection \<Rightarrow> connection \<times> ('h \<times> ws_session) option" where
  "on_upgrade handlers target_l n c =
     (let c' = c\<lparr>http := (http c)\<lparr>reading := n\<rparr>\<rparr> in
      case find_websocket_endpoint handlers target_l of
        Some h \<Rightarrow> (c'\<lparr>socket_moved := True\<rparr>, Some (h, ws_do_accept (conn_clock c)))
      | None \<Rightarrow> (c', None))"

text \<open>
  The operations under way hold references to the session; when the last one is gone, the session
  and its socket are destroyed.
\<close>

definition referenced :: "connection \<Rightarrow> bool" where
  "referenced c \<longleftrightarrow> 0 < reading (http c) \<or> 0 < writing (http c) \<or> 0 < pending (http c) \<or> 0 < timer_waits c"

definition descriptor_held :: "connection \<Rightarrow> bool" where
  "descriptor_held c \<longleftrightarrow> socket_open c \<and> \<not> socket_moved c \<and> referenced c"

inductive conn_step ::
  "(http_request \<Rightarrow> 'h reply) \<Rightarrow> 'w websocket_endpoint list \<Rightarrow> connection \<Rightarrow> connection \<Rightarrow> bool"
  for handle handlers where
  time_passes: "conn_clock c \<le> now \<Longrightarrow> conn_step handle handlers c (c\<lparr>conn_clock := now\<rparr>)"
| read_ends: "reading (http c) = Suc n \<Longrightarrow> conn_step handle handlers c (conn_on_read handle ev n c)"
| upgrade: "reading (http c) = Suc n \<Longrightarrow> conn_step handle handlers c (fst (on_upgrade handlers target_l n c))"
| write_ends: "writing (http c) = Suc n \<Longrightarrow> conn_step handle handlers c (conn_on_write ev n c)"
| timer_ends: "timer_waits c = Suc n \<Longrightarrow> conn_step handle handlers c (conn_on_timer Timer_done (c\<lparr>timer_waits := n\<rparr>))"
| timer_fails: "timer_waits c = Suc n \<Longrightarrow> conn_step handle handlers c (conn_on_timer Timer_failed (c\<lparr>timer_waits := n\<rparr>))"
| answered_later: "pending (http c) = Suc n \<Longrightarrow> conn_step handle handlers c (conn_answer text_l n c)"

inductive conn_reachable :: "(http_request \<Rightarrow> 'h reply) \<Rightarrow> 'w websocket_endpoint list \<Rightarrow> connection \<Rightarrow> bool"
  for handle handlers where
  conn_init: "conn_reachable handle handlers (connection_run now)"
| conn_next: "conn_reachable handle handlers c \<Longrightarrow> conn_step handle handlers c c' \<Longrightarrow> conn_reachable handle handlers c'"

section \<open>The listener\<close>

text \<open>The answers of the system: an error message, or \<open>None\<close> for success.\<close>

record 'a network =
  make_address :: "string \<Rightarrow> string + 'a"
  open_acceptor :: "'a \<Rightarrow> string option"
  set_reuse_address :: "string option"
  bind_acceptor :: "'a \<Rightarrow> 16 word \<Rightarrow> string option"
  listen_acceptor :: "string option"

datatype acceptor = Not_open | Opened_acceptor | Bound_acceptor | Listening

text \<open>\<open>failures\<close> is what \<open>fail\<close> has printed; \<open>sessions_started\<close> is a ghost field.\<close>

record listener =
  acceptor :: acceptor
  accepting :: nat
  failures :: "(string \<times> string) list"
  sessions_started :: nat

definition fail :: "string \<Rightarrow> string \<Rightarrow> listener \<Rightarrow> listener" where
  "fail ec what l = l\<lparr>failures := failures l @ [(what, ec)]\<rparr>"

text \<open>\<open>set_option\<close> is called without an error code, so it throws.\<close>

definition listener_ctor :: "'a network \<Rightarrow> 'a \<Rightarrow> 16 word \<Rightarrow> listener result" where
  "listener_ctor N address port =
     (let l = \<lparr>acceptor = Not_open, accepting = 0, failures = [], sessions_started = 0\<rparr> in
      case open_acceptor N address of Some ec \<Rightarrow> Inr (fail ec ''open'' l) | None \<Rightarrow>
      case set_reuse_address N of Some what \<Rightarrow> Inl what | None \<Rightarrow>
      case bind_acceptor N address port of Some ec \<Rightarrow> Inr (fail ec ''bind'' (l\<lparr>acceptor := Opened_acceptor\<rparr>)) | None \<Rightarrow>
      case listen_acceptor N of Some ec \<Rightarrow> Inr (fail ec ''listen'' (l\<lparr>acceptor := Bound_acceptor\<rparr>)) | None \<Rightarrow>
      Inr (l\<lparr>acceptor := Listening\<rparr>))"

definition do_accept :: "listener \<Rightarrow> listener" where
  "do_accept l = l\<lparr>accepting := Suc (accepting l)\<rparr>"

definition listener_run :: "listener \<Rightarrow> listener" where
  "listener_run l = (if acceptor l \<noteq> Not_open then do_accept l else l)"

text \<open>
  An accept ends with an error, with a connection, or with a connection whose peer is gone
  already: then \<open>remote_endpoint\<close> throws.
\<close>

datatype accept_event = Accept_failed string | Accepted | Peer_gone string

definition on_accept :: "int \<Rightarrow> accept_event \<Rightarrow> listener \<Rightarrow> (listener \<times> connection option) result" where
  "on_accept now ev l =
     (case ev of
        Accept_failed ec \<Rightarrow> Inr (do_accept (fail ec ''accept'' l), None)
      | Accepted \<Rightarrow> Inr (do_accept (l\<lparr>sessions_started := Suc (sessions_started l)\<rparr>), Some (connection_run now))
      | Peer_gone what \<Rightarrow> Inl what)"

definition web_start :: "'a network \<Rightarrow> string \<Rightarrow> 16 word \<Rightarrow> listener result" where
  "web_start N address_a port_a =
     bind_result (make_address N address_a)
       (\<lambda>address. bind_result (listener_ctor N address port_a) (\<lambda>l. Inr (listener_run l)))"

text \<open>
  The accepts end one after the other, each at its time; a connection is added for each that succeeds.
  An exception leaves the loop and the listener. An acceptor that is not open has no accept under way,
  and one that does not listen gives errors only.
\<close>

fun accept_all :: "(int \<times> accept_event) list \<Rightarrow> listener \<Rightarrow> (listener \<times> connection list) result" where
  "accept_all [] l = Inr (l, [])"
| "accept_all ((now, ev) # evs) l =
     bind_result (on_accept now ev (l\<lparr>accepting := accepting l - 1\<rparr>)) (\<lambda>(l', c).
     bind_result (accept_all evs l') (\<lambda>(l'', cs).
       Inr (l'', (case c of None \<Rightarrow> cs | Some x \<Rightarrow> x # cs))))"

definition possible_accepts :: "listener \<Rightarrow> (int \<times> accept_event) list \<Rightarrow> bool" where
  "possible_accepts l evs \<longleftrightarrow> (acceptor l = Not_open \<longrightarrow> evs = [])
     \<and> (acceptor l \<noteq> Listening \<longrightarrow> (\<forall>e \<in> set evs. \<exists>ec. snd e = Accept_failed ec))"

section \<open>Lemmas\<close>

lemma connection_run_simps [simp]:
  "http (connection_run now) = session_run" "timer_expiry (connection_run now) = Some (now + 3600)"
  "timer_waits (connection_run now) = 1" "socket_open (connection_run now)" "\<not> socket_moved (connection_run now)"
  "conn_clock (connection_run now) = now" "last_read (connection_run now) = now" "\<not> timer_lost (connection_run now)"
  by (simp_all add: connection_run_def http_session_ctor_def conn_on_timer_def timer_expired_def run_handler_def
      note_read_def expires_after_def session_run_def session_read_def Let_def)

lemma run_handler_simps [simp]:
  "http (run_handler f s c) = f s" "timer_waits (run_handler f s c) = timer_waits c"
  "socket_open (run_handler f s c) = socket_open c" "socket_moved (run_handler f s c) = socket_moved c"
  "conn_clock (run_handler f s c) = conn_clock c" "timer_lost (run_handler f s c) = timer_lost c"
  by (simp_all add: run_handler_def expires_after_def Let_def)

lemma note_read_simps [simp]:
  "http (note_read s c) = http c" "timer_waits (note_read s c) = timer_waits c"
  "timer_expiry (note_read s c) = timer_expiry c"
  "socket_open (note_read s c) = socket_open c" "socket_moved (note_read s c) = socket_moved c"
  "conn_clock (note_read s c) = conn_clock c" "timer_lost (note_read s c) = timer_lost c"
  by (simp_all add: note_read_def)

text \<open>
  While the socket is open and no wait has failed, exactly one wait is under way, and it is not over
  before the deadline, an hour after the last read. After a failure no wait is under way.
\<close>

definition timer_inv :: "connection \<Rightarrow> bool" where
  "timer_inv c \<longleftrightarrow> timer_waits c = (if socket_open c \<and> \<not> timer_lost c then 1 else 0)
     \<and> (socket_open c \<longrightarrow> timer_expiry c = Some (last_read c + 3600))
     \<and> (\<not> socket_open c \<longrightarrow> \<not> timer_lost c \<and> last_read c + 3600 \<le> conn_clock c)"

lemma timer_inv_handler: "timer_inv c \<Longrightarrow> timer_inv (note_read s (run_handler f s c))"
  by (simp add: timer_inv_def run_handler_def note_read_def expires_after_def Let_def)

lemma timer_inv_step: "conn_step handle handlers c c' \<Longrightarrow> timer_inv c \<Longrightarrow> timer_inv c'"
proof (induction rule: conn_step.induct)
  case (timer_ends c n)
  then show ?case by (auto simp: timer_inv_def conn_on_timer_def timer_expired_def split: if_splits)
next
  case (timer_fails c n)
  then show ?case by (auto simp: timer_inv_def conn_on_timer_def split: if_splits)
next
  case (upgrade c n target_l)
  then show ?case by (auto simp: timer_inv_def on_upgrade_def Let_def split: option.splits)
next
  case (time_passes c now)
  then show ?case by (auto simp: timer_inv_def)
qed (simp_all add: conn_on_read_def conn_on_write_def conn_answer_def timer_inv_handler Let_def)

interpretation conn_runs: transitions "\<lambda>c. \<exists>now. c = connection_run now" "conn_step handle handlers" "conn_reachable handle handlers"
  for handle handlers
proof unfold_locales
  show "P s" if "conn_reachable handle handlers s" "\<And>s. \<exists>now. s = connection_run now \<Longrightarrow> P s"
    "\<And>s s'. conn_reachable handle handlers s \<Longrightarrow> P s \<Longrightarrow> conn_step handle handlers s s' \<Longrightarrow> P s'" for P s
    using that(1) by (induction rule: conn_reachable.induct) (use that(2,3) in blast)+
qed (auto intro: conn_reachable.intros)

lemma timer_inv_init: "timer_inv (connection_run now)"
  by (simp add: timer_inv_def)

lemma conn_reachable_timer: "conn_reachable handle handlers c \<Longrightarrow> timer_inv c"
  by (rule conn_runs.invariant_holds) (auto intro: timer_inv_init timer_inv_step)

lemma listener_ctor_cases:
  assumes "listener_ctor N address port = Inr l"
  shows "accepting l = 0 \<and> sessions_started l = 0 \<and> (acceptor l \<noteq> Listening \<longrightarrow> failures l \<noteq> [])"
  using assms by (auto simp: listener_ctor_def fail_def Let_def split: option.splits)

text \<open>One accept ends: what \<open>on_accept\<close> does to a listener with one accept under way.\<close>

lemma on_accept_one:
  assumes "accepting l = 1"
  shows "on_accept now ev (l\<lparr>accepting := accepting l - 1\<rparr>) =
     (case ev of
        Accept_failed ec \<Rightarrow> Inr (fail ec ''accept'' l, None)
      | Accepted \<Rightarrow> Inr (l\<lparr>sessions_started := Suc (sessions_started l)\<rparr>, Some (connection_run now))
      | Peer_gone what \<Rightarrow> Inl what)"
  using assms by (cases l) (simp add: on_accept_def do_accept_def fail_def split: accept_event.split)

fun accept_error :: "accept_event \<Rightarrow> (string \<times> string) list" where
  "accept_error (Accept_failed ec) = [(''accept'', ec)]"
| "accept_error _ = []"

fun peer_gone :: "accept_event \<Rightarrow> string option" where
  "peer_gone (Peer_gone what) = Some what"
| "peer_gone _ = None"

abbreviation accepted_at :: "(int \<times> accept_event) list \<Rightarrow> int list" where
  "accepted_at evs \<equiv> map fst (filter (\<lambda>e. snd e = Accepted) evs)"

lemma accept_all_one:
  "accepting l = 1 \<Longrightarrow> accept_all evs l =
     (case find (\<lambda>e. peer_gone (snd e) \<noteq> None) evs of
        Some e \<Rightarrow> Inl (the (peer_gone (snd e)))
      | None \<Rightarrow> Inr (l\<lparr>failures := failures l @ concat (map (\<lambda>e. accept_error (snd e)) evs),
                       sessions_started := sessions_started l + length (accepted_at evs)\<rparr>,
                     map connection_run (accepted_at evs)))"
proof (induction evs arbitrary: l)
  case (Cons e evs)
  obtain now ev where e: "e = (now, ev)" by (cases e)
  show ?case
  proof (cases ev)
    case (Accept_failed ec)
    have "accepting (fail ec ''accept'' l) = 1" using Cons.prems by (simp add: fail_def)
    from Cons.IH [OF this] show ?thesis
      unfolding e Accept_failed accept_all.simps on_accept_one [OF Cons.prems]
      by (simp add: fail_def split: option.splits)
  next
    case Accepted
    have "accepting (l\<lparr>sessions_started := Suc (sessions_started l)\<rparr>) = 1" using Cons.prems by simp
    from Cons.IH [OF this] show ?thesis
      unfolding e Accepted accept_all.simps on_accept_one [OF Cons.prems]
      by (simp split: option.splits)
  next
    case (Peer_gone what)
    show ?thesis unfolding e Peer_gone accept_all.simps on_accept_one [OF Cons.prems] by simp
  qed
qed simp

lemma web_start_listener:
  assumes "web_start N address_a port_a = Inr l"
  shows "accepting l = (if acceptor l = Not_open then 0 else 1) \<and> sessions_started l = 0
    \<and> (acceptor l \<noteq> Listening \<longrightarrow> failures l \<noteq> [])"
proof -
  obtain address l1 where "listener_ctor N address port_a = Inr l1" and l: "l = listener_run l1"
    using assms by (auto simp: web_start_def bind_result_Inr)
  then show ?thesis
    using listener_ctor_cases [of N address port_a l1]
    by (simp add: listener_run_def do_accept_def split: if_splits)
qed

lemma timer_lost_step:
  "conn_step handle handlers c c' \<Longrightarrow> timer_lost c \<Longrightarrow> timer_waits c = 0 \<Longrightarrow>
   timer_lost c' \<and> timer_waits c' = 0 \<and> socket_open c' = socket_open c"
  by (induction rule: conn_step.induct)
    (simp_all add: conn_on_read_def conn_on_write_def conn_answer_def on_upgrade_def Let_def split: option.split)

lemma timer_lost_run:
  "(conn_step handle handlers)\<^sup>*\<^sup>* c c' \<Longrightarrow> timer_lost c \<Longrightarrow> timer_waits c = 0 \<Longrightarrow>
   timer_lost c' \<and> timer_waits c' = 0 \<and> socket_open c' = socket_open c"
  by (induction rule: rtranclp_induct) (use timer_lost_step in fastforce)+

section \<open>Properties\<close>

text \<open>
  C31: the timer of an HTTP connection. It closes the socket only when an hour has passed since the last
  read was started, so long requests are allowed for. As long as the socket is open and no wait has
  failed, one wait for the timer is under way, which keeps the session: the descriptor of a connection
  that the other side has closed, too, is held for the rest of the hour. After a wait has failed none
  is started, and the timer never closes the socket in any continuation.
\<close>

theorem connection_timer:
  assumes "conn_reachable handle handlers c"
  shows "(\<not> socket_open c \<longrightarrow> last_read c + 3600 \<le> conn_clock c)
    \<and> timer_waits c = (if socket_open c \<and> \<not> timer_lost c then 1 else 0)
    \<and> (conn_clock c < last_read c + 3600 \<and> \<not> socket_moved c \<and> \<not> timer_lost c \<longrightarrow> descriptor_held c)
    \<and> (timer_lost c \<longrightarrow> (\<forall>c'. (conn_step handle handlers)\<^sup>*\<^sup>* c c' \<longrightarrow> socket_open c'))"
proof -
  have inv: "timer_inv c" by (rule conn_reachable_timer [OF assms])
  have "socket_open c'" if "timer_lost c" "(conn_step handle handlers)\<^sup>*\<^sup>* c c'" for c'
    using timer_lost_run [OF that(2,1)] inv that(1) by (auto simp: timer_inv_def)
  then show ?thesis using inv by (auto simp: timer_inv_def descriptor_held_def referenced_def)
qed

text \<open>A client connects and leaves at once; its descriptor is still held 3,599 seconds later.\<close>

definition abandoned :: connection where
  "abandoned = (conn_on_read late_endpoint Read_eof 0 (connection_run 0))\<lparr>conn_clock := 3599\<rparr>"

theorem connection_timer_witness:
  "descriptor_held abandoned \<and> reading (http abandoned) = 0 \<and> writing (http abandoned) = 0 \<and> pending (http abandoned) = 0"
proof -
  let ?c = "conn_on_read late_endpoint Read_eof 0 (connection_run 0)"
  have start: "conn_reachable late_endpoint ([] :: nat websocket_endpoint list) (connection_run 0)" by (rule conn_init)
  have "conn_step late_endpoint ([] :: nat websocket_endpoint list) (connection_run 0) ?c"
    by (rule read_ends) simp
  then have eof: "conn_reachable late_endpoint ([] :: nat websocket_endpoint list) ?c" by (rule conn_next [OF start])
  have "conn_step late_endpoint ([] :: nat websocket_endpoint list) ?c abandoned"
    unfolding abandoned_def by (rule time_passes) (simp add: conn_on_read_def Let_def)
  then have "conn_reachable late_endpoint ([] :: nat websocket_endpoint list) abandoned" by (rule conn_next [OF eof])
  moreover have "conn_clock abandoned = 3599" "last_read abandoned = 0" "\<not> socket_moved abandoned" "\<not> timer_lost abandoned"
    by (simp_all add: abandoned_def conn_on_read_def run_handler_def note_read_def Let_def)
  ultimately have "descriptor_held abandoned" using connection_timer by fastforce
  then show ?thesis by (simp add: abandoned_def conn_on_read_def Let_def)
qed

text \<open>
  C32: what becomes of the listener. When accepting meets a connection whose peer is gone already, the
  exception of the first one ends it, whatever came before. Otherwise, whatever errors occur, it has
  one accept under way at all times, has reported each error, and has started one session for each
  connection, at its time. A listener whose acceptor could not be opened, bound or put to listening has
  reported that, but the server does not end: it never starts a session, and if opening succeeded it
  keeps trying to accept.
\<close>

theorem listener_never_stops:
  assumes "web_start N address_a port_a = Inr l0" and "possible_accepts l0 evs"
  shows "(case find (\<lambda>e. peer_gone (snd e) \<noteq> None) evs of
        Some e \<Rightarrow> acceptor l0 = Listening \<and> accept_all evs l0 = Inl (the (peer_gone (snd e)))
      | None \<Rightarrow> (\<exists>l. accept_all evs l0 = Inr (l, map connection_run (accepted_at evs))
          \<and> accepting l = (if acceptor l0 = Not_open then 0 else 1)
          \<and> sessions_started l = length (accepted_at evs)
          \<and> failures l = failures l0 @ concat (map (\<lambda>e. accept_error (snd e)) evs)
          \<and> (acceptor l0 \<noteq> Listening \<longrightarrow> sessions_started l = 0 \<and> failures l0 \<noteq> [])))"
proof (cases "acceptor l0 = Not_open")
  case True
  then show ?thesis using web_start_listener [OF assms(1)] assms(2) by (simp add: possible_accepts_def)
next
  case False
  then have one: "accepting l0 = 1" using web_start_listener [OF assms(1)] by simp
  have no: "accepted_at evs = [] \<and> find (\<lambda>e. peer_gone (snd e) \<noteq> None) evs = None" if "acceptor l0 \<noteq> Listening"
  proof -
    have "\<forall>e \<in> set evs. \<exists>ec. snd e = Accept_failed ec" using assms(2) that by (simp add: possible_accepts_def)
    then show ?thesis by (fastforce simp: find_None_iff filter_empty_conv)
  qed
  show ?thesis
  proof (cases "find (\<lambda>e. peer_gone (snd e) \<noteq> None) evs")
    case None
    then show ?thesis
      using accept_all_one [OF one, of evs] web_start_listener [OF assms(1)] no False by auto
  next
    case (Some e)
    then show ?thesis using accept_all_one [OF one, of evs] no by (cases "acceptor l0 = Listening") simp_all
  qed
qed

definition all_well :: "unit network" where
  "all_well = \<lparr>make_address = (\<lambda>_. Inr ()), open_acceptor = (\<lambda>_. None), set_reuse_address = None,
     bind_acceptor = (\<lambda>_ _. None), listen_acceptor = None\<rparr>"

definition demo_accepts :: "(int \<times> accept_event) list" where
  "demo_accepts = [(1, Accepted), (2, Accept_failed ''Too many open files''), (3, Peer_gone ''not connected''), (4, Accepted)]"

lemma all_well_start:
  "web_start all_well ''::1'' 8076 = Inr \<lparr>acceptor = Listening, accepting = 1, failures = [], sessions_started = 0\<rparr>"
  by (simp add: web_start_def all_well_def listener_ctor_def listener_run_def do_accept_def)

theorem listener_never_stops_witness:
  "accept_all demo_accepts \<lparr>acceptor = Listening, accepting = 1, failures = [], sessions_started = 0\<rparr> = Inl ''not connected''
   \<and> (\<exists>l. accept_all (take 2 demo_accepts) \<lparr>acceptor = Listening, accepting = 1, failures = [], sessions_started = 0\<rparr>
        = Inr (l, [connection_run 1]) \<and> accepting l = 1 \<and> failures l = [(''accept'', ''Too many open files'')])"
proof -
  have "possible_accepts \<lparr>acceptor = Listening, accepting = 1, failures = [], sessions_started = 0\<rparr> evs" for evs
    by (simp add: possible_accepts_def)
  from listener_never_stops [OF all_well_start this, of demo_accepts]
    listener_never_stops [OF all_well_start this, of "take 2 demo_accepts"]
  show ?thesis by (auto simp: demo_accepts_def)
qed

end
