(* ===== verification/Network.thy ===== *)
theory Network
  imports Runs Server Listener
begin

text \<open>
  The whole server while it runs: the listener, the connections with their sessions, and the work
  server. A request that a session reads is given to its endpoint; the callback that goes with it
  holds the session, so \<open>origins\<close> gives for each request of the work server the connection it came from.
\<close>

section \<open>State\<close>

text \<open>
  An HTTP connection from the same host or from elsewhere, and a WebSocket with its endpoint. The
  callback of a WebSocket posts its answer to the session's strand.
\<close>

datatype conn = Http bool connection | Websocket endpoint "string list" ws_session

text \<open>What ends the program: the stop endpoint, an exception, undefined behaviour, a signal.\<close>

datatype ending = By_request | By_exception string | By_undefined_behaviour | By_signal

record net =
  listening :: listener
  conns :: "conn list"
  node :: sys
  origins :: "nat list"
  ended :: "ending option"

definition net_init :: "config \<Rightarrow> listener \<Rightarrow> net" where
  "net_init cfg l = \<lparr>listening = l, conns = [], node = sys_init cfg, origins = [], ended = None\<rparr>"

text \<open>\<open>main\<close> starts the web server; an exception ends the program with a failure.\<close>

definition serve :: "'a network \<Rightarrow> launch \<Rightarrow> net result" where
  "serve W l =
     (let conf = launch_config l in
      bind_result (web_start W (bind_address (server conf)) (port (server conf)))
        (\<lambda>lis. Inr (net_init conf lis)))"

section \<open>Steps\<close>

text \<open>
  What a step abstracts from. An answer is handed to its session in one step with the step of the
  work server that gives it; the code calls \<open>write_json_response\<close> from the pool's thread, where it can
  race with the session's strand, which is the subject of the theory \<open>Races\<close>. And responses and messages
  are values here, so that what is counted below is what sessions are handed, not what is on the wire.
\<close>

fun give_answer :: "string \<Rightarrow> conn \<Rightarrow> conn" where
  "give_answer text_l (Http loopback_l c) = Http loopback_l (conn_answer text_l (pending (http c) - 1) c)"
| "give_answer text_l (Websocket h mail s) = Websocket h (mail @ [text_l]) s"

definition deliver :: "nat \<times> string \<Rightarrow> net \<Rightarrow> net" where
  "deliver a N =
     (let i = origins N ! fst a in N\<lparr>conns := (conns N)[i := give_answer (snd a) (conns N ! i)]\<rparr>)"

definition new_answers :: "sys \<Rightarrow> sys \<Rightarrow> (nat \<times> string) list" where
  "new_answers s s' = drop (length (answers (hs s))) (answers (hs s'))"

text \<open>The work server goes on to \<open>s'\<close>, and the callbacks for its new answers are called.\<close>

definition run_node :: "sys \<Rightarrow> net \<Rightarrow> net" where
  "run_node s' N = fold deliver (new_answers (node N) s') (N\<lparr>node := s'\<rparr>)"

text \<open>
  A session reads a request: an endpoint that answers at once does so within \<open>on_read\<close>. Ending the
  process and undefined behaviour end the run.
\<close>

definition http_request ::
  "('p, 'f) env \<Rightarrow> config \<Rightarrow> (bool \<Rightarrow> http_request \<Rightarrow> endpoint reply) \<Rightarrow> nat \<Rightarrow> bool \<Rightarrow> connection \<Rightarrow> nat \<Rightarrow>
   http_request \<Rightarrow> net \<Rightarrow> net" where
  "http_request E cfg handle i loopback_l c n req N =
     (let reads = (\<lambda>immediate. Http loopback_l (conn_on_read (handle loopback_l) (Read_request req immediate) n c)) in
      case handle loopback_l req of
        Respond r \<Rightarrow> N\<lparr>conns := (conns N)[i := reads None]\<rparr>
      | Call h body params \<Rightarrow>
          (case run_endpoint E cfg h body (node N) of
             Continue s' \<Rightarrow>
               N\<lparr>node := s', origins := origins N @ [i],
                 conns := (conns N)[i := reads (case new_answers (node N) s' of [] \<Rightarrow> None | a # _ \<Rightarrow> Some (snd a))]\<rparr>
           | Exits s' \<Rightarrow> N\<lparr>ended := Some By_request\<rparr>
           | Undefined_behaviour \<Rightarrow> N\<lparr>ended := Some By_undefined_behaviour\<rparr>))"

definition websocket_message ::
  "('p, 'f) env \<Rightarrow> config \<Rightarrow> nat \<Rightarrow> endpoint \<Rightarrow> string list \<Rightarrow> ws_session \<Rightarrow> string \<Rightarrow> net \<Rightarrow> net" where
  "websocket_message E cfg i h mail s message N =
     (case run_endpoint E cfg h message (node N) of
        Continue s' \<Rightarrow>
          run_node s' (N\<lparr>conns := (conns N)[i := Websocket h mail (ws_activity (clock s) s)], origins := origins N @ [i]\<rparr>)
      | Exits s' \<Rightarrow> N\<lparr>ended := Some By_request\<rparr>
      | Undefined_behaviour \<Rightarrow> N\<lparr>ended := Some By_undefined_behaviour\<rparr>)"

text \<open>Steps of a connection alone: no request is read, no answer handed in, and the socket stays.\<close>

definition quiet_step :: "connection \<Rightarrow> connection \<Rightarrow> bool" where
  "quiet_step c c' \<longleftrightarrow> conn_step (\<lambda>req. Call Work [] []) websocket_endpoints c c'
     \<and> received (http c') = received (http c) \<and> submitted (http c') = submitted (http c)
     \<and> pending (http c') = pending (http c) \<and> socket_moved c' = socket_moved c"

definition ws_quiet_step :: "ws_session \<Rightarrow> ws_session \<Rightarrow> bool" where
  "ws_quiet_step s s' \<longleftrightarrow> ws_step s s' \<and> ws_submitted s' = ws_submitted s"

inductive net_step ::
  "bool \<Rightarrow> ('p, 'f) env \<Rightarrow> config \<Rightarrow> (bool \<Rightarrow> http_request \<Rightarrow> endpoint reply) \<Rightarrow> net \<Rightarrow> net \<Rightarrow> bool"
  for fails E cfg handle where
  accept: "ended N = None \<Longrightarrow> accepting (listening N) = Suc n \<Longrightarrow>
    acceptor (listening N) = Listening \<or> (\<exists>ec. ev = Accept_failed ec) \<Longrightarrow>
    on_accept now ev ((listening N)\<lparr>accepting := n\<rparr>) = Inr (l', c) \<Longrightarrow>
    net_step fails E cfg handle N
      (N\<lparr>listening := l', conns := conns N @ (case c of None \<Rightarrow> [] | Some c' \<Rightarrow> [Http loopback_l c'])\<rparr>)"
| accept_throws: "ended N = None \<Longrightarrow> accepting (listening N) = Suc n \<Longrightarrow> acceptor (listening N) = Listening \<Longrightarrow>
    on_accept now ev ((listening N)\<lparr>accepting := n\<rparr>) = Inl what \<Longrightarrow>
    net_step fails E cfg handle N (N\<lparr>ended := Some (By_exception what)\<rparr>)"
| http_read: "ended N = None \<Longrightarrow> i < length (conns N) \<Longrightarrow> conns N ! i = Http loopback_l c \<Longrightarrow>
    reading (http c) = Suc n \<Longrightarrow>
    net_step fails E cfg handle N (http_request E cfg handle i loopback_l c n req N)"
| http_upgrade: "ended N = None \<Longrightarrow> i < length (conns N) \<Longrightarrow> conns N ! i = Http loopback_l c \<Longrightarrow>
    reading (http c) = Suc n \<Longrightarrow> on_upgrade websocket_endpoints target_l n c = (c', Some (h, s)) \<Longrightarrow>
    net_step fails E cfg handle N
      (N\<lparr>conns := (conns N)[i := Http loopback_l c'] @ [Websocket h [] s]\<rparr>)"
| http_alone: "ended N = None \<Longrightarrow> i < length (conns N) \<Longrightarrow> conns N ! i = Http loopback_l c \<Longrightarrow>
    quiet_step c c' \<Longrightarrow>
    net_step fails E cfg handle N (N\<lparr>conns := (conns N)[i := Http loopback_l c']\<rparr>)"
| ws_message: "ended N = None \<Longrightarrow> i < length (conns N) \<Longrightarrow> conns N ! i = Websocket h mail s \<Longrightarrow>
    \<not> closed s \<Longrightarrow> ws_open s \<Longrightarrow>
    net_step fails E cfg handle N (websocket_message E cfg i h mail s message N)"
| ws_posted: "ended N = None \<Longrightarrow> i < length (conns N) \<Longrightarrow> conns N ! i = Websocket h (m # mail) s \<Longrightarrow>
    net_step fails E cfg handle N (N\<lparr>conns := (conns N)[i := Websocket h mail (write_response m s)]\<rparr>)"
| ws_alone: "ended N = None \<Longrightarrow> i < length (conns N) \<Longrightarrow> conns N ! i = Websocket h mail s \<Longrightarrow>
    ws_quiet_step s s' \<Longrightarrow>
    net_step fails E cfg handle N (N\<lparr>conns := (conns N)[i := Websocket h mail s']\<rparr>)"
| work: "ended N = None \<Longrightarrow> internal_step fails True E cfg (node N) s' \<Longrightarrow>
    net_step fails E cfg handle N (run_node s' N)"
| signal: "ended N = None \<Longrightarrow> net_step fails E cfg handle N (N\<lparr>ended := Some By_signal\<rparr>)"

inductive net_reachable ::
  "bool \<Rightarrow> ('p, 'f) env \<Rightarrow> config \<Rightarrow> (bool \<Rightarrow> http_request \<Rightarrow> endpoint reply) \<Rightarrow> listener \<Rightarrow> net \<Rightarrow> bool"
  for fails E cfg handle l where
  net_start: "net_reachable fails E cfg handle l (net_init cfg l)"
| net_next: "net_reachable fails E cfg handle l N \<Longrightarrow> net_step fails E cfg handle N N' \<Longrightarrow>
    net_reachable fails E cfg handle l N'"

section \<open>Requests and answers of a connection\<close>

definition texts :: "nat list \<Rightarrow> (nat \<times> string) list \<Rightarrow> nat \<Rightarrow> string list" where
  "texts os as i = map snd (filter (\<lambda>a. os ! fst a = i) as)"

text \<open>
  What a connection has been given: an answer for each of its requests, in the order of the answers,
  and nothing else; for HTTP between the answers that the session gives itself.
\<close>

fun conn_ok :: "nat list \<Rightarrow> (nat \<times> string) list \<Rightarrow> nat \<Rightarrow> conn \<Rightarrow> bool" where
  "conn_ok os as i (Http loopback_l c) \<longleftrightarrow>
     count_list os i = length (texts os as i) + pending (http c)
     \<and> length (received (http c)) = length (submitted (http c)) + pending (http c)
     \<and> subseq (texts os as i) (map resp_body (submitted (http c)))"
| "conn_ok os as i (Websocket h mail s) \<longleftrightarrow> ws_submitted s @ mail = texts os as i"

definition net_inv :: "bool \<Rightarrow> ('p, 'f) env \<Rightarrow> config \<Rightarrow> net \<Rightarrow> bool" where
  "net_inv fails E cfg N \<longleftrightarrow> reachable fails True E cfg (node N)
     \<and> length (origins N) = next_request (node N) \<and> set (origins N) \<subseteq> {..<length (conns N)}
     \<and> (\<forall>i < length (conns N). conn_ok (origins N) (answers (hs (node N))) i (conns N ! i))"

lemma texts_simps [simp]:
  "texts os [] i = []" "texts os (as @ bs) i = texts os as i @ texts os bs i"
  "texts os (a # as) i = (if os ! fst a = i then [snd a] else []) @ texts os as i"
  by (simp_all add: texts_def)

lemma texts_more: "\<forall>a \<in> set as. fst a < length os \<Longrightarrow> texts (os @ [j]) as i = texts os as i"
  by (induction as) (simp_all add: nth_append)

lemma texts_size: "length (texts os as i) = size (filter_mset (\<lambda>c. os ! c = i) (mset (map fst as)))"
  by (induction as) (simp_all add: texts_def)

lemma origins_size: "size (filter_mset (\<lambda>c. os ! c = i) (mset [0..<length os])) = count_list os i"
proof -
  have "size (filter_mset (\<lambda>c. os ! c = i) (mset [0..<length os])) = length (filter (\<lambda>c. os ! c = i) [0..<length os])"
    by (metis mset_filter size_mset)
  also have "\<dots> = count_list os i"
    by (simp add: count_list_eq_length_filter length_filter_conv_card eq_commute [of i] Collect_conj_eq)
      (rule arg_cong [where f = card], auto)
  finally show ?thesis .
qed

lemma texts_length:
  assumes "mset (map fst as) \<subseteq># mset [0..<length os]"
  shows "length (texts os as i) \<le> count_list os i"
  unfolding texts_size origins_size [symmetric] by (intro size_mset_mono multiset_filter_mono assms)


lemma conn_ok_more: "\<forall>a \<in> set as. fst a < length os \<Longrightarrow> j \<noteq> i \<Longrightarrow> conn_ok os as i k \<Longrightarrow> conn_ok (os @ [j]) as i k"
  by (cases k) (simp_all add: texts_more)

lemma conn_answer_http [simp]:
  "pending (http (conn_answer t n c)) = n" "received (http (conn_answer t n c)) = received (http c)"
  "submitted (http (conn_answer t n c)) =
     submitted (http c) @ [json_response (client_version (http c)) (client_keepalive (http c)) t]"
  by (simp_all add: conn_answer_def Let_def write_json_response_def)

lemma resp_body_json [simp]: "resp_body (json_response v k t) = t"
  by (simp add: json_response_def)

lemma give_answer_ok:
  assumes "conn_ok os as i k" and "length (texts os as i) < count_list os i" and "os ! c = i"
  shows "conn_ok os (as @ [(c, t)]) i (give_answer t k)"
proof (cases k)
  case (Http loopback_l x)
  have "subseq (texts os as i @ [t]) (map resp_body (submitted (http x)) @ [t])"
    using assms(1) Http by (intro subseq_snoc) simp
  then show ?thesis using assms unfolding Http by simp
next
  case (Websocket h mail s)
  then show ?thesis using assms by auto
qed

lemma deliver_simps [simp]:
  "listening (deliver a N) = listening N" "node (deliver a N) = node N" "origins (deliver a N) = origins N"
  "ended (deliver a N) = ended N" "length (conns (deliver a N)) = length (conns N)"
  by (simp_all add: deliver_def Let_def)

lemma fold_deliver_simps [simp]:
  "listening (fold deliver as N) = listening N" "node (fold deliver as N) = node N"
  "origins (fold deliver as N) = origins N" "ended (fold deliver as N) = ended N"
  "length (conns (fold deliver as N)) = length (conns N)"
  by (induction as arbitrary: N) simp_all

text \<open>Delivering the answers that are new keeps the account of every connection.\<close>

lemma fold_deliver_ok:
  assumes "mset (map fst (as @ bs)) \<subseteq># mset [0..<length (origins N)]"
    and "set (origins N) \<subseteq> {..<length (conns N)}"
    and "\<forall>i < length (conns N). conn_ok (origins N) as i (conns N ! i)"
  shows "\<forall>i < length (conns N). conn_ok (origins N) (as @ bs) i (conns (fold deliver bs N) ! i)"
  using assms
proof (induction bs arbitrary: as N)
  case (Cons b bs)
  obtain c t where b: "b = (c, t)" by (cases b)
  let ?i = "origins N ! c"
  have "c \<in># mset [0..<length (origins N)]"
    by (rule mset_subset_eqD [OF Cons.prems(1)]) (simp add: b)
  then have c: "c < length (origins N)" by simp
  then have i: "?i < length (conns N)" using Cons.prems(2) nth_mem by fastforce
  have sub: "mset (map fst ((as @ [b]) @ bs)) \<subseteq># mset [0..<length (origins N)]"
    using Cons.prems(1) by simp
  then have "mset (map fst (as @ [b])) \<subseteq># mset [0..<length (origins N)]"
    by (rule subset_mset.order_trans [rotated]) simp
  then have "length (texts (origins N) (as @ [b]) ?i) \<le> count_list (origins N) ?i"
    by (rule texts_length)
  then have less: "length (texts (origins N) as ?i) < count_list (origins N) ?i" by (simp add: b)
  have "conn_ok (origins N) (as @ [b]) j (conns (deliver b N) ! j)" if j: "j < length (conns N)" for j
  proof (cases "j = ?i")
    case True
    have "conn_ok (origins N) as ?i (conns N ! ?i)" using Cons.prems(3) i by blast
    then show ?thesis
      using give_answer_ok [OF _ less refl, of "conns N ! ?i" t] True i b by (simp add: deliver_def Let_def)
  next
    case False
    then have "conns (deliver b N) ! j = conns N ! j" by (simp add: deliver_def Let_def b)
    moreover have "texts (origins N) (as @ [b]) j = texts (origins N) as j" using False b by simp
    ultimately show ?thesis using Cons.prems(3) j by (cases "conns N ! j") fastforce+
  qed
  then show ?case using Cons.IH [of "as @ [b]" "deliver b N"] Cons.prems(2) sub by simp
qed simp

lemma answers_in_range:
  assumes "reachable fails withdraws E cfg s" and "a \<in> set (answers (hs s))"
  shows "fst a < next_request s"
proof -
  have "fst a \<in># mset [0..<next_request s]"
    by (rule mset_subset_eqD [OF answers_of_requests [OF assms(1)]]) (use assms(2) in simp)
  then show ?thesis by simp
qed

text \<open>A request to an endpoint is a step of the work server, and is answered at most once within it.\<close>

lemma run_endpoint_step:
  assumes "run_endpoint E cfg h body s = Continue s'"
  shows "sys_step fails True E cfg s s' \<and> next_request s' = Suc (next_request s)
    \<and> (answers (hs s') = answers (hs s) \<or> (\<exists>t. answers (hs s') = answers (hs s) @ [(next_request s, t)]))"
proof (cases h)
  case Work
  then have s': "s' = handle_request_async E cfg body s" using assms by simp
  have "sys_step fails True E cfg s s'" unfolding s' by (rule arrive) simp
  then show ?thesis
    by (cases rule: arrive_cases [of E cfg body s]) (simp_all add: s')
next
  case Work_queue
  then obtain x where "handle_queue_request E (next_request s) (hs s) = Some x"
      "s' = s\<lparr>hs := x, next_request := Suc (next_request s)\<rparr>"
    using assms by (auto split: option.splits)
  then show ?thesis
    using sys_step.list_queue [of E s x] by (auto simp: handler_ops)
next
  case Work_queue_delete
  then have s': "s' = s\<lparr>hs := handle_queue_delete_request E cfg (next_request s) (hs s), next_request := Suc (next_request s)\<rparr>"
    using assms by simp
  have "sys_step fails True E cfg s s'" unfolding s' by (rule delete_queue) simp
  then show ?thesis by (auto simp: s' handle_queue_delete_request_def)
qed (use assms in \<open>auto simp: reply_now_def intro: reply_at_once split: if_splits\<close>)

lemma net_inv_answers: "net_inv fails E cfg N \<Longrightarrow> \<forall>a \<in> set (answers (hs (node N))). fst a < length (origins N)"
  using answers_in_range by (fastforce simp: net_inv_def)

text \<open>The work server goes on: every callback finds its session.\<close>

lemma answers_grow:
  assumes "sys_step fails withdraws E cfg s s'"
  shows "\<exists>as. answers (hs s') = answers (hs s) @ as"
  using assms
proof (induction rule: sys_step.induct)
  case (arrive body s)
  then show ?case by (cases rule: arrive_cases [of E cfg body s]) simp_all
next
  case (acquire s t c cid i h)
  then show ?case by (auto simp: scan_Inr)
next
  case (no_device s t c cid what h)
  then show ?case by (auto dest!: scan_Inl simp: worker_catch_def end_frame_def)
qed (auto simp: handler_ops handle_queue_delete_request_def worker_no_jobs_def worker_catch_def end_frame_def)

lemma new_answers_eq:
  assumes "sys_step fails withdraws E cfg s s'"
  shows "answers (hs s') = answers (hs s) @ new_answers s s'"
  using answers_grow [OF assms] by (auto simp: new_answers_def)

lemma net_inv_run_node:
  assumes "net_inv fails E cfg N" and "sys_step fails True E cfg (node N) s'"
    and "origins N' = origins N @ js" and "node N' = node N" and "length (origins N') = next_request s'"
    and "length (conns N') = length (conns N)" and "set js \<subseteq> {..<length (conns N)}"
    and "\<forall>i < length (conns N). conn_ok (origins N') (answers (hs (node N))) i (conns N' ! i)"
  shows "net_inv fails E cfg (run_node s' N')"
proof -
  have reach: "reachable fails True E cfg s'"
    using assms(1,2) reachable.step unfolding net_inv_def by blast
  note eq = new_answers_eq [OF assms(2)]
  have "\<forall>i < length (conns N'). conn_ok (origins N') (answers (hs (node N)) @ new_answers (node N) s') i
      (conns (fold deliver (new_answers (node N) s') (N'\<lparr>node := s'\<rparr>)) ! i)"
    using fold_deliver_ok [of "answers (hs (node N))" "new_answers (node N) s'" "N'\<lparr>node := s'\<rparr>"]
      answers_of_requests [OF reach] assms eq by (auto simp: net_inv_def)
  then show ?thesis
    using reach assms eq by (auto simp: net_inv_def run_node_def)
qed

lemma conn_on_read_respond:
  assumes "handle req = Respond r"
  shows "received (http (conn_on_read handle (Read_request req imm) n c)) = received (http c) @ [req]"
    "submitted (http (conn_on_read handle (Read_request req imm) n c)) = submitted (http c) @ [r]"
    "pending (http (conn_on_read handle (Read_request req imm) n c)) = pending (http c)"
  using assms by (simp_all add: conn_on_read_def Let_def)

lemma conn_on_read_call:
  assumes "handle req = Call h body params"
  shows "received (http (conn_on_read handle (Read_request req imm) n c)) = received (http c) @ [req]"
    "submitted (http (conn_on_read handle (Read_request req imm) n c)) = submitted (http c) @
       (case imm of None \<Rightarrow> [] | Some t \<Rightarrow> [json_response (req_version req) (req_keep_alive req) t])"
    "pending (http (conn_on_read handle (Read_request req imm) n c)) =
       (case imm of None \<Rightarrow> Suc (pending (http c)) | Some t \<Rightarrow> pending (http c))"
  using assms by (simp_all add: conn_on_read_def Let_def write_json_response_def split: option.split)

lemma net_inv_http_request:
  assumes inv: "net_inv fails E cfg N" and i: "i < length (conns N)" "conns N ! i = Http loopback_l c"
  shows "net_inv fails E cfg (http_request E cfg handle i loopback_l c n req N)"
proof (cases "handle loopback_l req")
  case (Respond r)
  have "conn_ok (origins N) (answers (hs (node N))) i (Http loopback_l c)"
    using inv i by (fastforce simp: net_inv_def)
  then have "conn_ok (origins N) (answers (hs (node N))) i
      (Http loopback_l (conn_on_read (handle loopback_l) (Read_request req None) n c))"
    using conn_on_read_respond [of "handle loopback_l" req r, OF Respond, of None n c]
    by (auto intro: list_emb_prefix)
  then show ?thesis
    using inv Respond i(1) unfolding net_inv_def http_request_def
    by (auto simp: Let_def nth_list_update)
next
  case (Call h body params)
  show ?thesis
  proof (cases "run_endpoint E cfg h body (node N)")
    case (Continue s')
    note step = run_endpoint_step [OF Continue]
    have s': "sys_step fails True E cfg (node N) s'" "next_request s' = Suc (next_request (node N))"
      using step by blast+
    let ?os = "origins N @ [i]" and ?as = "answers (hs (node N))"
    let ?imm = "case new_answers (node N) s' of [] \<Rightarrow> None | a # _ \<Rightarrow> Some (snd a)"
    let ?k = "Http loopback_l (conn_on_read (handle loopback_l) (Read_request req ?imm) n c)"
    have os: "length (origins N) = next_request (node N)" using inv by (simp add: net_inv_def)
    have old: "texts ?os ?as j = texts (origins N) ?as j" for j
      by (rule texts_more [OF net_inv_answers [OF inv]])
    have c: "conn_ok (origins N) ?as i (Http loopback_l c)"
      using inv i by (fastforce simp: net_inv_def)
    have "answers (hs s') = ?as \<or> (\<exists>t. answers (hs s') = ?as @ [(next_request (node N), t)])"
      using step by blast
    then have new: "new_answers (node N) s' = [] \<or> (\<exists>t. new_answers (node N) s' = [(next_request (node N), t)])"
      by (auto simp: new_answers_def)
    have other: "conn_ok ?os (answers (hs s')) j (conns N ! j)" if j: "j < length (conns N)" "j \<noteq> i" for j
    proof -
      have "conn_ok ?os ?as j (conns N ! j)"
        by (rule conn_ok_more [OF net_inv_answers [OF inv]]) (use inv j in \<open>auto simp: net_inv_def\<close>)
      moreover have "texts ?os (answers (hs s')) j = texts ?os ?as j"
        using new j os unfolding new_answers_eq [OF s'(1)] by (auto simp: nth_append)
      ultimately show ?thesis by (cases "conns N ! j") simp_all
    qed
    have self: "conn_ok ?os (answers (hs s')) i ?k"
      using new
    proof (elim disjE exE)
      assume "new_answers (node N) s' = []"
      then show ?thesis
        using c old conn_on_read_call [of "handle loopback_l" req h body params, OF Call, of None n c] unfolding new_answers_eq [OF s'(1)] by simp
    next
      fix t assume t: "new_answers (node N) s' = [(next_request (node N), t)]"
      then have "texts ?os (answers (hs s')) i = texts (origins N) ?as i @ [t]"
        using old os unfolding new_answers_eq [OF s'(1)] by (simp add: nth_append)
      then show ?thesis
        using c t conn_on_read_call [of "handle loopback_l" req h body params, OF Call, of "Some t" n c] subseq_snoc by simp
    qed
    have "\<forall>j < length (conns N). conn_ok ?os (answers (hs s')) j ((conns N)[i := ?k] ! j)"
      using other self i(1) by (auto simp: nth_list_update)
    moreover have "reachable fails True E cfg s'"
      using inv s'(1) reachable.step unfolding net_inv_def by blast
    ultimately show ?thesis
      using inv i(1) s'(2) Call Continue unfolding net_inv_def http_request_def
      by (auto simp: Let_def)
  qed (use inv Call in \<open>simp_all add: http_request_def Let_def net_inv_def\<close>)
qed

text \<open>One connection changes, or a connection is added.\<close>

lemma net_inv_update:
  assumes "net_inv fails E cfg N" and "conns N ! i = k" and "i < length (conns N)"
    and "\<And>os as. conn_ok os as i k \<Longrightarrow> conn_ok os as i k'"
  shows "net_inv fails E cfg (N\<lparr>conns := (conns N)[i := k']\<rparr>)"
  using assms by (auto simp: net_inv_def nth_list_update)

lemma conn_fresh:
  assumes "net_inv fails E cfg N" and "length (conns N) \<le> i"
  shows "texts (origins N) (answers (hs (node N))) i = []" and "count_list (origins N) i = 0"
proof -
  have origins: "set (origins N) \<subseteq> {..<length (conns N)}" using assms(1) by (simp add: net_inv_def)
  then show "count_list (origins N) i = 0" using assms(2) by (auto simp: count_list_0_iff)
  have "origins N ! fst a \<noteq> i" if "a \<in> set (answers (hs (node N)))" for a
  proof -
    have "fst a < length (origins N)" using net_inv_answers [OF assms(1)] that by blast
    then have "origins N ! fst a \<in> {..<length (conns N)}" using origins nth_mem by blast
    then show ?thesis using assms(2) by auto
  qed
  then show "texts (origins N) (answers (hs (node N))) i = []" by (simp add: texts_def)
qed

lemma net_inv_add:
  assumes "net_inv fails E cfg N" and "conn_ok (origins N) (answers (hs (node N))) (length (conns N)) k"
  shows "net_inv fails E cfg (N\<lparr>conns := conns N @ [k]\<rparr>)"
  using assms by (auto simp: net_inv_def nth_append less_Suc_eq)

lemma net_inv_listening: "net_inv fails E cfg N \<Longrightarrow> net_inv fails E cfg (N\<lparr>listening := l\<rparr>)"
  by (simp add: net_inv_def)

lemma net_inv_ended: "net_inv fails E cfg N \<Longrightarrow> net_inv fails E cfg (N\<lparr>ended := e\<rparr>)"
  by (simp add: net_inv_def)

lemma quiet_step_ok: "quiet_step c c' \<Longrightarrow> conn_ok os as i (Http b c) \<Longrightarrow> conn_ok os as i (Http b c')"
  by (simp add: quiet_step_def)

lemma write_response_submitted [simp]: "ws_submitted (write_response m s) = ws_submitted s @ [m]"
  by (simp add: write_response_def write_queued_messages_def Let_def)

lemma on_upgrade_Some:
  assumes "on_upgrade handlers target_l n c = (c', Some (h, s))"
  shows "http c' = (http c)\<lparr>reading := n\<rparr> \<and> ws_submitted s = []"
  using assms by (auto simp: on_upgrade_def ws_do_accept_def Let_def split: option.splits)

lemma internal_step_sys: "internal_step fails withdraws E cfg s s' \<Longrightarrow> sys_step fails withdraws E cfg s s' \<and> next_request s' = next_request s"
  by (simp add: internal_step_def)

lemma net_inv_message:
  assumes inv: "net_inv fails E cfg N" and i: "i < length (conns N)" "conns N ! i = Websocket h mail s"
  shows "net_inv fails E cfg (websocket_message E cfg i h mail s message N)"
proof (cases "run_endpoint E cfg h message (node N)")
  case (Continue s')
  let ?N = "N\<lparr>conns := (conns N)[i := Websocket h mail (ws_activity (clock s) s)], origins := origins N @ [i]\<rparr>"
  let ?as = "answers (hs (node N))"
  note step = run_endpoint_step [OF Continue]
  have old: "conn_ok (origins N) ?as j (conns N ! j)" if "j < length (conns N)" for j
    using inv that by (simp add: net_inv_def)
  have "conn_ok (origins N @ [i]) ?as j (conns ?N ! j)" if j: "j < length (conns N)" for j
  proof (cases "j = i")
    case True
    have "texts (origins N @ [i]) ?as i = texts (origins N) ?as i"
      by (rule texts_more [OF net_inv_answers [OF inv]])
    then show ?thesis using old [OF j] True i by (simp add: ws_activity_def)
  next
    case False
    then show ?thesis using conn_ok_more [OF net_inv_answers [OF inv] _ old [OF j]] by simp
  qed
  then have "net_inv fails E cfg (run_node s' ?N)"
    using step inv i(1) by (intro net_inv_run_node [OF inv, where js = "[i]"]) (auto simp: net_inv_def)
  then show ?thesis using Continue by (simp add: websocket_message_def)
qed (simp_all add: websocket_message_def inv net_inv_ended)

lemma net_inv_step: "net_step fails E cfg handle N N' \<Longrightarrow> net_inv fails E cfg N \<Longrightarrow> net_inv fails E cfg N'"
proof (induction rule: net_step.induct)
  case (accept N n ev now l' c loopback_l)
  show ?case
  proof (cases c)
    case None
    then show ?thesis using accept.prems by (simp add: net_inv_listening)
  next
    case (Some c')
    then have "c' = connection_run now"
      using accept.hyps(4) by (auto simp: on_accept_def split: accept_event.splits)
    then have "conn_ok (origins N) (answers (hs (node N))) (length (conns N)) (Http loopback_l c')"
      using conn_fresh [OF accept.prems, of "length (conns N)"] by simp
    then have "net_inv fails E cfg ((N\<lparr>listening := l'\<rparr>)\<lparr>conns := conns (N\<lparr>listening := l'\<rparr>) @ [Http loopback_l c']\<rparr>)"
      by (intro net_inv_add net_inv_listening [OF accept.prems]) simp
    then show ?thesis using Some by simp
  qed
next
  case (http_upgrade N i loopback_l c n target_l c' h s)
  note up = on_upgrade_Some [OF http_upgrade.hyps(5)]
  have inv: "net_inv fails E cfg (N\<lparr>conns := (conns N)[i := Http loopback_l c']\<rparr>)"
    by (rule net_inv_update [OF http_upgrade.prems http_upgrade.hyps(3,2)]) (simp add: up)
  let ?N = "N\<lparr>conns := (conns N)[i := Http loopback_l c']\<rparr>"
  have "conn_ok (origins ?N) (answers (hs (node ?N))) (length (conns ?N)) (Websocket h [] s)"
    using conn_fresh [OF inv order_refl] up by simp
  then have "net_inv fails E cfg (?N\<lparr>conns := conns ?N @ [Websocket h [] s]\<rparr>)"
    by (rule net_inv_add [OF inv])
  then show ?case by simp
next
  case (http_alone N i loopback_l c c')
  show ?case
    by (rule net_inv_update [OF http_alone.prems http_alone.hyps(3,2)]) (rule quiet_step_ok [OF http_alone.hyps(4)])
next
  case (ws_posted N i h m mail s)
  show ?case by (rule net_inv_update [OF ws_posted.prems ws_posted.hyps(3,2)]) simp
next
  case (ws_alone N i h mail s s')
  show ?case
    by (rule net_inv_update [OF ws_alone.prems ws_alone.hyps(3,2)])
      (use ws_alone.hyps(4) in \<open>simp add: ws_quiet_step_def\<close>)
next
  case (http_read N i loopback_l c n req)
  then show ?case by (intro net_inv_http_request)
next
  case (ws_message N i h mail s message)
  then show ?case by (intro net_inv_message)
next
  case (work N s')
  then show ?case
    using internal_step_sys [OF work.hyps(2)]
    by (intro net_inv_run_node [where js = "[]" and N = N]) (auto simp: net_inv_def)
qed (erule net_inv_ended)+

lemma net_inv_init: "net_inv fails E cfg (net_init cfg l)"
  by (simp add: net_inv_def net_init_def reachable.init) (simp add: sys_init_def)

interpretation net_runs: transitions "\<lambda>N. N = net_init cfg l" "net_step fails E cfg handle" "net_reachable fails E cfg handle l"
  for fails E cfg handle l
proof unfold_locales
  show "P s" if "net_reachable fails E cfg handle l s" "\<And>s. s = net_init cfg l \<Longrightarrow> P s"
    "\<And>s s'. net_reachable fails E cfg handle l s \<Longrightarrow> P s \<Longrightarrow> net_step fails E cfg handle s s' \<Longrightarrow> P s'" for P s
    using that(1) by (induction rule: net_reachable.induct) (use that(2,3) in blast)+
qed (auto intro: net_reachable.intros)

lemma net_reachable_inv: "net_reachable fails E cfg handle l N \<Longrightarrow> net_inv fails E cfg N"
  by (rule net_runs.invariant_holds) (auto intro: net_inv_init net_inv_step)

text \<open>The work server comes to rest, and this takes no request from a connection.\<close>

fun requests_read :: "conn \<Rightarrow> http_request list" where
  "requests_read (Http loopback_l c) = received (http c)"
| "requests_read (Websocket h mail s) = []"

lemma requests_read_deliver [simp]: "map requests_read (conns (fold deliver as N)) = map requests_read (conns N)"
proof (induction as arbitrary: N)
  case (Cons a as)
  have give: "requests_read (give_answer t k) = requests_read k" for t k
    by (cases k) simp_all
  have "map requests_read (conns (deliver a N)) = map requests_read (conns N)"
    by (simp add: deliver_def Let_def map_update give) (metis list_update_id map_update)
  then show ?case by (simp add: Cons.IH)
qed simp


text \<open>Without exceptions and without control requests every endpoint does its work.\<close>

lemma run_endpoint_continues:
  assumes "reachable False withdraws E cfg s" and "\<not> allow_control (server cfg)"
  shows "\<exists>s'. run_endpoint E cfg h body s = Continue s'"
proof (cases h)
  case Work_queue
  obtain ys where "follow (locals (hs s)) (active_jobs (hs s)) = Some ys"
    using references_valid [OF reachable_sys_inv [OF assms(1)]] by blast
  then show ?thesis using Work_queue by (simp add: handle_queue_request_def queue_response_def)
qed (use assms(2) in simp_all)

definition stays_up :: "net \<Rightarrow> bool" where
  "stays_up N \<longleftrightarrow> ended N \<noteq> Some By_request \<and> ended N \<noteq> Some By_undefined_behaviour"

lemma stays_up_step:
  assumes "net_step False E cfg handle N N'" and "net_inv False E cfg N" and "stays_up N"
    and "\<not> allow_control (server cfg)"
  shows "stays_up N'"
proof -
  have endpoint: "\<exists>s'. run_endpoint E cfg h body (node N) = Continue s'" for h body
    using run_endpoint_continues assms(2,4) unfolding net_inv_def by blast
  from assms(1) show ?thesis
  proof cases
    case (http_read i loopback_l c n req)
    show ?thesis
    proof (cases "handle loopback_l req")
      case (Call h body params)
      then show ?thesis using endpoint [of h body] assms(3) by (auto simp: http_read(1) http_request_def stays_up_def Let_def)
    qed (use assms(3) in \<open>simp add: http_read(1) http_request_def stays_up_def Let_def\<close>)
  next
    case (ws_message i h mail s message)
    then show ?thesis
      using endpoint [of h message] assms(3) by (auto simp: websocket_message_def stays_up_def run_node_def)
  qed (use assms(3) in \<open>simp_all add: stays_up_def run_node_def\<close>)
qed

lemma stays_up_reachable:
  assumes "net_reachable False E cfg handle l N" and "\<not> allow_control (server cfg)"
  shows "stays_up N"
  using assms(1)
proof (induction rule: net_runs.reach_induct)
  case (at_start N)
  then show ?case by (simp add: stays_up_def net_init_def)
next
  case (by_step N N')
  then show ?case using stays_up_step net_reachable_inv assms(2) by blast
qed

section \<open>Properties\<close>

text \<open>
  C3: answers reach the connection that their request came from and no other one. What a connection
  was handed by the work server is, in their order, the answers to its own requests; and on an HTTP
  connection every request that was read has its response or is pending.
\<close>

theorem answers_reach_their_connection:
  assumes "net_reachable fails E cfg handle l N" and "i < length (conns N)"
  shows "case conns N ! i of
      Http loopback_l c \<Rightarrow>
        subseq (texts (origins N) (answers (hs (node N))) i) (map resp_body (submitted (http c)))
        \<and> length (received (http c)) = length (submitted (http c)) + pending (http c)
    | Websocket h mail s \<Rightarrow> ws_submitted s @ mail = texts (origins N) (answers (hs (node N))) i"
proof -
  have "conn_ok (origins N) (answers (hs (node N))) i (conns N ! i)"
    using net_reachable_inv [OF assms(1)] assms(2) by (simp add: net_inv_def)
  then show ?thesis by (cases "conns N ! i") simp_all
qed


text \<open>
  Without control requests and exceptions no endpoint of the work server ends the run: the handlers of
  \<open>work_handler\<close> find the references of \<open>active_jobs\<close> valid. This is about these handlers only. The
  undefined behaviour of the sessions themselves (the buffer of \<open>write_queued_messages\<close>, the races of
  the theory \<open>Races\<close>) has no step in the relation, which can therefore not speak of it.
\<close>

theorem handlers_do_not_end_run:
  assumes "net_reachable False E cfg handle l N" and "\<not> allow_control (server cfg)"
  shows "ended N = None \<or> ended N = Some By_signal \<or> (\<exists>what. ended N = Some (By_exception what))"
  using stays_up_reachable [OF assms] unfolding stays_up_def
  by (cases "ended N"; cases "the (ended N)") auto

section \<open>Witnesses\<close>

text \<open>A client connects and posts a work request, which is answered later.\<close>

definition demo_listener :: listener where
  "demo_listener = \<lparr>acceptor = Listening, accepting = 1, failures = [], sessions_started = 0\<rparr>"

definition demo_post :: "string \<Rightarrow> http_request" where
  "demo_post body = \<lparr>req_method = verb_post, target = ''/'', req_version = 11, req_keep_alive = True, req_body = body\<rparr>"

definition demo_handle :: "bool \<Rightarrow> http_request \<Rightarrow> endpoint reply" where
  "demo_handle loopback_l = handle_request \<lparr>open_file = (\<lambda>_. No_such_file), beast_version = []\<rparr>
     \<lparr>static_pages_allow_remote = False, static_pages_allow = False\<rparr> http_endpoints loopback_l ''public''"

lemma demo_handle_post: "demo_handle loopback_l (demo_post body) = Call Work body []"
  by (simp add: demo_handle_def demo_post_def handle_request_def http_endpoints_def add_get_endpoint_def
      add_post_endpoint_def add_delete_endpoint_def add_endpoint_def compile_path_def)

definition demo_waiting :: net where
  "demo_waiting = \<lparr>listening = demo_listener\<lparr>sessions_started := 1\<rparr>,
     conns = [Http True (conn_on_read (demo_handle True) (Read_request (demo_post ''low'') None) 0 (connection_run 0))],
     node = first_in, origins = [0], ended = None\<rparr>"

lemma demo_waiting_reachable: "net_reachable fails run_env run_config demo_handle demo_listener demo_waiting"
proof -
  let ?N0 = "net_init run_config demo_listener"
  let ?N1 = "?N0\<lparr>listening := demo_listener\<lparr>sessions_started := 1\<rparr>, conns := [Http True (connection_run 0)]\<rparr>"
  have "net_step fails run_env run_config demo_handle ?N0
      (?N0\<lparr>listening := demo_listener\<lparr>sessions_started := 1\<rparr>,
        conns := conns ?N0 @ (case Some (connection_run 0) of None \<Rightarrow> [] | Some c \<Rightarrow> [Http True c])\<rparr>)"
    by (rule accept [where ev = Accepted and now = 0 and n = 0])
      (simp_all add: net_init_def demo_listener_def on_accept_def do_accept_def)
  then have N1: "net_reachable fails run_env run_config demo_handle demo_listener ?N1"
    using net_next [OF net_start] by (simp add: net_init_def)
  have "run_endpoint run_env run_config Work ''low'' (sys_init run_config) = Continue first_in"
    by (simp add: first_in_def)
  moreover have "new_answers (sys_init run_config) first_in = []"
    by (simp add: new_answers_def first_in_eq idle_handler_def handler_ctor_def)
  ultimately have "http_request run_env run_config demo_handle 0 True (connection_run 0) 0 (demo_post ''low'') ?N1 = demo_waiting"
    by (simp add: http_request_def demo_handle_post Let_def net_init_def demo_waiting_def)
  moreover have "net_step fails run_env run_config demo_handle ?N1
      (http_request run_env run_config demo_handle 0 True (connection_run 0) 0 (demo_post ''low'') ?N1)"
    by (rule http_read) (simp_all add: net_init_def)
  ultimately show ?thesis using net_next [OF N1] by metis
qed

theorem answers_reach_their_connection_witness:
  "\<exists>c. conns demo_waiting = [Http True c]
    \<and> length (received (http c)) = length (submitted (http c)) + pending (http c) \<and> received (http c) = [demo_post ''low'']"
proof -
  have "0 < length (conns demo_waiting)" by (simp add: demo_waiting_def)
  then show ?thesis
    using answers_reach_their_connection [OF demo_waiting_reachable [of False], of 0]
      conn_on_read_call [of "demo_handle True" "demo_post ''low''", OF demo_handle_post, of None 0 "connection_run 0"]
    by (simp add: demo_waiting_def)
qed


text \<open>The configuration of the witnesses does not allow control requests.\<close>

theorem handlers_do_not_end_run_witness:
  "\<exists>N. net_reachable False run_env run_config demo_handle demo_listener N \<and> ended N = Some By_signal
    \<and> \<not> allow_control (server run_config)"
proof -
  have control: "\<not> allow_control (server run_config)" by (simp add: run_config_def default_server_def)
  have "net_step False run_env run_config demo_handle demo_waiting (demo_waiting\<lparr>ended := Some By_signal\<rparr>)"
    by (rule signal) (simp add: demo_waiting_def)
  then have N: "net_reachable False run_env run_config demo_handle demo_listener (demo_waiting\<lparr>ended := Some By_signal\<rparr>)"
    by (rule net_next [OF demo_waiting_reachable])
  show ?thesis
    using handlers_do_not_end_run [OF N control] N control by (intro exI [of _ "demo_waiting\<lparr>ended := Some By_signal\<rparr>"]) simp
qed

end
