(* ===== verification/Spec2Isabelle.thy ===== *)
theory Spec2Isabelle
  imports Serving Sample Lifecycle Orderly Listing Shutdown Callbacks Races Logging Network
begin

text \<open>
  A model of the Nano proof of work server and its correctness.

  The program takes work requests over HTTP and WebSockets, queues them as jobs, and lets a pool of
  threads, one per configured device, search for a proof of work with Blake2b. Its own code is in
  \<open>src/workserver\<close> and \<open>src/entry\<close>; the configuration is read with the vendored \<open>cpptoml\<close>.

  How the parts interact. \<open>main\<close> (\<open>src/entry/nano_pow_server.cpp\<close>) reads the configuration, builds one
  \<open>work_handler\<close> and one web server, and registers the endpoints. An HTTP or WebSocket session calls
  the endpoint's handler, which gives the body of the request and a callback to
  \<open>work_handler::handle_request_async\<close>. That queues a job and posts a handler to the pool. The posted
  handler takes the job at the top of the queue, acquires a device, generates the work and calls
  the callback, which hands the answer to the session's queue of responses.

  The theories, in the order of their imports:

    \<^item> \<open>Prelude\<close>: results (an error message or a value), ordered insertion, digits, words, sums over
      the threads of a pool.
    \<^item> \<open>Transitions\<close>: the contract of reachability as the locale \<open>transitions\<close>, interpreted by every state
      machine below (\<open>pool_runs\<close>, \<open>sys_runs\<close>, \<open>callback_runs\<close>, \<open>http_runs\<close>, \<open>ws_runs\<close>, \<open>conn_runs\<close>, \<open>race_runs\<close>, \<open>net_runs\<close>), and the
      simulation of one machine by another as the locale \<open>simulation\<close> (\<open>lifecycle\<close>, \<open>on_strand\<close>).
    \<^item> \<open>Bigint\<close>, \<open>Multiplier\<close> (\<open>util.hpp\<close>): the byte arrays behind 128 and 256 bit numbers, their
      hexadecimal text, and the conversion between difficulties and multipliers. Boost's numbers are
      the locales \<open>multiprecision\<close> and \<open>bigfloat\<close>, interpreted on reference functions. Shown: round
      trips of \<open>set\<close> and \<open>number\<close>, of \<open>to_hex\<close> and \<open>from_hex\<close>, and of the multipliers.
    \<^item> \<open>Job\<close> (\<open>work_handler.hpp\<close>): jobs, the comparator and the queue. The contract of
      \<open>std::priority_queue\<close> is the locale \<open>priority_queue\<close>; it determines the order in which jobs leave,
      so the queue is modelled as the list in that order. Shown: that order, and that cancelling
      is filtering.
    \<^item> \<open>Serving\<close>: the comparator as a linear order of keys, and the loop of \<open>remove_job\<close> on any conforming queue.
      Shown: for distinct ids it leaves the other jobs, which leave sorted by these keys.
    \<^item> \<open>Decimal\<close>: the conversions of the C++ library between numbers and text (\<open>std::stoll\<close>, \<open>std::stod\<close>,
      stream output), doubles being rationals rounded to 53 bits.
    \<^item> \<open>Toml_Tree\<close> (\<open>cpptoml.h\<close>): the elements of a TOML tree and the whole interface of arrays and
      tables. A table is its list of entries in key order; that this is \<open>std::map\<close> is the locale
      \<open>dictionary\<close> and its interpretation \<open>std_map\<close>. \<open>tree_ok\<close> is well-formedness.
    \<^item> \<open>Toml_Lex\<close>, \<open>Toml_Number\<close>, \<open>Toml_Date\<close>: lines, keys, strings, escapes, numbers, dates and times.
      The iterator pair of the library is the text that is left of the line. Shown: what is written
      for integers, dates and times reads back.
    \<^item> \<open>Toml_Parser\<close>: the parser with its three merge modes. The pointer to the current table is the
      path of keys to it. The functions for values call each other and read lines, so they have
      fuel; \<open>parse_fuel\<close> is twice the length of the text plus eight.
    \<^item> \<open>Toml_Total\<close>, \<open>Toml_Merge\<close>: every call moves forward (\<open>advance\<close>), so the fuel is enough and the
      parser returns on every text; its trees are well-formed; a text in front of another one is
      read as it is alone, and its values are kept in the mode \<open>ignore\<close>.
    \<^item> \<open>Toml_Writer\<close>: \<open>toml_writer\<close>, with the documentation of tables.
    \<^item> \<open>Toml_Text\<close>, \<open>Toml_Document\<close>, \<open>Toml_Roundtrip\<close>: the text that the writer writes for values, for keys
      and headers, and for whole documents is parsed back. A tree is a set of paths with values
      (\<open>create\<close>, \<open>store\<close>); \<open>runs s st st'\<close> says what the parser does with the lines \<open>s\<close>, and composes;
      \<open>document_ok\<close> are the trees the round trip holds for.
    \<^item> \<open>Config\<close> (\<open>config.hpp\<close>): the constructor of the configuration with its exceptions and its null
      dereference, and the documented sample. Shown: every setting given on the command line wins over the file.
    \<^item> \<open>Sample\<close>: the text of the generated sample and what the server makes of it: the default
      configuration and one CPU device.
    \<^item> \<open>Env\<close>: what \<open>work_handler\<close> uses of its libraries, as the record \<open>env\<close>, with the hypothesis
      \<open>env_ok\<close> and an instance for witnesses.
    \<^item> \<open>Pow\<close> (\<open>work_handler.cpp\<close>, the search): the loop over candidates, the threshold, the result and
      its text. The loop is bounded by the code's own limit of ten billion hashes, so it is total.
      Shown: work that is found is valid and first, and what happens when none is found.
    \<^item> \<open>Devices\<close> (\<open>work_handler.hpp\<close>): the busy flags, sequentially and as threads whose atomic exchanges
      interleave. Shown: mutual exclusion, and that a device is always available exactly as long as no exception
      unwinds a thread past its release.
    \<^item> \<open>Handler\<close>, \<open>Replies\<close> (\<open>work_handler.cpp\<close>): the state of \<open>work_handler\<close> and its operations, cut
      where locks are taken; what each kind of request is answered.
    \<^item> \<open>System\<close>, \<open>Requests\<close>, \<open>Runs\<close>: the operations as steps of request threads and pool threads that
      interleave. The state is the record \<open>sys\<close>; \<open>sys_step\<close> has one rule per access to shared state, and
      its two switches admit exceptions before the answer and cancellations. The invariants account for every request
      (\<open>whereabouts\<close>, \<open>present_inv\<close>), every job (\<open>queue_inv\<close>), every device (\<open>device_inv\<close>) and every reference
      (\<open>ref_inv\<close>); the measure \<open>work_left\<close> gives termination. Shown: exactly one answer per request, the
      bounds of the queues, valid references; and, on concrete runs, the defects.
    \<^item> \<open>Callbacks\<close>: exceptions anywhere in the two \<open>try\<close> blocks, those of \<open>response_handler\<close> and after its call
      included, as \<open>callback_step\<close> on top of \<open>sys_step\<close>. Shown: how often a request can be answered.
    \<^item> \<open>Lifecycle\<close>: what the work server promises of jobs, as a specification with seven rules, and the
      proof that the server refines it (interpretation \<open>lifecycle\<close>, abstraction \<open>abs_spec\<close>).
    \<^item> \<open>Orderly\<close>: runs with one device, without priorities and with one request at a time on its way to
      the queue; there every request is answered with the work for its own hash. \<open>Runs\<close> shows that
      without these restrictions it is not.
    \<^item> \<open>Listing\<close>: the ids of the jobs on their way are different, so \<open>active_jobs\<close> holds exactly the jobs
      that threads work on, and the queue listing shows them.
    \<^item> \<open>Shutdown\<close>: the destructor of \<open>work_handler\<close> and the order in which its members are destroyed, while
      threads of the pool still run. Shown: it is safe exactly when no thread is in a handler.
    \<^item> \<open>Web\<close>, \<open>Sessions\<close>, \<open>Server\<close> (\<open>webserver.hpp\<close>, \<open>nano_pow_server.cpp\<close>): targets, files and endpoints;
      the HTTP pipeline and the WebSocket session as state machines; the endpoint table, the number of
      I/O threads and \<open>main\<close>. Shown: confinement of static files, the bounds of the pipeline, the order of
      writes to a WebSocket and the ping timer, the dispatch of requests, what the control endpoints do. A call of
      \<open>write_json_response\<close> from the pool is one step in \<open>Sessions\<close>. The buffer of a WebSocket write refers
      to a string that is gone, so in the model it sends any text.
    \<^item> \<open>Races\<close>: the pipeline when threads of the pool use it off the strand, with the two halves of
      \<open>queue::operator()\<close> as steps of their own. Shown: the states in which a connection is silent for ever or a
      response is written twice, the conditions under which responses are written in order, and how the relation of
      \<open>Sessions\<close> is related to this one.
    \<^item> \<open>Listener\<close> (\<open>webserver.hpp\<close>): HTTP connections with the hour timer and what keeps them, and the
      listener. Shown: when the timer closes, and that accepting goes on until a connection whose peer is gone.
    \<^item> \<open>Network\<close>: the whole running program, \<open>net_step\<close>: listener, connections and work server. The
      record field \<open>origins\<close> gives the connection that each request came from. Shown: answers reach
      the connection of their request, and every request read is answered there.

    \<^item> \<open>Logging\<close> (\<open>spdlog\<close>, as \<open>main\<close> uses it): the logger, the rotating log file and every failure of the system
      calls behind it. Shown: logging never throws or follows a null pointer, so the other theories can leave
      it out; the files keep their bound and hold an unbroken end of the log.

  Conventions. A thrown \<open>std::runtime_error\<close> is \<open>Inl\<close> of its message, undefined behaviour through a
  dangling reference is \<open>None\<close>, integers keep their width. A callback is a number, and calling it
  adds to the list \<open>answers\<close>. Ghost fields of the sessions record histories.

  Not modelled: the calls of the logger in the other components, the transport of bytes (of sockets the model has the completions of their
  operations), the parsing of the command line, JSON texts, OpenSSL's return codes, lifetimes
  of buffers other than the references in \<open>active_jobs\<close> and the members of \<open>work_handler\<close>, and data races within
  single accesses. In \<open>Network\<close> a callback that a pool thread calls is one step of its session, responses are
  values, and callbacks do not throw; \<open>Races\<close>, \<open>Sessions\<close> and \<open>Callbacks\<close> show what that leaves out.
\<close>

end
